(* ===== verification/Ipbus_Prelude.thy ===== *)
theory Ipbus_Prelude
  imports Main "HOL-Library.Word"
begin

text \<open>
  What every component of the model shares: the machine integer types of the Go code, the
  two ways a Go call can go wrong (an \<open>error\<close> value and a run-time panic), and the lemmas
  on words and lists that the component theories use.

  A Go function that returns an \<open>error\<close> returns, in the model, a \<open>go_error option\<close>
  beside its other results (\<open>None\<close> is Go's \<open>nil\<close>).  A function that can panic returns
  an \<open>outcome\<close>: \<open>Inl\<close> of the panic, or \<open>Inr\<close> of what it computes.
\<close>

unbundle bit_operations_syntax

subsection \<open>Machine integers\<close>

text \<open>Go's \<open>byte\<close>/\<open>uint8\<close>, \<open>uint16\<close>, \<open>uint32\<close>, and \<open>uint\<close> of a 64-bit platform.\<close>

type_synonym byte = "8 word"
type_synonym u16 = "16 word"
type_synonym u32 = "32 word"
type_synonym u64 = "64 word"

subsection \<open>Errors and panics\<close>

text \<open>One constructor per \<open>fmt.Errorf\<close> of the modelled code, with the values it prints.\<close>

datatype go_error =
    PacketHeaderTooShort
  | InvalidPacketHeader "byte list"
  | PacketHeaderNoRoom
  | PacketHeaderBadOrder
  | TransHeaderTooShort
  | TransHeaderBadOrder
  | TransHeaderNoRoom
  | TransHeaderBadWriteOrder
  | OrderHeaderTooShort "byte list"
  | OrderUnknown "byte list"
  | NoSuchMask string string
  | ReadWithInput nat
  | ReadNoSpace byte
  | WriteWrongLength byte nat
  | WriteNoSpace byte
  | RMWbitsWrongLength nat
  | RMWbitsNoSpace
  | RMWsumWrongLength nat
  | RMWsumNoSpace
  | IPbusError string
  | InsufficientBytes
  | ResendReceived
  | InvalidPacketType byte
  | InvalidTransactionID
  | CannotAddZero
  | LogFull u16
  | LogEmpty
  | NoQueuedID
  | SendFailed nat go_error
  | StatusRequestFailed nat go_error
  | ResendRequestFailed nat go_error
  | ShortResend nat nat
  | ReceivedNotSent
  | HwStopped
  | UnmatchedReply u16
  | ConnError nat
  | FileError nat
  | XMLError nat
  | ConnectionNotFound string
  | ResolveError nat
  | ProcessError nat

text \<open>Go's run-time panics that the code can raise, and the explicit \<open>panic(err)\<close>.\<close>

datatype go_panic =
    IndexOutOfRange
  | SliceOutOfRange
  | NilDereference
  | NilMapWrite
  | NonPositiveInterval
  | DivideByZero
  | PanicError go_error

type_synonym 'a outcome = "go_panic + 'a"

fun obind :: "'a outcome \<Rightarrow> ('a \<Rightarrow> 'b outcome) \<Rightarrow> 'b outcome" where
  "obind (Inl e) f = Inl e"
| "obind (Inr x) f = f x"

lemma obind_eq_Inr [simp]: "obind m f = Inr y \<longleftrightarrow> (\<exists>x. m = Inr x \<and> f x = Inr y)"
  by (cases m) auto

lemma obind_eq_Inl: "obind m f = Inl e \<longleftrightarrow> m = Inl e \<or> (\<exists>x. m = Inr x \<and> f x = Inl e)"
  by (cases m) auto

text \<open>A channel is named by a number: the code compares and stores channels, no more.\<close>

type_synonym chan = nat

subsection \<open>Words\<close>

named_theorems masks \<open>the mask constants of the code as shifted masks\<close>

lemma mask_literals [masks]:
  "(255 :: 8 word) = mask 8" "(255 :: 16 word) = mask 8" "(255 :: 32 word) = mask 8"
  "(65280 :: 16 word) = push_bit 8 (mask 8)" "(3840 :: 16 word) = push_bit 8 (mask 4)"
  "(15 :: 8 word) = mask 4" "(240 :: 8 word) = push_bit 4 (mask 4)"
  "(16776960 :: 32 word) = push_bit 8 (mask 16)" "(4294967295 :: 32 word) = mask 32"
  by (simp_all add: mask_eq_exp_minus_1)

text \<open>A word below \<open>2 ^ k\<close> has no bit from \<open>k\<close> on.\<close>

lemma high_bits_zero:
  fixes w :: "'a :: len word"
  assumes "w < 2 ^ k" and "k \<le> n"
  shows "\<not> bit w n"
proof -
  have "w AND mask k = w" using assms(1) by (rule less_mask_eq)
  then have "bit (w AND mask k) n = bit w n" by simp
  with assms(2) show ?thesis by (simp add: bit_simps)
qed

lemma nibble_bitD: "(p :: byte) < 16 \<Longrightarrow> bit p n \<Longrightarrow> n < 4"
  using high_bits_zero [of p 4 n] by fastforce

lemma twelve_bitD: "(i :: u16) < 4096 \<Longrightarrow> bit i n \<Longrightarrow> n < 12"
  using high_bits_zero [of i 12 n] by fastforce

lemma byte_bitD: "bit (b :: byte) n \<Longrightarrow> n < 8"
  using bit_imp_le_length [of b n] by simp

lemmas bitDs = nibble_bitD twelve_bitD byte_bitD

lemma and_15_less [simp]: "(p :: byte) AND 15 < 16"
  using and_mask_less' [of 4 p] by (simp add: masks)

subsection \<open>Words as numbers\<close>

lemma unat_byte_less: "unat (w :: byte) < 256"
  by (rule order_less_le_trans [OF unsigned_less]) simp

lemma unat_ucast_byte [simp]: "unat (ucast (w :: byte) :: u64) = unat w"
  by (simp add: unsigned_ucast_eq take_bit_nat_eq_self_iff order_less_le_trans [OF unat_byte_less])

lemma unat_ucast_byte_add [simp]:
  "n < 1000 \<Longrightarrow> unat (ucast (w :: byte) + (of_nat n :: u64)) = unat w + n"
  using unat_byte_less [of w] by (simp add: unat_word_ariths unat_of_nat)

lemma unat_byte_succ: "(w :: byte) \<noteq> 255 \<Longrightarrow> unat (w + 1) = unat w + 1"
proof -
  assume "w \<noteq> 255"
  then have "unat w \<noteq> unat (255 :: byte)" by (metis word_unat_eq_iff)
  then show ?thesis using unat_byte_less [of w] by (simp add: unat_word_ariths)
qed

subsection \<open>Packing and unpacking\<close>

text \<open>
  The shift-and-mask expressions of the headers and of the 32-bit words, each read back to
  the field it was packed from, and each packed again from its fields.
\<close>

declare drop_bit_and [simp del] drop_bit_or [simp del]

named_theorems packing \<open>fields packed into bytes and read back\<close>

lemma pid_join [packing]:
   "push_bit 8 (ucast (ucast (drop_bit 8 (w AND 0xff00) :: 16 word)::8 word)) OR ucast (ucast (w AND 0xff) :: 8 word) = w"
  for w::"16 word"
  by (rule bit_word_eqI) (auto simp: bit_simps masks dest: bitDs)

lemma boq_test [packing]:
   "((0xf0 OR p) AND 0xf0) = (0xf0 :: 8 word)"
  by (rule bit_word_eqI) (auto simp: bit_simps masks dest: bitDs)

lemma boq_nibble [packing]:
   "p < 16 \<Longrightarrow> ((0xf0 OR p) AND 0x0f) = (p :: 8 word)"
  by (rule bit_word_eqI) (auto simp: bit_simps masks dest: bitDs)

lemma boq_not_version [packing]:
   "0xf0 OR p \<noteq> (0x20 :: 8 word)"
proof
  assume "0xf0 OR p = (0x20 :: 8 word)"
  then have "bit (0xf0 OR p) 7 = bit (0x20 :: 8 word) 7" by simp
  then show False by (simp add: bit_simps)
qed

lemma boq_join [packing]:
   "x AND 0xf0 = 0xf0 \<Longrightarrow> 0xf0 OR (x AND 0x0f) = (x :: byte)"
proof (rule bit_word_eqI)
  fix n assume x: "x AND 0xf0 = 0xf0" and n: "n < LENGTH(8)"
  have "bit (x AND 0xf0) n = bit (0xf0 :: byte) n" using x by simp
  with n show "bit (0xf0 OR (x AND 0x0f)) n = bit x n"
    by (cases "n < 4") (auto simp: bit_simps masks)
qed

lemma pid_high [packing]:
   "ucast (drop_bit 8 ((push_bit 8 (ucast a) OR ucast b) AND 0xff00) :: 16 word) = (a :: 8 word)"
  for b :: byte
  by (rule bit_word_eqI) (auto simp: bit_simps masks dest: bitDs)

lemma pid_low [packing]:
   "ucast ((push_bit 8 (ucast a) OR ucast b) AND 0xff :: 16 word) = (b :: 8 word)"
  for a :: byte
  by (rule bit_word_eqI) (auto simp: bit_simps masks dest: bitDs)

lemma high_nibble [packing]:
   "v < 16 \<Longrightarrow> drop_bit 4 (push_bit 4 v OR ucast (drop_bit 8 (i AND 0x0f00) :: 16 word)) = (v :: byte)" 
  by (rule bit_word_eqI) (auto simp: bit_simps masks dest: bitDs)

lemma id_join [packing]:
   "i < 4096 \<Longrightarrow> ucast (ucast (i AND 0xff) :: byte) OR push_bit 8 (ucast ((push_bit 4 v OR ucast (drop_bit 8 (i AND 0x0f00))) AND 0x0f :: byte)) = (i :: 16 word)" 
  by (rule bit_word_eqI) (auto simp: bit_simps masks dest: bitDs)

lemma tid_nibble [packing]:
   "t < 16 \<Longrightarrow> c < 16 \<Longrightarrow> drop_bit 4 ((push_bit 4 t OR c) AND 0xf0) = (t :: byte)" 
  by (rule bit_word_eqI) (auto simp: bit_simps masks dest: bitDs)

lemma code_nibble [packing]:
   "t < 16 \<Longrightarrow> c < 16 \<Longrightarrow> (push_bit 4 t OR c) AND 0x0f = (c :: byte)" 
  by (rule bit_word_eqI) (auto simp: bit_simps masks dest: bitDs)

lemma version_id_join [packing]:
   "push_bit 4 (drop_bit 4 a) OR ucast (drop_bit 8 ((ucast b OR push_bit 8 (ucast (a AND 0x0f))) AND 0x0f00) :: 16 word) = (a :: byte)"
  for b :: byte
proof (rule bit_word_eqI)
  fix n assume "n < LENGTH(8)"
  then show "bit (push_bit 4 (drop_bit 4 a) OR ucast (drop_bit 8 ((ucast b OR push_bit 8 (ucast (a AND 0x0f))) AND 0x0f00) :: 16 word) :: byte) n = bit a n"
    by (cases "n < 4") (auto simp: bit_simps masks dest: bitDs)
qed

lemma id_low [packing]:
   "ucast ((ucast b OR push_bit 8 (ucast (a AND 0x0f))) AND 0xff :: 16 word) = (b::byte)"
  for a :: byte
  by (rule bit_word_eqI) (auto simp: bit_simps masks dest: bitDs)

lemma nibbles_join [packing]:
   "push_bit 4 (drop_bit 4 (a AND 0xf0)) OR (a AND 0x0f) = (a :: byte)"
  by (rule bit_word_eqI) (auto simp: bit_simps masks dest: bitDs)

lemma u32_join [packing]:
   "ucast (ucast v :: byte) OR push_bit 8 (ucast (ucast (drop_bit 8 v) :: byte)) OR push_bit 16 (ucast (ucast (drop_bit 16 v) :: byte)) OR push_bit 24 (ucast (ucast (drop_bit 24 v) :: byte)) = v"
  for v :: u32
proof (rule bit_word_eqI)
  fix n assume "n < LENGTH(32)"
  then consider "n < 8" | "8 \<le> n \<and> n < 16" | "16 \<le> n \<and> n < 24" | "24 \<le> n \<and> n < 32" by fastforce
  then show "bit (ucast (ucast v :: byte) OR push_bit 8 (ucast (ucast (drop_bit 8 v) :: byte)) OR push_bit 16 (ucast (ucast (drop_bit 16 v) :: byte)) OR push_bit 24 (ucast (ucast (drop_bit 24 v) :: byte)) :: u32) n = bit v n"
    by cases (auto simp: bit_simps)
qed

lemma u32_byte3 [packing]:
   "ucast (drop_bit 24 (ucast a OR push_bit 8 (ucast b) OR push_bit 16 (ucast c) OR push_bit 24 (ucast d) :: u32)) = (d :: byte)"
  for a b c :: byte
  by (rule bit_word_eqI) (auto simp: bit_simps dest: bitDs)

lemma u32_byte2 [packing]:
   "ucast (drop_bit 16 (ucast a OR push_bit 8 (ucast b) OR push_bit 16 (ucast c) OR push_bit 24 (ucast d) :: u32)) = (c :: byte)"
  for a b d :: byte
  by (rule bit_word_eqI) (auto simp: bit_simps dest: bitDs)

lemma u32_byte1 [packing]:
   "ucast (drop_bit 8 (ucast a OR push_bit 8 (ucast b) OR push_bit 16 (ucast c) OR push_bit 24 (ucast d) :: u32)) = (b :: byte)"
  for a c d :: byte
  by (rule bit_word_eqI) (auto simp: bit_simps dest: bitDs)

lemma u32_byte0 [packing]:
   "ucast ((ucast a OR push_bit 8 (ucast b) OR push_bit 16 (ucast c) OR push_bit 24 (ucast d) :: u32)) = (a :: byte)"
  for b c d :: byte
  by (rule bit_word_eqI) (auto simp: bit_simps dest: bitDs)

lemma drop_bit_nibble [simp]: "drop_bit 4 (x :: byte) AND 15 = drop_bit 4 x"
  by (rule bit_word_eqI) (auto simp: bit_simps masks dest: bitDs)

lemma id_bound [simp]: "(ucast (b :: byte) OR push_bit 8 (ucast ((a :: byte) AND 15)) :: u16) < 4096"
proof -
  let ?i = "ucast b OR push_bit 8 (ucast (a AND 15)) :: u16"
  have "?i AND mask 12 = ?i"
    by (rule bit_word_eqI) (auto simp: bit_simps masks dest: bitDs)
  then show ?thesis using and_mask_less' [of 12 ?i] by simp
qed

subsection \<open>Lists\<close>

text \<open>A slice of at least four bytes, opened up.\<close>

lemma four_bytesE:
  assumes "4 \<le> length bs"
  obtains a b c d r where "bs = a # b # c # d # r"
  using assms by (auto simp: numeral_eq_Suc Suc_le_length_iff)

lemma length_concat_map_4:
  "(\<And>x. x \<in> set xs \<Longrightarrow> length (f x) = 4) \<Longrightarrow> length (concat (map f xs)) = 4 * length xs"
  by (induction xs) auto

lemma returned_Inr: "case x of Some (Inr y) \<Rightarrow> True | _ \<Rightarrow> False \<Longrightarrow> \<exists>y. x = Some (Inr y)"
  by (auto split: option.splits sum.splits)

end
