(* ===== verification/Wire.thy ===== *)
theory Wire
  imports Ipbus_Prelude
begin

text \<open>
  The wire format of \<open>ipbus.go\<close>: the constants of the protocol, reading and writing 32-bit
  words in either byte order (\<open>binary.ByteOrder\<close> of the Go library), the packet header and
  the transaction header with their \<open>decode\<close> and \<open>encode\<close> methods, and \<open>byteorder\<close> of
  \<open>transaction.go\<close>.  A \<open>decode\<close> method returns the updated receiver beside its error, an
  \<open>encode\<close> method the updated byte slice.

  The locale \<open>word_codec\<close> is what the rest of the code relies on when it lays fields of four
  bytes one after the other; it is interpreted on the two headers and on the 32-bit words.
\<close>

subsection \<open>Constants\<close>

definition protocolversion :: u32 where "protocolversion = 2"

text \<open>Information codes, transaction types and packet types are \<open>uint8\<close> types in the code:
  a value read from the network need not be one of the named ones.\<close>

definition Success :: byte where "Success = 0x0"
definition BadHeader :: byte where "BadHeader = 0x1"
definition BusReadError :: byte where "BusReadError = 0x4"
definition BusWriteError :: byte where "BusWriteError = 0x5"
definition BusReadTimeout :: byte where "BusReadTimeout = 0x6"
definition busWriteTimeout :: byte where "busWriteTimeout = 0x7"
definition Request :: byte where "Request = 0xf"

lemmas code_defs = Success_def BadHeader_def BusReadError_def BusWriteError_def
  BusReadTimeout_def busWriteTimeout_def Request_def

definition transactionerrs :: "string list" where
  "transactionerrs =
    [''Success'', ''Bad Header'', ''Rsvd (0x2)'', ''Rsvd (0x3)'', ''Bus Read Error'',
     ''Bus Write Error'', ''Bus Read Timeout'', ''bus Write Timeout'', ''Rsvd (0x8)'',
     ''Rsvd (0x9)'', ''Rsvd (0xa)'', ''Rsvd (0xb)'', ''Rsvd (0xc)'', ''Rsvd (0xd)'',
     ''Rsvd (0xe)'', ''Request'']"

definition tid_read :: byte where "tid_read = 0x0"
definition tid_write :: byte where "tid_write = 0x1"
definition tid_readnoninc :: byte where "tid_readnoninc = 0x2"
definition tid_writenoninc :: byte where "tid_writenoninc = 0x3"
definition tid_rmwbits :: byte where "tid_rmwbits = 0x4"
definition tid_rmwsum :: byte where "tid_rmwsum = 0x5"

lemmas tid_defs = tid_read_def tid_write_def tid_readnoninc_def tid_writenoninc_def
  tid_rmwbits_def tid_rmwsum_def

text \<open>The case expressions of the code that take the incrementing and the non-incrementing
  type together.\<close>

definition is_read :: "byte \<Rightarrow> bool" where
  "is_read tid \<longleftrightarrow> tid = tid_read \<or> tid = tid_readnoninc"

definition is_write :: "byte \<Rightarrow> bool" where
  "is_write tid \<longleftrightarrow> tid = tid_write \<or> tid = tid_writenoninc"

lemma tid_distinct [simp]:
  "is_read t \<Longrightarrow> \<not> is_write t" "is_write t \<Longrightarrow> \<not> is_read t"
  "is_read t \<Longrightarrow> t \<noteq> tid_rmwbits" "is_read t \<Longrightarrow> t \<noteq> tid_rmwsum"
  "is_write t \<Longrightarrow> t \<noteq> tid_rmwbits" "is_write t \<Longrightarrow> t \<noteq> tid_rmwsum"
  "\<not> is_read tid_rmwbits" "\<not> is_read tid_rmwsum" "\<not> is_write tid_rmwbits" "\<not> is_write tid_rmwsum"
  "is_read tid_read" "is_read tid_readnoninc" "is_write tid_write" "is_write tid_writenoninc"
  "tid_rmwsum \<noteq> tid_rmwbits" "tid_rmwbits \<noteq> tid_rmwsum"
  by (auto simp: is_read_def is_write_def tid_defs)

definition control :: byte where "control = 0x0"
definition status :: byte where "status = 0x1"
definition resend :: byte where "resend = 0x2"

lemmas ptype_defs = control_def status_def resend_def

text \<open>The exported variable \<open>MaxPacketSize\<close>; the functions that read it take its value as
  an argument, since a client may assign it.\<close>

definition MaxPacketSize :: u64 where "MaxPacketSize = 1500"

subsection \<open>Byte order\<close>

text \<open>A \<open>binary.ByteOrder\<close> is an interface value: \<open>nil\<close> in a zeroed header, or one of the
  two orders.\<close>

datatype byteorder = NilOrder | BigEndian | LittleEndian

definition defaultorder :: byteorder where "defaultorder = LittleEndian"

text \<open>\<open>order.Uint32(b)\<close>: a nil order or fewer than four bytes panic.\<close>

fun order_Uint32 :: "byteorder \<Rightarrow> byte list \<Rightarrow> u32 outcome" where
  "order_Uint32 NilOrder b = Inl NilDereference"
| "order_Uint32 BigEndian b =
     (if length b < 4 then Inl IndexOutOfRange
      else Inr (ucast (b ! 3) OR push_bit 8 (ucast (b ! 2)) OR push_bit 16 (ucast (b ! 1))
                OR push_bit 24 (ucast (b ! 0))))"
| "order_Uint32 LittleEndian b =
     (if length b < 4 then Inl IndexOutOfRange
      else Inr (ucast (b ! 0) OR push_bit 8 (ucast (b ! 1)) OR push_bit 16 (ucast (b ! 2))
                OR push_bit 24 (ucast (b ! 3))))"

text \<open>\<open>order.PutUint32(b, v)\<close> overwrites the first four bytes of the slice.\<close>

fun order_PutUint32 :: "byteorder \<Rightarrow> byte list \<Rightarrow> u32 \<Rightarrow> byte list outcome" where
  "order_PutUint32 NilOrder b v = Inl NilDereference"
| "order_PutUint32 BigEndian b v =
     (if length b < 4 then Inl IndexOutOfRange
      else Inr (b[0 := ucast (drop_bit 24 v), 1 := ucast (drop_bit 16 v),
                  2 := ucast (drop_bit 8 v), 3 := ucast v]))"
| "order_PutUint32 LittleEndian b v =
     (if length b < 4 then Inl IndexOutOfRange
      else Inr (b[0 := ucast v, 1 := ucast (drop_bit 8 v),
                  2 := ucast (drop_bit 16 v), 3 := ucast (drop_bit 24 v)]))"

definition byte2uint32 :: "byte list \<Rightarrow> byteorder \<Rightarrow> u32 outcome" where
  "byte2uint32 bs order = order_Uint32 order bs"

text \<open>The loop of \<open>bytes2uint32s\<close>: \<open>size\<close> words, the slice advanced by four bytes each.\<close>

fun bytes2uint32s_loop :: "nat \<Rightarrow> byte list \<Rightarrow> byteorder \<Rightarrow> u32 list \<Rightarrow> u32 list outcome" where
  "bytes2uint32s_loop 0 bs order us = Inr us"
| "bytes2uint32s_loop (Suc i) bs order us =
     obind (order_Uint32 order bs)
       (\<lambda>u. bytes2uint32s_loop i (drop 4 bs) order (us @ [u]))"

definition bytes2uint32s :: "byte list \<Rightarrow> byteorder \<Rightarrow> u32 list outcome" where
  "bytes2uint32s bs order = bytes2uint32s_loop (length bs div 4) bs order []"

subsection \<open>Packet header\<close>

record packetheader =
  ph_version :: byte
  ph_pid :: u16
  ph_ptype :: byte
  ph_order :: byteorder

text \<open>The zero value \<open>packetheader{}\<close>.\<close>

definition zero_packetheader :: packetheader where
  "zero_packetheader = \<lparr>ph_version = 0, ph_pid = 0, ph_ptype = 0, ph_order = NilOrder\<rparr>"

definition packetheader_decode ::
    "packetheader \<Rightarrow> byte list \<Rightarrow> packetheader \<times> go_error option" where
  "packetheader_decode p data =
    (if length data < 4 then (p, Some PacketHeaderTooShort)
     else
       let v = push_bit 4 (ucast protocolversion :: byte); boq = (0xf0 :: byte) in
       if data ! 0 = v \<and> data ! 3 AND boq = boq then
         (p\<lparr>ph_version := ucast protocolversion,
            ph_pid := push_bit 8 (ucast (data ! 1)) OR ucast (data ! 2),
            ph_ptype := data ! 3 AND 0x0f, ph_order := BigEndian\<rparr>, None)
       else if data ! 3 = v \<and> data ! 0 AND boq = boq then
         (p\<lparr>ph_version := ucast protocolversion,
            ph_pid := push_bit 8 (ucast (data ! 2)) OR ucast (data ! 1),
            ph_ptype := data ! 0 AND 0x0f, ph_order := LittleEndian\<rparr>, None)
       else (p, Some (InvalidPacketHeader (take 4 data))))"

definition newPacketHeader :: "byte list \<Rightarrow> packetheader \<times> go_error option" where
  "newPacketHeader data = packetheader_decode zero_packetheader data"

definition packetheader_encode ::
    "packetheader \<Rightarrow> byte list \<Rightarrow> byte list \<times> go_error option" where
  "packetheader_encode p data =
    (if length data < 4 then (data, Some PacketHeaderNoRoom)
     else if ph_order p = BigEndian then
       (data[0 := push_bit 4 (ph_version p),
             1 := ucast (drop_bit 8 (ph_pid p AND 0xff00)),
             2 := ucast (ph_pid p AND 0x00ff),
             3 := 0xf0 OR ph_ptype p], None)
     else if ph_order p = LittleEndian then
       (data[3 := push_bit 4 (ph_version p),
             2 := ucast (drop_bit 8 (ph_pid p AND 0xff00)),
             1 := ucast (ph_pid p AND 0x00ff),
             0 := 0xf0 OR ph_ptype p], None)
     else (data, Some PacketHeaderBadOrder))"

text \<open>\<open>byteorder\<close> of \<open>transaction.go\<close>: the order a header announces.\<close>

definition header_byteorder :: "byte list \<Rightarrow> byteorder \<times> go_error option" where
  "header_byteorder header =
    (if length header < 4 then (NilOrder, Some (OrderHeaderTooShort header))
     else
       let v = push_bit 4 (ucast protocolversion :: byte); boq = (0xf0 :: byte) in
       if header ! 0 = v \<and> header ! 3 AND boq = boq then (BigEndian, None)
       else if header ! 3 = v \<and> header ! 0 AND boq = boq then (LittleEndian, None)
       else (NilOrder, Some (OrderUnknown header)))"

subsection \<open>Transaction header\<close>

record transactionheader =
  th_version :: byte
  th_id :: u16
  th_words :: byte
  th_tid :: byte
  th_code :: byte

definition zero_transactionheader :: transactionheader where
  "zero_transactionheader =
    \<lparr>th_version = 0, th_id = 0, th_words = 0, th_tid = 0, th_code = 0\<rparr>"

definition transactionheader_decode ::
    "transactionheader \<Rightarrow> byte list \<Rightarrow> byteorder \<Rightarrow> transactionheader \<times> go_error option" where
  "transactionheader_decode th data order =
    (if length data < 4 then (th, Some TransHeaderTooShort)
     else if order = BigEndian then
       (th\<lparr>th_version := drop_bit 4 (data ! 0),
           th_id := ucast (data ! 1) OR push_bit 8 (ucast (data ! 0 AND 0x0f)),
           th_words := data ! 2,
           th_tid := drop_bit 4 (data ! 3 AND 0xf0),
           th_code := data ! 3 AND 0x0f\<rparr>, None)
     else if order = LittleEndian then
       (th\<lparr>th_version := drop_bit 4 (data ! 3),
           th_id := ucast (data ! 2) OR push_bit 8 (ucast (data ! 3 AND 0x0f)),
           th_words := data ! 1,
           th_tid := drop_bit 4 (data ! 0 AND 0xf0),
           th_code := data ! 0 AND 0x0f\<rparr>, None)
     else (th, Some TransHeaderBadOrder))"

definition newTransactionHeader ::
    "byte list \<Rightarrow> byteorder \<Rightarrow> transactionheader \<times> go_error option" where
  "newTransactionHeader data order = transactionheader_decode zero_transactionheader data order"

definition transactionheader_encode ::
    "transactionheader \<Rightarrow> byte list \<Rightarrow> byteorder \<Rightarrow> byte list \<times> go_error option" where
  "transactionheader_encode th data order =
    (if length data < 4 then (data, Some TransHeaderNoRoom)
     else if order = BigEndian then
       (data[0 := push_bit 4 (th_version th) OR ucast (drop_bit 8 (th_id th AND 0x0f00)),
             1 := ucast (th_id th AND 0xff),
             2 := th_words th,
             3 := push_bit 4 (th_tid th) OR th_code th], None)
     else if order = LittleEndian then
       (data[3 := push_bit 4 (th_version th) OR ucast (drop_bit 8 (th_id th AND 0x0f00)),
             2 := ucast (th_id th AND 0xff),
             1 := th_words th,
             0 := push_bit 4 (th_tid th) OR th_code th], None)
     else (data, Some TransHeaderBadWriteOrder))"

subsection \<open>Fields of four bytes laid one after the other\<close>

text \<open>
  The interface between the fields and the streams made of them: an encoder that yields four
  bytes and a decoder that reads them back from the front of a longer slice.
\<close>

locale word_codec =
  fixes enc :: "'a \<Rightarrow> byte list"
    and dec :: "byte list \<Rightarrow> 'a option"
    and wf :: "'a \<Rightarrow> bool"
  assumes enc_length: "wf x \<Longrightarrow> length (enc x) = 4"
    and dec_enc: "wf x \<Longrightarrow> dec (enc x @ rest) = Some x"
begin

lemma enc_prefix_free:
  assumes "wf x" "wf y" "enc x @ r = enc y @ s"
  shows "x = y \<and> r = s"
proof -
  have "dec (enc x @ r) = dec (enc y @ s)" using assms(3) by simp
  with assms(1,2) have "x = y" by (simp add: dec_enc)
  with assms(3) show ?thesis by simp
qed

lemma stream_length:
  "\<forall>x \<in> set xs. wf x \<Longrightarrow> length (concat (map enc xs)) = 4 * length xs"
  by (rule length_concat_map_4) (simp add: enc_length)

lemma drop_stream:
  "\<forall>x \<in> set xs. wf x \<Longrightarrow> i \<le> length xs \<Longrightarrow>
     drop (4 * i) (concat (map enc xs) @ r) = concat (map enc (drop i xs)) @ r"
proof (induction xs arbitrary: i)
  case Nil
  then show ?case by simp
next
  case (Cons x xs)
  then show ?case by (cases i) (auto simp: enc_length)
qed

text \<open>Field \<open>i\<close> of a stream is read at offset \<open>4 * i\<close>.\<close>

lemma dec_stream_nth:
  assumes wf: "\<forall>x \<in> set xs. wf x" and i: "i < length xs"
  shows "dec (drop (4 * i) (concat (map enc xs) @ r)) = Some (xs ! i)"
proof -
  have "drop (4 * i) (concat (map enc xs) @ r) = concat (map enc (drop i xs)) @ r"
    using wf i by (intro drop_stream) auto
  also have "\<dots> = enc (xs ! i) @ (concat (map enc (drop (Suc i) xs)) @ r)"
    using i by (simp add: Cons_nth_drop_Suc [symmetric])
  finally show ?thesis using wf i by (simp add: dec_enc)
qed

lemma stream_inj:
  "\<forall>x \<in> set xs. wf x \<Longrightarrow> \<forall>y \<in> set ys. wf y \<Longrightarrow>
     concat (map enc xs) = concat (map enc ys) \<Longrightarrow> xs = ys"
proof (induction xs arbitrary: ys)
  case Nil
  then show ?case by (cases ys) (auto dest: enc_length)
next
  case (Cons x xs)
  have "length (enc x) = 4" using Cons.prems(1) by (simp add: enc_length)
  with Cons.prems(3) obtain y ys' where ys: "ys = y # ys'"
    by (cases ys) auto
  have "x = y \<and> concat (map enc xs) = concat (map enc ys')"
    using Cons.prems ys by (intro enc_prefix_free) auto
  moreover from this have "xs = ys'"
    using Cons.prems ys by (intro Cons.IH) auto
  ultimately show ?case using ys by simp
qed

end

subsection \<open>The bytes of a header or a word\<close>

text \<open>Encoding into four fresh zero bytes, as \<open>add\<close> and the packet writers do.\<close>

definition ph_bytes :: "packetheader \<Rightarrow> byte list" where
  "ph_bytes h = fst (packetheader_encode h [0, 0, 0, 0])"

definition th_bytes :: "byteorder \<Rightarrow> transactionheader \<Rightarrow> byte list" where
  "th_bytes order h = fst (transactionheader_encode h [0, 0, 0, 0] order)"

definition u32_bytes :: "byteorder \<Rightarrow> u32 \<Rightarrow> byte list" where
  "u32_bytes order v = (case order_PutUint32 order [0, 0, 0, 0] v of Inl e \<Rightarrow> [] | Inr b \<Rightarrow> b)"

text \<open>Headers and orders that the encoders write without loss.\<close>

definition wf_ph :: "packetheader \<Rightarrow> bool" where
  "wf_ph h \<longleftrightarrow> ph_version h = 2 \<and> ph_ptype h < 16 \<and> ph_order h \<noteq> NilOrder"

definition wf_th :: "transactionheader \<Rightarrow> bool" where
  "wf_th h \<longleftrightarrow> th_version h < 16 \<and> th_id h < 4096 \<and> th_tid h < 16 \<and> th_code h < 16"

lemma packetheader_encode_bytes:
  assumes "4 \<le> length data" "ph_order h \<noteq> NilOrder"
  shows "packetheader_encode h data = (ph_bytes h @ drop 4 data, None)"
  using assms
  by (cases "ph_order h") (auto simp: packetheader_encode_def ph_bytes_def elim!: four_bytesE)

lemma length_ph_bytes [simp]: "length (ph_bytes h) = 4"
  by (simp add: ph_bytes_def packetheader_encode_def)

lemma transactionheader_encode_bytes:
  assumes "4 \<le> length data" "order \<noteq> NilOrder"
  shows "transactionheader_encode h data order = (th_bytes order h @ drop 4 data, None)"
  using assms
  by (cases order) (auto simp: transactionheader_encode_def th_bytes_def elim!: four_bytesE)

lemma length_th_bytes [simp]: "length (th_bytes order h) = 4"
  by (simp add: th_bytes_def transactionheader_encode_def)

lemma order_PutUint32_bytes:
  assumes "4 \<le> length data" "order \<noteq> NilOrder"
  shows "order_PutUint32 order data v = Inr (u32_bytes order v @ drop 4 data)"
  using assms by (cases order) (auto simp: u32_bytes_def elim!: four_bytesE)

lemma length_u32_bytes [simp]: "order \<noteq> NilOrder \<Longrightarrow> length (u32_bytes order v) = 4"
  by (cases order) (auto simp: u32_bytes_def)

subsection \<open>Reading back what was written\<close>

lemma protocolversion_byte [simp]: "(ucast protocolversion :: byte) = 2"
  by (simp add: protocolversion_def)

lemma newPacketHeader_bytes:
  assumes "wf_ph h"
  shows "newPacketHeader (ph_bytes h @ rest) = (h, None)"
proof -
  have "ph_order h = BigEndian \<or> ph_order h = LittleEndian"
    using assms by (cases "ph_order h") (auto simp: wf_ph_def)
  then show ?thesis
    using assms
    by (cases h)
      (auto simp: newPacketHeader_def packetheader_decode_def ph_bytes_def
        packetheader_encode_def wf_ph_def zero_packetheader_def packing)
qed

lemma newPacketHeader_Some:
  assumes "newPacketHeader data = (h, None)"
  shows "wf_ph h \<and> ph_bytes h = take 4 data \<and> 4 \<le> length data"
proof -
  have len: "4 \<le> length data"
    using assms by (auto simp: newPacketHeader_def packetheader_decode_def split: if_splits)
  then obtain a b c d r where data: "data = a # b # c # d # r" by (rule four_bytesE)
  show ?thesis
    using assms len unfolding data
    by (auto simp: newPacketHeader_def packetheader_decode_def Let_def ph_bytes_def
        packetheader_encode_def wf_ph_def packing split: if_splits)
qed

lemma newPacketHeader_error:
  "newPacketHeader data = (h, Some e) \<Longrightarrow> h = zero_packetheader"
  by (auto simp: newPacketHeader_def packetheader_decode_def Let_def split: if_splits)

lemma newTransactionHeader_bytes:
  assumes "wf_th h" "order \<noteq> NilOrder"
  shows "newTransactionHeader (th_bytes order h @ rest) order = (h, None)"
  using assms
  by (cases order; cases h)
    (auto simp: newTransactionHeader_def transactionheader_decode_def th_bytes_def
      transactionheader_encode_def wf_th_def zero_transactionheader_def packing)

text \<open>Any four bytes are a transaction header, and encoding it gives the bytes back.\<close>

lemma newTransactionHeader_inverse:
  assumes "4 \<le> length data" "order \<noteq> NilOrder"
  shows "\<exists>h. newTransactionHeader data order = (h, None) \<and> wf_th h \<and> th_bytes order h = take 4 data"
proof -
  obtain a b c d r where data: "data = a # b # c # d # r" using assms(1) by (rule four_bytesE)
  have version: "drop_bit 4 x < 16" for x :: byte
    using and_15_less [of "drop_bit 4 x"] by (simp add: drop_bit_nibble)
  show ?thesis
    using assms unfolding data
    by (cases order)
      (auto simp: newTransactionHeader_def transactionheader_decode_def th_bytes_def
        transactionheader_encode_def wf_th_def packing version id_bound drop_bit_nibble)
qed

lemma newTransactionHeader_short:
  "length data < 4 \<Longrightarrow> newTransactionHeader data order = (zero_transactionheader, Some TransHeaderTooShort)"
  by (simp add: newTransactionHeader_def transactionheader_decode_def)

lemma newTransactionHeader_error_iff:
  "order \<noteq> NilOrder \<Longrightarrow> (\<exists>e. snd (newTransactionHeader data order) = Some e) \<longleftrightarrow> length data < 4"
  by (cases order) (auto simp: newTransactionHeader_def transactionheader_decode_def)

lemma order_Uint32_bytes:
  "order \<noteq> NilOrder \<Longrightarrow> order_Uint32 order (u32_bytes order v @ rest) = Inr v"
  by (cases order) (auto simp: u32_bytes_def packing)

lemma order_Uint32_inverse:
  assumes "4 \<le> length b" "order \<noteq> NilOrder"
  shows "\<exists>v. order_Uint32 order b = Inr v \<and> u32_bytes order v = take 4 b"
proof -
  obtain a b0 c d r where b: "b = a # b0 # c # d # r" using assms(1) by (rule four_bytesE)
  show ?thesis
    using assms(2) unfolding b by (cases order) (auto simp: u32_bytes_def packing)
qed

declare order_Uint32.simps [simp del] order_PutUint32.simps [simp del]

lemma bytes2uint32s_loop_words:
  assumes "order \<noteq> NilOrder"
  shows "bytes2uint32s_loop (length ws) (concat (map (u32_bytes order) ws) @ rest) order us
         = Inr (us @ ws)"
  using assms
  by (induction ws arbitrary: us) (auto simp: order_Uint32_bytes)

lemma bytes2uint32s_words:
  assumes "order \<noteq> NilOrder"
  shows "bytes2uint32s (concat (map (u32_bytes order) ws)) order = Inr ws"
proof -
  have "length (concat (map (u32_bytes order) ws)) = 4 * length ws"
    using assms by (intro length_concat_map_4) simp
  then show ?thesis
    using bytes2uint32s_loop_words [OF assms, of ws "[]" "[]"] by (simp add: bytes2uint32s_def)
qed

text \<open>On any slice the conversion succeeds and yields one word per full four bytes.\<close>

lemma bytes2uint32s_loop_total:
  "order \<noteq> NilOrder \<Longrightarrow> 4 * n \<le> length bs \<Longrightarrow>
     \<exists>ws. bytes2uint32s_loop n bs order us = Inr (us @ ws) \<and> length ws = n
          \<and> concat (map (u32_bytes order) ws) = take (4 * n) bs"
proof (induction n arbitrary: bs us)
  case 0
  then show ?case by simp
next
  case (Suc n)
  then obtain v where v: "order_Uint32 order bs = Inr v" "u32_bytes order v = take 4 bs"
    using order_Uint32_inverse [of bs order] by auto
  have "4 * n \<le> length (drop 4 bs)" using Suc.prems by simp
  then obtain ws where ws: "bytes2uint32s_loop n (drop 4 bs) order (us @ [v]) = Inr ((us @ [v]) @ ws)"
      "length ws = n" "concat (map (u32_bytes order) ws) = take (4 * n) (drop 4 bs)"
    using Suc.IH [of "drop 4 bs" "us @ [v]"] Suc.prems(1) by blast
  have "take (4 * Suc n) bs = take 4 bs @ take (4 * n) (drop 4 bs)"
    by (simp add: take_add [symmetric])
  with v ws show ?case by (intro exI [of _ "v # ws"]) simp
qed

lemma bytes2uint32s_total:
  assumes "order \<noteq> NilOrder"
  shows "\<exists>ws. bytes2uint32s bs order = Inr ws \<and> length ws = length bs div 4
           \<and> concat (map (u32_bytes order) ws) = take (4 * (length bs div 4)) bs"
  using bytes2uint32s_loop_total [OF assms, of "length bs div 4" bs "[]"]
  by (auto simp: bytes2uint32s_def)

subsection \<open>The codecs\<close>

definition ok_part :: "'a \<times> go_error option \<Rightarrow> 'a option" where
  "ok_part r = (case snd r of None \<Rightarrow> Some (fst r) | Some _ \<Rightarrow> None)"

definition right_part :: "'a outcome \<Rightarrow> 'a option" where
  "right_part r = (case r of Inl _ \<Rightarrow> None | Inr x \<Rightarrow> Some x)"

lemma ok_part_simps [simp]: "ok_part (x, None) = Some x" "ok_part (x, Some e) = None"
  by (simp_all add: ok_part_def)

lemma right_part_simps [simp]: "right_part (Inr x) = Some x" "right_part (Inl e) = None"
  by (simp_all add: right_part_def)

interpretation ph: word_codec ph_bytes "\<lambda>b. ok_part (newPacketHeader b)" wf_ph
  by unfold_locales (simp_all add: newPacketHeader_bytes)

interpretation th_be: word_codec "th_bytes BigEndian"
    "\<lambda>b. ok_part (newTransactionHeader b BigEndian)" wf_th
  by unfold_locales (simp_all add: newTransactionHeader_bytes)

interpretation th_le: word_codec "th_bytes LittleEndian"
    "\<lambda>b. ok_part (newTransactionHeader b LittleEndian)" wf_th
  by unfold_locales (simp_all add: newTransactionHeader_bytes)

interpretation u32_be: word_codec "u32_bytes BigEndian"
    "\<lambda>b. right_part (order_Uint32 BigEndian b)" "\<lambda>_. True"
  by unfold_locales (simp_all add: order_Uint32_bytes)

interpretation u32_le: word_codec "u32_bytes LittleEndian"
    "\<lambda>b. right_part (order_Uint32 LittleEndian b)" "\<lambda>_. True"
  by unfold_locales (simp_all add: order_Uint32_bytes)

subsection \<open>Properties\<close>


text \<open>C18: \<open>newPacketHeader\<close> accepts exactly the slices that start with the encoding of a
  well-formed header (version 2, a packet type of four bits, one of the two byte orders), and
  returns that header: decoding inverts encoding in both byte orders and accepts nothing
  else.\<close>

theorem newPacketHeader_iff:
  "newPacketHeader data = (h, None) \<longleftrightarrow> wf_ph h \<and> (\<exists>rest. data = ph_bytes h @ rest)"
proof
  assume "newPacketHeader data = (h, None)"
  from newPacketHeader_Some [OF this] show "wf_ph h \<and> (\<exists>rest. data = ph_bytes h @ rest)"
    by (auto intro!: exI [of _ "drop 4 data"])
next
  assume "wf_ph h \<and> (\<exists>rest. data = ph_bytes h @ rest)"
  then show "newPacketHeader data = (h, None)" by (auto simp: newPacketHeader_bytes)
qed

text \<open>C19: \<open>newTransactionHeader\<close> accepts a slice exactly when the byte order is known and the
  slice starts with the encoding of a header whose fields fit their bits (version, type and
  code of four, identifier of twelve), and returns that header.\<close>

theorem newTransactionHeader_iff:
  "newTransactionHeader data order = (h, None) \<longleftrightarrow>
     order \<noteq> NilOrder \<and> wf_th h \<and> (\<exists>rest. data = th_bytes order h @ rest)"
proof
  assume dec: "newTransactionHeader data order = (h, None)"
  then have len: "4 \<le> length data" and order: "order \<noteq> NilOrder"
    by (auto simp: newTransactionHeader_def transactionheader_decode_def split: if_splits)
  from newTransactionHeader_inverse [OF this] dec
  show "order \<noteq> NilOrder \<and> wf_th h \<and> (\<exists>rest. data = th_bytes order h @ rest)"
    using order by (auto intro!: exI [of _ "drop 4 data"])
next
  assume "order \<noteq> NilOrder \<and> wf_th h \<and> (\<exists>rest. data = th_bytes order h @ rest)"
  then show "newTransactionHeader data order = (h, None)" by (auto simp: newTransactionHeader_bytes)
qed

text \<open>C37: \<open>bytes2uint32s\<close> returns exactly the words whose encodings, one after the other,
  make up the slice, less a tail of at most three bytes, which it drops.\<close>

theorem bytes2uint32s_iff:
  assumes "order \<noteq> NilOrder"
  shows "bytes2uint32s bs order = Inr ws \<longleftrightarrow>
    (\<exists>tail. bs = concat (map (u32_bytes order) ws) @ tail \<and> length tail < 4)"
proof -
  have len: "length (concat (map (u32_bytes order) ws)) = 4 * length ws" for ws
    using assms by (intro length_concat_map_4) simp
  show ?thesis
  proof
    assume "bytes2uint32s bs order = Inr ws"
    with bytes2uint32s_total [OF assms, of bs]
    have "length ws = length bs div 4" "concat (map (u32_bytes order) ws) = take (4 * (length bs div 4)) bs"
      by auto
    then show "\<exists>tail. bs = concat (map (u32_bytes order) ws) @ tail \<and> length tail < 4"
      by (intro exI [of _ "drop (4 * (length bs div 4)) bs"]) simp
  next
    assume "\<exists>tail. bs = concat (map (u32_bytes order) ws) @ tail \<and> length tail < 4"
    then obtain tail where bs: "bs = concat (map (u32_bytes order) ws) @ tail" "length tail < 4" by blast
    then have "length bs div 4 = length ws" by (simp add: len)
    then show "bytes2uint32s bs order = Inr ws"
      using bytes2uint32s_loop_words [OF assms, of ws tail "[]"] by (simp add: bytes2uint32s_def bs(1))
  qed
qed

theorem bytes2uint32s_iff_witness:
  "bytes2uint32s [1, 2, 3, 4, 9] LittleEndian = Inr [0x04030201]"
  by (subst bytes2uint32s_iff) (simp_all add: u32_bytes_def order_PutUint32.simps)

text \<open>C40: \<open>byteorder\<close> and the decoding of the packet header agree: one reports an error
  exactly when the other does, and the order is the one stored in the header.\<close>

theorem byteorder_agrees:
  "fst (header_byteorder data) = ph_order (fst (newPacketHeader data)) \<and>
   (snd (header_byteorder data) = None \<longleftrightarrow> snd (newPacketHeader data) = None)"
  by (auto simp: header_byteorder_def newPacketHeader_def packetheader_decode_def Let_def
      zero_packetheader_def)

end
