(* ===== verification/Registers.thy ===== *)
theory Registers
  imports Ipbus_Prelude
begin

text \<open>
  Registers and their bit masks (\<open>register.go\<close>): \<open>newmask\<close> finds the shift of a mask,
  \<open>ReadMask\<close> extracts the masked field of a value, and \<open>WriteMask\<close> computes the AND and
  OR terms of the read-modify-write transaction that sets the field.

  A Go map that may be \<open>nil\<close> is an optional map: reading a nil map finds nothing, writing
  one panics.  Shift counts are below 32 throughout and are kept as \<open>nat\<close>.
\<close>

type_synonym 'v gomap = "(string \<rightharpoonup> 'v) option"

definition gomap_get :: "'v gomap \<Rightarrow> string \<Rightarrow> 'v option" where
  "gomap_get m k = (case m of None \<Rightarrow> None | Some f \<Rightarrow> f k)"

definition gomap_put :: "'v gomap \<Rightarrow> string \<Rightarrow> 'v \<Rightarrow> 'v gomap outcome" where
  "gomap_put m k v = (case m of None \<Rightarrow> Inl NilMapWrite | Some f \<Rightarrow> Inr (Some (f(k \<mapsto> v))))"

lemma gomap_get_put:
  "gomap_put m k v = Inr m' \<Longrightarrow> gomap_get m' k' = (if k' = k then Some v else gomap_get m k')"
  by (auto simp: gomap_put_def gomap_get_def split: option.splits)

record msk =
  msk_name :: string
  msk_value :: u32
  msk_shift :: nat

record Register =
  r_Name :: string
  r_Addr :: u32
  r_Masks :: "string list"
  r_noninc :: bool
  r_size :: int
  r_msks :: "msk gomap"

subsection \<open>The shift of a mask\<close>

text \<open>The loop of \<open>newmask\<close> from index \<open>i\<close>: the first set bit ends it.\<close>

function newmask_loop :: "u32 \<Rightarrow> nat \<Rightarrow> nat" where
  "newmask_loop v i =
    (if i < 32 then
       (if push_bit i 1 AND v > 0 then i else newmask_loop v (Suc i))
     else 0)"
  by pat_completeness auto
termination
  by (relation "measure (\<lambda>(v, i). 32 - i)") auto

declare newmask_loop.simps [simp del]

definition newmask :: "string \<Rightarrow> u32 \<Rightarrow> msk" where
  "newmask name v =
    \<lparr>msk_name = name, msk_value = v, msk_shift = newmask_loop v 0\<rparr>"

lemma single_bit_test: "i < 32 \<Longrightarrow> push_bit i 1 AND (v :: u32) > 0 \<longleftrightarrow> bit v i"
proof -
  assume i: "i < 32"
  have "push_bit i 1 AND v \<noteq> 0 \<longleftrightarrow> bit v i"
  proof
    assume "bit v i"
    then have "bit (push_bit i 1 AND v) i" using i by (simp add: bit_simps)
    then show "push_bit i 1 AND v \<noteq> 0" by auto
  next
    assume "push_bit i 1 AND v \<noteq> 0"
    then obtain j where "bit (push_bit i 1 AND v) j" by (auto simp: bit_eq_iff)
    then show "bit v i" by (auto simp: bit_simps)
  qed
  then show ?thesis by (simp add: word_gt_0)
qed

lemmas single_bit_power = single_bit_test [unfolded push_bit_eq_mult, simplified]

lemma newmask_loop_lowest:
  "newmask_loop v i =
     (if \<exists>j. i \<le> j \<and> bit v j then (LEAST j. i \<le> j \<and> bit v j) else 0)"
proof (induction v i rule: newmask_loop.induct)
  case (1 v i)
  have len: "bit v j \<Longrightarrow> j < 32" for j using bit_imp_le_length [of v j] by simp
  show ?case
  proof (cases "i < 32 \<and> \<not> bit v i")
    case True
    then have "(i \<le> j \<and> bit v j) = (Suc i \<le> j \<and> bit v j)" for j
      by (auto simp: Suc_le_eq le_less)
    with True "1" show ?thesis
      by (subst newmask_loop.simps) (auto simp: single_bit_power)
  next
    case False
    then show ?thesis
      by (subst newmask_loop.simps)
        (auto simp: single_bit_power intro!: Least_equality [symmetric] dest: len)
  qed
qed

lemma newmask_shift_lsb:
  assumes "v \<noteq> 0"
  shows "bit v (msk_shift (newmask name v))"
    and "j < msk_shift (newmask name v) \<Longrightarrow> \<not> bit v j"
    and "msk_shift (newmask name v) < 32"
proof -
  have ex: "\<exists>j. bit v j" using assms by (auto simp: bit_eq_iff)
  then have s: "msk_shift (newmask name v) = (LEAST j. bit v j)"
    by (simp add: newmask_def newmask_loop_lowest)
  show *: "bit v (msk_shift (newmask name v))"
    unfolding s using ex by (rule LeastI_ex)
  show "msk_shift (newmask name v) < 32"
    using bit_imp_le_length [OF *] by simp
  show "j < msk_shift (newmask name v) \<Longrightarrow> \<not> bit v j"
    unfolding s by (rule not_less_Least)
qed

text \<open>The shift of a contiguous mask is its position.\<close>

lemma newmask_contiguous:
  assumes "0 < w" "s + w \<le> 32"
  shows "newmask_loop (push_bit s (mask w)) 0 = s"
proof -
  have bit: "bit (push_bit s (mask w) :: u32) j \<longleftrightarrow> s \<le> j \<and> j < s + w" for j
    using assms by (auto simp: bit_simps)
  have "(LEAST j. s \<le> j \<and> j < s + w) = s"
    using assms by (intro Least_equality) auto
  moreover have "\<exists>j. s \<le> j \<and> j < s + w" using assms by auto
  ultimately show ?thesis by (simp add: newmask_loop_lowest bit)
qed

subsection \<open>Reading and writing a masked field\<close>

definition ReadMask :: "Register \<Rightarrow> string \<Rightarrow> u32 \<Rightarrow> u32 \<times> go_error option" where
  "ReadMask r mask_name val =
    (case gomap_get (r_msks r) mask_name of
       None \<Rightarrow> (0, Some (NoSuchMask (r_Name r) mask_name))
     | Some m \<Rightarrow> (drop_bit (msk_shift m) (val AND msk_value m), None))"

definition WriteMask :: "Register \<Rightarrow> string \<Rightarrow> u32 \<Rightarrow> u32 \<times> u32 \<times> go_error option" where
  "WriteMask r mask_name val =
    (case gomap_get (r_msks r) mask_name of
       None \<Rightarrow> (0, 0, Some (NoSuchMask (r_Name r) mask_name))
     | Some m \<Rightarrow>
         (0xffffffff AND NOT (msk_value m),
          push_bit (msk_shift m) val AND msk_value m, None))"

text \<open>What a target does with the two terms, as documented on \<open>Target.RMWbits\<close>.\<close>

definition rmw_bits :: "u32 \<Rightarrow> u32 \<Rightarrow> u32 \<Rightarrow> u32" where
  "rmw_bits x andterm orterm = (x AND andterm) OR orterm"

text \<open>A register with one of its masks, as the parser stores it.\<close>

definition has_mask :: "Register \<Rightarrow> string \<Rightarrow> u32 \<Rightarrow> bool" where
  "has_mask r name v \<longleftrightarrow> gomap_get (r_msks r) name = Some (newmask name v)"

lemma WriteMask_terms:
  assumes "has_mask r name v"
  shows "WriteMask r name val =
    (NOT v, push_bit (newmask_loop v 0) val AND v, None)"
proof -
  have "(0xffffffff :: u32) AND NOT v = NOT v"
    by (rule bit_word_eqI) (auto simp: bit_simps masks)
  then show ?thesis using assms by (simp add: WriteMask_def has_mask_def newmask_def)
qed

lemma rmw_bits_outside:
  "rmw_bits x (NOT m) (v AND m) AND NOT m = x AND NOT m"
  unfolding rmw_bits_def by (rule bit_word_eqI) (auto simp: bit_simps)

lemma rmw_bits_inside:
  "rmw_bits x (NOT m) (v AND m) AND m = v AND m"
  unfolding rmw_bits_def by (rule bit_word_eqI) (auto simp: bit_simps)

lemma field_shift_back:
  assumes "s + w \<le> 32" "val < 2 ^ w"
  shows "drop_bit s (push_bit s val AND push_bit s (mask w)) = (val :: u32)"
proof (rule bit_word_eqI)
  fix n assume "n < LENGTH(32)"
  have "bit val n \<Longrightarrow> n < w" using high_bits_zero [OF assms(2), of n] by (meson not_less)
  with assms(1) show "bit (drop_bit s (push_bit s val AND push_bit s (mask w))) n = bit val n"
    by (auto simp: bit_simps)
qed

subsection \<open>Properties\<close>


text \<open>The shift that \<open>newmask\<close> computes is the position of the lowest bit set in the
  mask, and 0 for the empty mask.\<close>

theorem newmask_lowest_bit:
  "newmask name v =
    \<lparr>msk_name = name, msk_value = v, msk_shift = (if v = 0 then 0 else (LEAST j. bit v j))\<rparr>"
proof -
  have "(\<exists>j. bit v j) \<longleftrightarrow> v \<noteq> 0" using bit_imp_le_length [of v]
    by (auto simp: bit_eq_iff)
  then show ?thesis by (simp add: newmask_def newmask_loop_lowest)
qed

text \<open>C24: Writing a value that fits a contiguous mask with the terms of \<open>WriteMask\<close> and
  reading the register back with \<open>ReadMask\<close> gives the value, and no bit outside the mask
  changes.\<close>

theorem mask_write_read:
  assumes "has_mask r name (push_bit s (mask w))" "0 < w" "s + w \<le> 32" "val < 2 ^ w"
    and "WriteMask r name val = (andterm, orterm, err)"
  shows "err = None \<and> ReadMask r name (rmw_bits x andterm orterm) = (val, None) \<and>
    rmw_bits x andterm orterm AND NOT (push_bit s (mask w)) = x AND NOT (push_bit s (mask w))"
proof -
  let ?m = "push_bit s (mask w) :: u32"
  have s: "newmask_loop ?m 0 = s" using assms(2,3) by (rule newmask_contiguous)
  then have terms: "andterm = NOT ?m" "orterm = push_bit s val AND ?m" "err = None"
    using assms(5) WriteMask_terms [OF assms(1)] by auto
  have "ReadMask r name y = (drop_bit s (y AND ?m), None)" for y
    using assms(1) s by (simp add: ReadMask_def has_mask_def newmask_def)
  then show ?thesis
    unfolding terms using rmw_bits_inside [of x ?m "push_bit s val"] field_shift_back [OF assms(3,4)]
      rmw_bits_outside [of x ?m "push_bit s val"] by simp
qed

definition demo_register :: Register where
  "demo_register =
    \<lparr>r_Name = ''ctrl'', r_Addr = 0x10, r_Masks = [''mode''], r_noninc = False, r_size = 1,
     r_msks = Some [''mode'' \<mapsto> newmask ''mode'' (push_bit 4 (mask 3))]\<rparr>"

lemma demo_register_mask: "has_mask demo_register ''mode'' (push_bit 4 (mask 3))"
  by (simp add: has_mask_def demo_register_def gomap_get_def)

theorem mask_write_read_witness:
  "ReadMask demo_register ''mode'' (rmw_bits 0xffff 0xffffff8f 0x50) = (5, None)"
proof -
  have s: "newmask_loop 0x70 0 = 4"
    using newmask_contiguous [of 3 4] by (simp add: mask_eq_exp_minus_1 push_bit_eq_mult)
  have "WriteMask demo_register ''mode'' 5 = (0xffffff8f, 0x50, None)"
    using WriteMask_terms [OF demo_register_mask, of 5] s
    by (simp add: mask_eq_exp_minus_1 push_bit_eq_mult)
  from mask_write_read [OF demo_register_mask _ _ _ this] show ?thesis by simp
qed

text \<open>Neither function finds a mask the register does not have: the error names the
  register and the mask, and the terms are zero.\<close>

theorem unknown_mask_error:
  "snd (ReadMask r name val)
     = (if gomap_get (r_msks r) name = None then Some (NoSuchMask (r_Name r) name) else None) \<and>
   snd (snd (WriteMask r name val)) = snd (ReadMask r name val)"
  by (auto simp: ReadMask_def WriteMask_def split: option.splits)

end
