(* ===== verification/Idlog.thy ===== *)
theory Idlog
  imports Ipbus_Prelude
begin

text \<open>
  The packet identifier logs of \<open>hw_stuff.go\<close>: \<open>tracker\<close>, a ring that remembers the last
  identifiers, and \<open>idlog\<close>, a bounded first-in first-out queue kept in a ring buffer.  The
  hardware interface keeps two of the latter, of the identifiers queued and in flight.

  The locale \<open>id_queue\<close> is the contract the hardware interface relies on: the queue as a
  list.  It is interpreted on the ring buffer with the list that \<open>sorted\<close> computes.
  Indices and counts are non-negative and bounded by the buffer's size, hence \<open>nat\<close>.
\<close>

subsection \<open>tracker\<close>

record tracker =
  tr_ids :: "u16 list"
  tr_index :: nat
  tr_max :: nat

definition newTracker :: "nat \<Rightarrow> tracker" where
  "newTracker sz = \<lparr>tr_ids = replicate sz 0, tr_index = 0, tr_max = sz\<rparr>"

definition tracker_add :: "tracker \<Rightarrow> u16 \<Rightarrow> tracker outcome" where
  "tracker_add t x =
    (if tr_max t = 0 then Inl DivideByZero
     else
       let i = (tr_index t + 1) mod tr_max t in
       if length (tr_ids t) \<le> i then Inl IndexOutOfRange
       else Inr (t\<lparr>tr_index := i, tr_ids := (tr_ids t)[i := x]\<rparr>))"

definition tracker_inv :: "tracker \<Rightarrow> bool" where
  "tracker_inv t \<longleftrightarrow> 0 < tr_max t \<and> length (tr_ids t) = tr_max t"

lemma tracker_inv_new: "0 < sz \<Longrightarrow> tracker_inv (newTracker sz)"
  by (simp add: tracker_inv_def newTracker_def)

lemma tracker_add_ok:
  assumes "tracker_inv t"
  shows "\<exists>t'. tracker_add t x = Inr t' \<and> tracker_inv t' \<and> tr_ids t' ! tr_index t' = x"
proof -
  have "(tr_index t + 1) mod tr_max t < tr_max t"
    using assms by (simp add: tracker_inv_def)
  with assms show ?thesis
    by (auto simp: tracker_inv_def tracker_add_def Let_def)
qed

subsection \<open>idlog\<close>

record idlog =
  il_ids :: "u16 list"
  il_first :: nat
  il_n :: nat
  il_max :: nat

definition newIDLog :: "nat \<Rightarrow> idlog" where
  "newIDLog sz = \<lparr>il_ids = replicate sz 0, il_first = 0, il_n = 0, il_max = sz\<rparr>"

text \<open>\<open>i.ids[k % i.max]\<close>, with the division and the bounds check Go makes.\<close>

definition idlog_slot :: "idlog \<Rightarrow> nat \<Rightarrow> u16 outcome" where
  "idlog_slot i k =
    (if il_max i = 0 then Inl DivideByZero
     else if length (il_ids i) \<le> k mod il_max i then Inl IndexOutOfRange
     else Inr (il_ids i ! (k mod il_max i)))"

definition idlog_add :: "idlog \<Rightarrow> u16 \<Rightarrow> (idlog \<times> go_error option) outcome" where
  "idlog_add i x =
    (if x = 0 then Inr (i, Some CannotAddZero)
     else if il_n i = il_max i then Inr (i, Some (LogFull x))
     else if il_max i = 0 then Inl DivideByZero
     else
       let next_slot = (il_first i + il_n i) mod il_max i in
       if length (il_ids i) \<le> next_slot then Inl IndexOutOfRange
       else Inr (i\<lparr>il_ids := (il_ids i)[next_slot := x], il_n := il_n i + 1\<rparr>, None))"

definition idlog_remove :: "idlog \<Rightarrow> (idlog \<times> go_error option) outcome" where
  "idlog_remove i =
    (if il_n i = 0 then Inr (i, Some LogEmpty)
     else if il_max i = 0 then Inl DivideByZero
     else Inr (i\<lparr>il_first := (il_first i + 1) mod il_max i, il_n := il_n i - 1\<rparr>, None))"

definition idlog_oldest :: "idlog \<Rightarrow> (u16 \<times> bool) outcome" where
  "idlog_oldest i =
    (if length (il_ids i) \<le> il_first i then Inl IndexOutOfRange
     else Inr (il_ids i ! il_first i, il_n i > 0))"

definition idlog_secondoldest :: "idlog \<Rightarrow> (u16 \<times> bool) outcome" where
  "idlog_secondoldest i = obind (idlog_slot i (il_first i + 1)) (\<lambda>v. Inr (v, il_n i > 1))"

definition idlog_newest :: "idlog \<Rightarrow> (u16 \<times> bool) outcome" where
  "idlog_newest i = obind (idlog_slot i (il_first i + il_n i)) (\<lambda>v. Inr (v, il_n i > 0))"

text \<open>The loop of \<open>sorted\<close> over \<open>j\<close> from \<open>j\<close> to \<open>n\<close>.\<close>

fun idlog_sorted_loop :: "idlog \<Rightarrow> nat list \<Rightarrow> u16 list \<Rightarrow> u16 list outcome" where
  "idlog_sorted_loop i [] vals = Inr vals"
| "idlog_sorted_loop i (j # js) vals =
     obind (idlog_slot i (il_first i + j)) (\<lambda>v. idlog_sorted_loop i js (vals @ [v]))"

definition idlog_sorted :: "idlog \<Rightarrow> u16 list outcome" where
  "idlog_sorted i = idlog_sorted_loop i [0..<il_n i] []"

subsection \<open>The queue interface\<close>

locale id_queue =
  fixes add :: "'q \<Rightarrow> u16 \<Rightarrow> ('q \<times> go_error option) outcome"
    and remove :: "'q \<Rightarrow> ('q \<times> go_error option) outcome"
    and oldest :: "'q \<Rightarrow> (u16 \<times> bool) outcome"
    and secondoldest :: "'q \<Rightarrow> (u16 \<times> bool) outcome"
    and contents :: "'q \<Rightarrow> u16 list"
    and room :: "'q \<Rightarrow> nat"
    and inv :: "'q \<Rightarrow> bool"
  assumes add_ok: "inv q \<Longrightarrow> x \<noteq> 0 \<Longrightarrow> 0 < room q \<Longrightarrow>
      \<exists>q'. add q x = Inr (q', None) \<and> inv q' \<and> contents q' = contents q @ [x]
           \<and> Suc (room q') = room q"
    and add_zero: "add q 0 = Inr (q, Some CannotAddZero)"
    and add_full: "inv q \<Longrightarrow> x \<noteq> 0 \<Longrightarrow> room q = 0 \<Longrightarrow> add q x = Inr (q, Some (LogFull x))"
    and remove_ok: "inv q \<Longrightarrow> contents q \<noteq> [] \<Longrightarrow>
      \<exists>q'. remove q = Inr (q', None) \<and> inv q' \<and> contents q' = tl (contents q)
           \<and> room q' = Suc (room q)"
    and remove_empty: "inv q \<Longrightarrow> contents q = [] \<Longrightarrow> remove q = Inr (q, Some LogEmpty)"
    and oldest_ok: "inv q \<Longrightarrow> \<exists>v. oldest q = Inr (v, contents q \<noteq> []) \<and>
      (contents q \<noteq> [] \<longrightarrow> v = hd (contents q))"
    and secondoldest_ok: "inv q \<Longrightarrow> \<exists>v. secondoldest q = Inr (v, 1 < length (contents q)) \<and>
      (1 < length (contents q) \<longrightarrow> v = contents q ! 1)"
begin

text \<open>Adding keeps the invariant and the contents, whatever the error.\<close>

lemma add_total:
  assumes "inv q"
  obtains q' e where "add q x = Inr (q', e)" "inv q'"
    "contents q' = contents q \<or> contents q' = contents q @ [x] \<and> x \<noteq> 0"
  using add_zero [of q] add_ok [OF assms, of x] add_full [OF assms, of x] assms
  by (cases "x = 0"; cases "room q = 0") auto

lemma oldest_Cons: "inv q \<Longrightarrow> contents q = x # xs \<Longrightarrow> oldest q = Inr (x, True)"
  using oldest_ok [of q] by auto

lemma oldest_Nil: "inv q \<Longrightarrow> contents q = [] \<Longrightarrow> \<exists>v. oldest q = Inr (v, False)"
  using oldest_ok [of q] by auto

lemma remove_Cons:
  "inv q \<Longrightarrow> contents q = x # xs \<Longrightarrow>
     \<exists>q'. remove q = Inr (q', None) \<and> inv q' \<and> contents q' = xs \<and> room q' = Suc (room q)"
  using remove_ok [of q] by simp

lemma secondoldest_Cons:
  "inv q \<Longrightarrow> contents q = x # y # xs \<Longrightarrow> secondoldest q = Inr (y, True)"
  using secondoldest_ok [of q] by auto

lemma secondoldest_short:
  "inv q \<Longrightarrow> length (contents q) \<le> 1 \<Longrightarrow> \<exists>v. secondoldest q = Inr (v, False)"
  using secondoldest_ok [of q] by auto

end

subsection \<open>The ring buffer is such a queue\<close>

definition idlog_inv :: "idlog \<Rightarrow> bool" where
  "idlog_inv i \<longleftrightarrow> 0 < il_max i \<and> length (il_ids i) = il_max i \<and> il_first i < il_max i
     \<and> il_n i \<le> il_max i"

definition idlog_contents :: "idlog \<Rightarrow> u16 list" where
  "idlog_contents i = map (\<lambda>j. il_ids i ! ((il_first i + j) mod il_max i)) [0..<il_n i]"

definition idlog_room :: "idlog \<Rightarrow> nat" where
  "idlog_room i = il_max i - il_n i"

lemma length_idlog_contents [simp]: "length (idlog_contents i) = il_n i"
  by (simp add: idlog_contents_def)

lemma idlog_contents_nth [simp]:
  "j < il_n i \<Longrightarrow> idlog_contents i ! j = il_ids i ! ((il_first i + j) mod il_max i)"
  by (simp add: idlog_contents_def)

lemma idlog_new:
  "0 < sz \<Longrightarrow> idlog_inv (newIDLog sz) \<and> idlog_contents (newIDLog sz) = []
     \<and> idlog_room (newIDLog sz) = sz"
  by (simp add: idlog_inv_def idlog_contents_def idlog_room_def newIDLog_def)

text \<open>Two offsets below the size of the ring are two different slots.\<close>

lemma ring_slot_inj:
  fixes f :: nat
  assumes "(f + j) mod m = (f + k) mod m" "j < m" "k < m"
  shows "j = k"
proof (rule ccontr)
  assume "j \<noteq> k"
  have "m dvd (f + k) - (f + j)" if "j \<le> k"
    using that assms(1) by (metis add_le_cancel_left mod_eq_dvd_iff_nat)
  moreover have "m dvd (f + j) - (f + k)" if "k \<le> j"
    using that assms(1) by (metis add_le_cancel_left mod_eq_dvd_iff_nat)
  ultimately have "m dvd k - j \<and> j < k \<or> m dvd j - k \<and> k < j"
    using \<open>j \<noteq> k\<close> by (cases "j \<le> k") auto
  then show False using assms(2,3) by (auto dest: dvd_imp_le)
qed

lemma idlog_add_ok:
  assumes inv: "idlog_inv i" and x: "x \<noteq> 0" and room: "0 < idlog_room i"
  shows "\<exists>i'. idlog_add i x = Inr (i', None) \<and> idlog_inv i'
           \<and> idlog_contents i' = idlog_contents i @ [x] \<and> Suc (idlog_room i') = idlog_room i"
proof -
  let ?s = "(il_first i + il_n i) mod il_max i"
  let ?i = "i\<lparr>il_ids := (il_ids i)[?s := x], il_n := il_n i + 1\<rparr>"
  have s: "?s < il_max i" and n: "il_n i < il_max i"
    using inv room by (auto simp: idlog_inv_def idlog_room_def)
  have add: "idlog_add i x = Inr (?i, None)"
    using inv x n s by (simp add: idlog_add_def idlog_inv_def Let_def not_le)
  have "idlog_contents ?i = idlog_contents i @ [x]"
  proof (rule nth_equalityI)
    fix j assume "j < length (idlog_contents ?i)"
    then have j: "j \<le> il_n i" by simp
    show "idlog_contents ?i ! j = (idlog_contents i @ [x]) ! j"
    proof (cases "j = il_n i")
      case True
      with inv s show ?thesis by (simp add: nth_append idlog_inv_def)
    next
      case False
      with j n have "(il_first i + j) mod il_max i \<noteq> ?s"
        using ring_slot_inj [of "il_first i" j "il_max i" "il_n i"] by auto
      with False j inv s show ?thesis
        by (simp add: nth_append idlog_inv_def)
    qed
  qed simp
  moreover have "idlog_inv ?i" "Suc (idlog_room ?i) = idlog_room i"
    using inv n by (auto simp: idlog_inv_def idlog_room_def)
  ultimately show ?thesis using add by blast
qed

lemma idlog_remove_ok:
  assumes inv: "idlog_inv i" and ne: "idlog_contents i \<noteq> []"
  shows "\<exists>i'. idlog_remove i = Inr (i', None) \<and> idlog_inv i'
           \<and> idlog_contents i' = tl (idlog_contents i) \<and> idlog_room i' = Suc (idlog_room i)"
proof -
  let ?i = "i\<lparr>il_first := (il_first i + 1) mod il_max i, il_n := il_n i - 1\<rparr>"
  have n: "0 < il_n i" using ne by (auto simp: idlog_contents_def)
  then have remove: "idlog_remove i = Inr (?i, None)"
    using inv by (simp add: idlog_remove_def idlog_inv_def)
  have "idlog_contents ?i = tl (idlog_contents i)"
    by (rule nth_equalityI) (auto simp: nth_tl mod_add_left_eq)
  moreover have "idlog_inv ?i" "idlog_room ?i = Suc (idlog_room i)"
    using inv n by (auto simp: idlog_inv_def idlog_room_def)
  ultimately show ?thesis using remove by blast
qed

lemma idlog_slot_ok: "idlog_inv i \<Longrightarrow> idlog_slot i k = Inr (il_ids i ! (k mod il_max i))"
  by (auto simp: idlog_slot_def idlog_inv_def not_le)

lemma idlog_oldest_ok:
  assumes "idlog_inv i"
  shows "\<exists>v. idlog_oldest i = Inr (v, idlog_contents i \<noteq> []) \<and>
           (idlog_contents i \<noteq> [] \<longrightarrow> v = hd (idlog_contents i))"
proof -
  have "idlog_contents i \<noteq> [] \<longleftrightarrow> il_n i > 0" by (simp add: idlog_contents_def)
  moreover have "hd (idlog_contents i) = il_ids i ! il_first i" if "il_n i > 0"
    using that assms by (simp add: hd_conv_nth idlog_contents_def idlog_inv_def)
  ultimately show ?thesis using assms by (simp add: idlog_oldest_def idlog_inv_def)
qed

lemma idlog_secondoldest_ok:
  assumes "idlog_inv i"
  shows "\<exists>v. idlog_secondoldest i = Inr (v, 1 < length (idlog_contents i)) \<and>
           (1 < length (idlog_contents i) \<longrightarrow> v = idlog_contents i ! 1)"
  using assms by (simp add: idlog_secondoldest_def idlog_slot_ok)

interpretation log: id_queue idlog_add idlog_remove idlog_oldest idlog_secondoldest
    idlog_contents idlog_room idlog_inv
proof unfold_locales
  fix i :: idlog and x :: u16
  show "idlog_inv i \<Longrightarrow> x \<noteq> 0 \<Longrightarrow> 0 < idlog_room i \<Longrightarrow>
      \<exists>q'. idlog_add i x = Inr (q', None) \<and> idlog_inv q' \<and>
        idlog_contents q' = idlog_contents i @ [x] \<and> Suc (idlog_room q') = idlog_room i"
    by (rule idlog_add_ok)
  show "idlog_add i 0 = Inr (i, Some CannotAddZero)"
    by (simp add: idlog_add_def)
  show "idlog_inv i \<Longrightarrow> x \<noteq> 0 \<Longrightarrow> idlog_room i = 0 \<Longrightarrow> idlog_add i x = Inr (i, Some (LogFull x))"
    by (auto simp: idlog_add_def idlog_inv_def idlog_room_def)
  show "idlog_inv i \<Longrightarrow> idlog_contents i \<noteq> [] \<Longrightarrow>
      \<exists>q'. idlog_remove i = Inr (q', None) \<and> idlog_inv q' \<and>
        idlog_contents q' = tl (idlog_contents i) \<and> idlog_room q' = Suc (idlog_room i)"
    by (rule idlog_remove_ok)
  show "idlog_inv i \<Longrightarrow> idlog_contents i = [] \<Longrightarrow> idlog_remove i = Inr (i, Some LogEmpty)"
    by (auto simp: idlog_remove_def idlog_contents_def)
qed (auto dest: idlog_oldest_ok idlog_secondoldest_ok)

lemma idlog_sorted_loop_ok:
  "idlog_inv i \<Longrightarrow>
     idlog_sorted_loop i js vals
     = Inr (vals @ map (\<lambda>j. il_ids i ! ((il_first i + j) mod il_max i)) js)"
  by (induction js arbitrary: vals) (auto simp: idlog_slot_ok)

lemma idlog_sorted_contents: "idlog_inv i \<Longrightarrow> idlog_sorted i = Inr (idlog_contents i)"
  by (simp add: idlog_sorted_def idlog_sorted_loop_ok idlog_contents_def)

subsection \<open>Sequences of operations against a bounded queue\<close>

text \<open>The operations of the log and what each call returns: an error, an identifier with its
  \<open>ok\<close> flag (the identifier is meaningless without it), or the list of identifiers.\<close>

datatype id_op = AddOp u16 | RemoveOp | OldestOp | SecondOldestOp | SortedOp

datatype id_out = Err "go_error option" | Id "u16 option" | Ids "u16 list"

definition ok_id :: "u16 \<times> bool \<Rightarrow> u16 option" where
  "ok_id r = (if snd r then Some (fst r) else None)"

fun idlog_exec :: "idlog \<Rightarrow> id_op \<Rightarrow> (idlog \<times> id_out) outcome" where
  "idlog_exec i (AddOp x) = obind (idlog_add i x) (\<lambda>(i', e). Inr (i', Err e))"
| "idlog_exec i RemoveOp = obind (idlog_remove i) (\<lambda>(i', e). Inr (i', Err e))"
| "idlog_exec i OldestOp = obind (idlog_oldest i) (\<lambda>r. Inr (i, Id (ok_id r)))"
| "idlog_exec i SecondOldestOp = obind (idlog_secondoldest i) (\<lambda>r. Inr (i, Id (ok_id r)))"
| "idlog_exec i SortedOp = obind (idlog_sorted i) (\<lambda>xs. Inr (i, Ids xs))"

fun idlog_run :: "idlog \<Rightarrow> id_op list \<Rightarrow> id_out list outcome" where
  "idlog_run i [] = Inr []"
| "idlog_run i (op # ops) =
     obind (idlog_exec i op) (\<lambda>(i', out). obind (idlog_run i' ops) (\<lambda>outs. Inr (out # outs)))"

text \<open>The specification: a list of at most \<open>cap\<close> non-zero identifiers, oldest first.\<close>

fun fifo_exec :: "nat \<Rightarrow> u16 list \<Rightarrow> id_op \<Rightarrow> u16 list \<times> id_out" where
  "fifo_exec cap xs (AddOp x) =
     (if x = 0 then (xs, Err (Some CannotAddZero))
      else if length xs = cap then (xs, Err (Some (LogFull x)))
      else (xs @ [x], Err None))"
| "fifo_exec cap xs RemoveOp =
     (if xs = [] then (xs, Err (Some LogEmpty)) else (tl xs, Err None))"
| "fifo_exec cap xs OldestOp = (xs, Id (if xs = [] then None else Some (hd xs)))"
| "fifo_exec cap xs SecondOldestOp = (xs, Id (if length xs < 2 then None else Some (xs ! 1)))"
| "fifo_exec cap xs SortedOp = (xs, Ids xs)"

fun fifo_run :: "nat \<Rightarrow> u16 list \<Rightarrow> id_op list \<Rightarrow> id_out list" where
  "fifo_run cap xs [] = []"
| "fifo_run cap xs (op # ops) =
     (let (xs', out) = fifo_exec cap xs op in out # fifo_run cap xs' ops)"

text \<open>The ring buffer represents the list, in a ring of \<open>cap\<close> slots.\<close>

definition represents :: "nat \<Rightarrow> idlog \<Rightarrow> u16 list \<Rightarrow> bool" where
  "represents cap i xs \<longleftrightarrow> idlog_inv i \<and> idlog_contents i = xs
     \<and> idlog_room i + length xs = cap"

lemma represents_new: "0 < cap \<Longrightarrow> represents cap (newIDLog cap) []"
  by (simp add: represents_def idlog_new)

lemma idlog_exec_refines:
  assumes rep: "represents cap i xs"
  shows "\<exists>i'. idlog_exec i op = Inr (i', snd (fifo_exec cap xs op))
           \<and> represents cap i' (fst (fifo_exec cap xs op))"
proof -
  have inv: "idlog_inv i" and xs: "idlog_contents i = xs" and room: "idlog_room i + length xs = cap"
    using rep by (auto simp: represents_def)
  show ?thesis
  proof (cases op)
    case (AddOp x)
    then show ?thesis
      using log.add_zero [of i] log.add_full [OF inv, of x] log.add_ok [OF inv, of x] rep xs room
      by (cases "x = 0"; cases "idlog_room i = 0") (auto simp: represents_def)
  next
    case RemoveOp
    then show ?thesis
      using log.remove_empty [OF inv] log.remove_ok [OF inv] rep xs room
      by (cases xs) (auto simp: represents_def)
  next
    case OldestOp
    obtain v where "idlog_oldest i = Inr (v, xs \<noteq> [])" "xs \<noteq> [] \<Longrightarrow> v = hd xs"
      using log.oldest_ok [OF inv] xs by blast
    then show ?thesis using rep OldestOp
      by (intro exI [of _ i]) (auto simp: ok_id_def simp del: obind_eq_Inr)
  next
    case SecondOldestOp
    obtain v where "idlog_secondoldest i = Inr (v, 1 < length xs)" "1 < length xs \<Longrightarrow> v = xs ! 1"
      using log.secondoldest_ok [OF inv] xs by blast
    then show ?thesis using rep SecondOldestOp
      by (intro exI [of _ i]) (auto simp: ok_id_def simp del: obind_eq_Inr)
  next
    case SortedOp
    then show ?thesis using idlog_sorted_contents [OF inv] rep xs by simp
  qed
qed

lemma idlog_run_refines:
  "represents cap i xs \<Longrightarrow> idlog_run i ops = Inr (fifo_run cap xs ops)"
proof (induction ops arbitrary: i xs)
  case Nil
  then show ?case by simp
next
  case (Cons op ops)
  obtain i' where "idlog_exec i op = Inr (i', snd (fifo_exec cap xs op))"
      "represents cap i' (fst (fifo_exec cap xs op))"
    using idlog_exec_refines [OF Cons.prems] by blast
  with Cons.IH show ?case by (simp add: case_prod_beta)
qed

subsection \<open>Properties\<close>

text \<open>C6: Any sequence of the five operations \<open>add\<close>, \<open>remove\<close>, \<open>oldest\<close>, \<open>secondoldest\<close> and
  \<open>sorted\<close> (not \<open>newest\<close>, see below) on a new
  log of \<open>cap\<close> slots returns, call by call, what a first-in first-out list bounded by \<open>cap\<close>
  returns, errors of the zero identifier, the full and the empty log included; no call
  panics, however often the ring wraps around.\<close>

theorem idlog_is_bounded_fifo:
  assumes "0 < cap"
  shows "idlog_run (newIDLog cap) ops = Inr (fifo_run cap [] ops)"
  using assms by (rule idlog_run_refines [OF represents_new])

theorem idlog_is_bounded_fifo_witness:
  "idlog_run (newIDLog 2) [AddOp 7, AddOp 8, AddOp 9, RemoveOp, AddOp 9, SortedOp]
   = Inr [Err None, Err None, Err (Some (LogFull 9)), Err None, Err None, Ids [8, 9]]"
  by (subst idlog_is_bounded_fifo) simp_all

text \<open>\<open>newest\<close> reads the slot after the newest identifier.  Just after adding \<open>x\<close> to a
  log that is then full it returns the oldest identifier; only a log of one slot returns
  \<open>x\<close>.\<close>

theorem newest_of_full_log_is_oldest:
  assumes "idlog_inv i" "idlog_room i = 1" "x \<noteq> 0" "idlog_add i x = Inr (i', e)"
  shows "idlog_newest i' = Inr (hd (idlog_contents i @ [x]), True)"
proof -
  obtain i1 where add: "idlog_add i x = Inr (i1, None)" "idlog_inv i1"
      "idlog_contents i1 = idlog_contents i @ [x]" "Suc (idlog_room i1) = 1"
    using log.add_ok [OF assms(1,3)] assms(2) by auto
  with assms(4) have i1: "i1 = i'" by simp
  have n: "il_n i' = il_max i'" "0 < il_n i'" "il_first i' < il_max i'"
    using add unfolding i1 by (auto simp: idlog_room_def idlog_inv_def)
  then have "idlog_newest i' = Inr (il_ids i' ! il_first i', True)"
    using add(2) unfolding i1 by (simp add: idlog_newest_def idlog_slot_ok)
  moreover have "hd (idlog_contents i') = il_ids i' ! il_first i'"
    using n by (simp add: idlog_contents_def hd_map hd_upt)
  ultimately show ?thesis using add(3) i1 by simp
qed

theorem newest_of_full_log_is_oldest_witness:
  "idlog_newest \<lparr>il_ids = [7, 8], il_first = 0, il_n = 2, il_max = 2\<rparr> = Inr (7, True)"
proof -
  let ?i = "\<lparr>il_ids = [7, 0], il_first = 0, il_n = 1, il_max = 2\<rparr>"
  let ?j = "\<lparr>il_ids = [7, 8], il_first = 0, il_n = 2, il_max = 2\<rparr>"
  have i: "idlog_inv ?i" "idlog_room ?i = 1" "(8 :: u16) \<noteq> 0" "idlog_contents ?i = [7]"
    by (simp_all add: idlog_inv_def idlog_room_def idlog_contents_def)
  have "idlog_add ?i 8 = Inr (?j, None)" by (simp add: idlog_add_def)
  from newest_of_full_log_is_oldest [OF i(1-3) this] show ?thesis by (simp only: i(4) append.simps list.sel)
qed

text \<open>Adding a list of identifiers to a tracker.\<close>

fun tracker_run :: "tracker \<Rightarrow> u16 list \<Rightarrow> tracker outcome" where
  "tracker_run t [] = Inr t"
| "tracker_run t (x # xs) = obind (tracker_add t x) (\<lambda>t'. tracker_run t' xs)"

text \<open>The identifiers of the ring, the last one added first.\<close>

definition tracker_recent :: "tracker \<Rightarrow> u16 list" where
  "tracker_recent t =
    map (\<lambda>k. tr_ids t ! ((tr_index t + (tr_max t - k)) mod tr_max t)) [0..<tr_max t]"

lemma tracker_add_recent:
  assumes inv: "tracker_inv t"
  shows "\<exists>t'. tracker_add t x = Inr t' \<and> tracker_inv t' \<and> tr_max t' = tr_max t
     \<and> tracker_recent t' = take (tr_max t) (x # tracker_recent t)"
proof -
  let ?m = "tr_max t" and ?j = "(tr_index t + 1) mod tr_max t"
  let ?t = "t\<lparr>tr_index := ?j, tr_ids := (tr_ids t)[?j := x]\<rparr>"
  have m: "0 < ?m" and len: "length (tr_ids t) = ?m" using inv by (auto simp: tracker_inv_def)
  then have j: "?j < ?m" by simp
  have "tracker_recent ?t = take ?m (x # tracker_recent t)"
  proof (rule nth_equalityI)
    show "length (tracker_recent ?t) = length (take ?m (x # tracker_recent t))"
      by (simp add: tracker_recent_def)
  next
    fix k assume "k < length (tracker_recent ?t)"
    then have k: "k < ?m" by (simp add: tracker_recent_def)
    show "tracker_recent ?t ! k = take ?m (x # tracker_recent t) ! k"
    proof (cases k)
      case 0
      with k j len show ?thesis by (simp add: tracker_recent_def)
    next
      case (Suc k')
      have "(?j + (?m - k)) mod ?m = (tr_index t + 1 + (?m - k)) mod ?m"
        by (rule mod_add_left_eq)
      also have "tr_index t + 1 + (?m - k) = tr_index t + (?m - k')"
        using k Suc by simp
      finally have "(?j + (?m - k)) mod ?m = (tr_index t + (?m - k')) mod ?m" .
      moreover have "(?j + (?m - k)) mod ?m \<noteq> ?j"
        using ring_slot_inj [of ?j 0 ?m "?m - k"] k Suc j by auto
      ultimately show ?thesis using Suc k j len by (simp add: tracker_recent_def)
    qed
  qed
  then show ?thesis
    using m len j by (auto simp: tracker_add_def tracker_inv_def Let_def)
qed

lemma tracker_run_recent:
  "tracker_inv t \<Longrightarrow> \<exists>t'. tracker_run t xs = Inr t' \<and>
     tracker_recent t' = take (tr_max t) (rev xs @ tracker_recent t)"
proof (induction xs arbitrary: t)
  case Nil
  then show ?case by (simp add: tracker_recent_def)
next
  case (Cons x xs)
  obtain t1 where t1: "tracker_add t x = Inr t1" "tracker_inv t1" "tr_max t1 = tr_max t"
      "tracker_recent t1 = take (tr_max t) (x # tracker_recent t)"
    using tracker_add_recent [OF Cons.prems] by blast
  from Cons.IH [OF t1(2)] t1 show ?case
    by (auto simp: take_append min_def)
qed

text \<open>A tracker of \<open>sz\<close> slots holds the last \<open>sz\<close> identifiers added, the latest first
  from its index backwards, with zeros for the slots not yet used.\<close>

theorem tracker_keeps_latest:
  assumes "0 < sz"
  shows "\<exists>t. tracker_run (newTracker sz) xs = Inr t \<and>
    tracker_recent t = take sz (rev xs @ replicate sz 0)"
proof -
  have "tracker_recent (newTracker sz) = replicate sz 0"
    by (rule nth_equalityI) (simp_all add: tracker_recent_def newTracker_def)
  with tracker_run_recent [OF tracker_inv_new [OF assms], of xs] show ?thesis
    by (simp add: newTracker_def)
qed

theorem tracker_keeps_latest_witness:
  "\<exists>t. tracker_run (newTracker 3) [4, 5, 6, 7] = Inr t \<and> tracker_recent t = [7, 6, 5]"
  using tracker_keeps_latest [of 3 "[4, 5, 6, 7]"] by simp

end
