(* ===== verification/Packets.thy ===== *)
theory Packets
  imports Wire
begin

text \<open>
  Packets of transactions (\<open>transaction.go\<close>): building a request transaction, adding it to
  a packet within the size of an Ethernet frame, writing the packet's header, parsing the
  bytes of the target's reply into one \<open>Response\<close> per transaction, and delivering the
  responses over the clients' channels.

  Methods with a pointer receiver return the updated packet.  The printing of the
  \<open>verbose\<close> mode is left out.  \<open>parse\<close> has a loop that need not end, so it returns an
  option: \<open>None\<close> is a call that does not return.
\<close>

subsection \<open>Data\<close>

text \<open>A \<open>nil\<close> slice (\<open>None\<close>) is told apart from an empty one.\<close>

record Response =
  rs_Err :: "go_error option"
  rs_Code :: byte
  rs_Data :: "u32 list option"
  rs_DataB :: "byte list option"

record transaction =
  t_outheader :: transactionheader
  t_Addr :: u32
  t_Input :: "u32 list"
  t_resp :: chan
  t_byteslice :: bool
  t_closechan :: bool

definition newrequesttransaction ::
    "byte \<Rightarrow> byte \<Rightarrow> u32 \<Rightarrow> u32 list \<Rightarrow> chan \<Rightarrow> bool \<Rightarrow> bool \<Rightarrow> transaction" where
  "newrequesttransaction tid words addr input resp byteslice final =
    \<lparr>t_outheader = \<lparr>th_version = ucast protocolversion, th_id = 0x0, th_words = words,
                    th_tid = tid, th_code = Request\<rparr>,
     t_Addr = addr, t_Input = input, t_resp = resp, t_byteslice = byteslice,
     t_closechan = final\<rparr>"

text \<open>Times are nanoseconds; the zero \<open>time.Time\<close> is 0.\<close>

record packet =
  pk_header :: packetheader
  pk_id :: u16
  pk_transactions :: "transaction list"
  pk_replies :: "Response list"
  pk_reqcap :: u64
  pk_respcap :: u64
  pk_reqlen :: u64
  pk_resplen :: u64
  pk_request :: "byte list"
  pk_sent :: int

definition emptypacket :: "u64 \<Rightarrow> byte \<Rightarrow> packet" where
  "emptypacket maxsize pt =
    (let size_words = (maxsize - 28) div 4;
         header = \<lparr>ph_version = ucast protocolversion, ph_pid = 0, ph_ptype = pt,
                   ph_order = defaultorder\<rparr>
     in \<lparr>pk_header = header, pk_id = 0, pk_transactions = [], pk_replies = [],
         pk_reqcap = size_words, pk_respcap = size_words, pk_reqlen = 1, pk_resplen = 1,
         pk_request = [0, 0, 0, 0], pk_sent = 0\<rparr>)"

definition packet_space :: "packet \<Rightarrow> u64 \<times> u64" where
  "packet_space p = (pk_reqcap p - pk_reqlen p, pk_respcap p - pk_resplen p)"

subsection \<open>Adding a transaction\<close>

text \<open>The \<open>switch\<close> of \<open>add\<close>: the checks on the transaction, and the new lengths.  The
  sum \<open>trans.outheader.words+1\<close> of the read case is computed in \<open>uint8\<close>.\<close>

definition packet_account :: "packet \<Rightarrow> transaction \<Rightarrow> go_error + packet" where
  "packet_account p tr =
    (let (reqspace, respspace) = packet_space p;
         tid = th_tid (t_outheader tr);
         words = th_words (t_outheader tr);
         n = length (t_Input tr)
     in
       if is_read tid then
         (if n > 0 then Inl (ReadWithInput n)
          else if reqspace < 2 \<or> respspace < ucast (words + 1) then Inl (ReadNoSpace words)
          else Inr (p\<lparr>pk_reqlen := pk_reqlen p + 2,
                      pk_resplen := pk_resplen p + (ucast words + 1)\<rparr>))
       else if is_write tid then
         (if n \<noteq> unat words then Inl (WriteWrongLength words n)
          else if reqspace < ucast words + 2 \<or> respspace < 1 then Inl (WriteNoSpace words)
          else Inr (p\<lparr>pk_reqlen := pk_reqlen p + (ucast words + 2),
                      pk_resplen := pk_resplen p + 1\<rparr>))
       else if tid = tid_rmwbits then
         (if n \<noteq> 2 then Inl (RMWbitsWrongLength n)
          else if reqspace < 4 \<or> respspace < 2 then Inl RMWbitsNoSpace
          else Inr (p\<lparr>pk_reqlen := pk_reqlen p + 4, pk_resplen := pk_resplen p + 2\<rparr>))
       else if tid = tid_rmwsum then
         (if n \<noteq> 1 then Inl (RMWsumWrongLength n)
          else if reqspace < 3 \<or> respspace < 2 then Inl RMWsumNoSpace
          else Inr (p\<lparr>pk_reqlen := pk_reqlen p + 3, pk_resplen := pk_resplen p + 2\<rparr>))
       else Inr p)"

text \<open>The loop that writes \<open>Input[i]\<close> at \<open>data[(i+1)*4:]\<close>.\<close>

fun put_inputs :: "byteorder \<Rightarrow> byte list \<Rightarrow> nat \<Rightarrow> u32 list \<Rightarrow> byte list outcome" where
  "put_inputs order data i [] = Inr data"
| "put_inputs order data i (val # vals) =
     (if length data < (i + 1) * 4 then Inl SliceOutOfRange
      else obind (order_PutUint32 order (drop ((i + 1) * 4) data) val)
             (\<lambda>buffer. put_inputs order (take ((i + 1) * 4) data @ buffer) (i + 1) vals))"

text \<open>The rest of \<open>add\<close>: number the transaction, append its header, address and input to
  the request bytes.  An error of the header encoder is only printed.\<close>

definition packet_fill :: "packet \<Rightarrow> transaction \<Rightarrow> packet outcome" where
  "packet_fill p tr =
    (let order = ph_order (pk_header p);
         outheader = (t_outheader tr)\<lparr>th_id := of_nat (length (pk_transactions p))\<rparr>;
         tr = tr\<lparr>t_outheader := outheader\<rparr>;
         (transhead, _) = transactionheader_encode outheader [0, 0, 0, 0] order;
         data = replicate (4 * length (t_Input tr) + 4) 0
     in obind (order_PutUint32 order data (t_Addr tr))
          (\<lambda>data. obind (put_inputs order data 0 (t_Input tr))
            (\<lambda>data. Inr (p\<lparr>pk_request := (pk_request p @ transhead) @ data,
                           pk_transactions := pk_transactions p @ [tr]\<rparr>))))"

definition packet_add :: "packet \<Rightarrow> transaction \<Rightarrow> (packet \<times> go_error option) outcome" where
  "packet_add p tr =
    (case packet_account p tr of
       Inl e \<Rightarrow> Inr (p, Some e)
     | Inr p' \<Rightarrow> obind (packet_fill p' tr) (\<lambda>p''. Inr (p'', None)))"

definition packet_writeheader :: "packet \<Rightarrow> u16 \<Rightarrow> packet \<times> go_error option" where
  "packet_writeheader p i =
    (let header = (pk_header p)\<lparr>ph_pid := i\<rparr>;
         (request, err) = packetheader_encode header (pk_request p)
     in (p\<lparr>pk_header := header, pk_id := i, pk_request := request\<rparr>, err))"

subsection \<open>Parsing a reply\<close>

text \<open>The data of a successful read or read-modify-write reply: the first \<open>k\<close> bytes, kept
  as bytes or converted, and the slice advanced.  Slicing past the end panics.\<close>

definition take_payload ::
    "bool \<Rightarrow> byteorder \<Rightarrow> byte list \<Rightarrow> nat \<Rightarrow> Response \<Rightarrow> (Response \<times> byte list) outcome" where
  "take_payload byteslice order data k resp =
    (if length data < k then Inl SliceOutOfRange
     else if byteslice then Inr (resp\<lparr>rs_DataB := Some (take k data)\<rparr>, drop k data)
     else obind (bytes2uint32s (take k data) order)
            (\<lambda>us. Inr (resp\<lparr>rs_Data := Some us\<rparr>, drop k data)))"

text \<open>One round of the loop of \<open>parse\<close>: the response it appends and the bytes left.\<close>

definition parse_step ::
    "packet \<Rightarrow> byteorder \<Rightarrow> byte list \<Rightarrow> (packet \<times> byte list) outcome" where
  "parse_step p order data =
    (let (th, err) = newTransactionHeader data order;
         tid = unat (th_id th)
     in
       if tid \<ge> length (pk_transactions p) then Inl (PanicError InvalidTransactionID)
       else
         let tr = pk_transactions p ! tid;
             resp = \<lparr>rs_Err = err, rs_Code = th_code th, rs_Data = None, rs_DataB = None\<rparr>
         in obind
           (if err = None then
              (if th_code th = Success then
                 let data = drop 4 data in
                 if is_read (th_tid th) then
                   take_payload (t_byteslice tr) order data (unat (th_words th) * 4) resp
                 else if is_write (th_tid th) then
                   Inr (if t_byteslice tr then resp\<lparr>rs_DataB := Some []\<rparr>
                        else resp\<lparr>rs_Data := Some []\<rparr>, data)
                 else if th_tid th = tid_rmwbits \<or> th_tid th = tid_rmwsum then
                   take_payload (t_byteslice tr) order data 4 resp
                 else Inr (resp, data)
               else if length transactionerrs \<le> unat (th_code th) then Inl IndexOutOfRange
               else Inr (resp\<lparr>rs_Err := Some (IPbusError (transactionerrs ! unat (th_code th)))\<rparr>,
                         drop 4 data))
            else Inr (resp, data))
           (\<lambda>(resp, data). Inr (p\<lparr>pk_replies := pk_replies p @ [resp]\<rparr>, data)))"

text \<open>\<open>for len(data) > 0\<close>: a round that does not advance the slice is repeated for ever.\<close>

partial_function (option) parse_loop ::
    "packet \<Rightarrow> byteorder \<Rightarrow> byte list \<Rightarrow> packet outcome option" where
  "parse_loop p order data =
    (if data = [] then Some (Inr p)
     else case parse_step p order data of
            Inl e \<Rightarrow> Some (Inl e)
          | Inr s \<Rightarrow> parse_loop (fst s) order (snd s))"

declare parse_loop.simps [code]

text \<open>The responses appended for transactions without a reply.\<close>

definition pad_replies :: "packet \<Rightarrow> packet" where
  "pad_replies p =
    p\<lparr>pk_replies := pk_replies p @
        replicate (length (pk_transactions p) - length (pk_replies p))
          \<lparr>rs_Err = Some InsufficientBytes, rs_Code = 0xe, rs_Data = None, rs_DataB = None\<rparr>\<rparr>"

definition packet_parse ::
    "packet \<Rightarrow> byte list \<Rightarrow> (packet \<times> go_error option) outcome option" where
  "packet_parse p data =
    (case newPacketHeader data of
       (packheader, Some err) \<Rightarrow>
         Some (Inr (p\<lparr>pk_replies := pk_replies p @
                        map (\<lambda>_. \<lparr>rs_Err = Some err, rs_Code = 0xe, rs_Data = None,
                                    rs_DataB = None\<rparr>) (pk_transactions p)\<rparr>, Some err))
     | (packheader, None) \<Rightarrow>
         if ph_ptype packheader = control then
           (case parse_loop p (ph_order packheader) (drop 4 data) of
              None \<Rightarrow> None
            | Some (Inl e) \<Rightarrow> Some (Inl e)
            | Some (Inr p') \<Rightarrow> Some (Inr (pad_replies p', None)))
         else if ph_ptype packheader = status then Some (Inr (p, None))
         else if ph_ptype packheader = resend then Some (Inr (p, Some ResendReceived))
         else Some (Inr (p, Some (InvalidPacketType (ph_ptype packheader)))))"

subsection \<open>Delivering the responses\<close>

datatype chan_event = Deliver chan Response | CloseChan chan

text \<open>The loop of \<open>send\<close>: transaction \<open>i\<close> gets \<open>replies[i]\<close>, whose absence panics.\<close>

fun send_loop :: "transaction list \<Rightarrow> Response list \<Rightarrow> chan_event list outcome" where
  "send_loop [] replies = Inr []"
| "send_loop (tr # trs) [] = Inl IndexOutOfRange"
| "send_loop (tr # trs) (r # rs) =
     obind (send_loop trs rs)
       (\<lambda>evs. Inr (Deliver (t_resp tr) r #
                   (if t_closechan tr then [CloseChan (t_resp tr)] else []) @ evs))"

definition packet_send :: "packet \<Rightarrow> chan_event list outcome" where
  "packet_send p = send_loop (pk_transactions p) (pk_replies p)"

subsection \<open>What a packet holds\<close>

text \<open>The words a transaction takes in the request and in the reply.\<close>

definition req_words :: "transaction \<Rightarrow> nat" where
  "req_words t = 2 + length (t_Input t)"

definition resp_words :: "transaction \<Rightarrow> nat" where
  "resp_words t =
    (if is_read (th_tid (t_outheader t)) then 1 + unat (th_words (t_outheader t))
     else if is_write (th_tid (t_outheader t)) then 1 else 2)"

text \<open>The input data that goes with each type of transaction.\<close>

definition trans_ok :: "transaction \<Rightarrow> bool" where
  "trans_ok t \<longleftrightarrow>
    (let tid = th_tid (t_outheader t); n = length (t_Input t) in
       is_read tid \<and> n = 0
     \<or> is_write tid \<and> n = unat (th_words (t_outheader t))
     \<or> tid = tid_rmwbits \<and> n = 2
     \<or> tid = tid_rmwsum \<and> n = 1)"

definition trans_bytes :: "byteorder \<Rightarrow> transaction \<Rightarrow> byte list" where
  "trans_bytes order t =
    th_bytes order (t_outheader t) @ u32_bytes order (t_Addr t)
      @ concat (map (u32_bytes order) (t_Input t))"

lemma length_trans_bytes [simp]:
  assumes "order \<noteq> NilOrder"
  shows "length (trans_bytes order t) = 4 * req_words t"
proof -
  have "length (concat (map (u32_bytes order) (t_Input t))) = 4 * length (t_Input t)"
    using assms by (intro length_concat_map_4) simp
  with assms show ?thesis by (simp add: trans_bytes_def req_words_def)
qed

definition packet_inv :: "packet \<Rightarrow> bool" where
  "packet_inv p \<longleftrightarrow>
     ph_order (pk_header p) \<noteq> NilOrder
   \<and> pk_reqlen p \<le> pk_reqcap p \<and> pk_resplen p \<le> pk_respcap p
   \<and> unat (pk_reqlen p) = 1 + sum_list (map req_words (pk_transactions p))
   \<and> unat (pk_resplen p) = 1 + sum_list (map resp_words (pk_transactions p))
   \<and> (\<forall>i < length (pk_transactions p). th_id (t_outheader (pk_transactions p ! i)) = of_nat i)
   \<and> (\<forall>t \<in> set (pk_transactions p). trans_ok t)
   \<and> 4 \<le> length (pk_request p)
   \<and> drop 4 (pk_request p)
       = concat (map (trans_bytes (ph_order (pk_header p))) (pk_transactions p))"

text \<open>The room left, in words.\<close>

definition reqroom :: "packet \<Rightarrow> nat" where
  "reqroom p = unat (fst (packet_space p))"

definition resproom :: "packet \<Rightarrow> nat" where
  "resproom p = unat (snd (packet_space p))"

definition fits :: "packet \<Rightarrow> transaction \<Rightarrow> bool" where
  "fits p t \<longleftrightarrow> trans_ok t \<and> req_words t \<le> reqroom p \<and> resp_words t \<le> resproom p"


lemma reqroom_nat: "packet_inv p \<Longrightarrow> reqroom p = unat (pk_reqcap p) - unat (pk_reqlen p)"
  by (simp add: reqroom_def packet_space_def packet_inv_def unat_sub)

lemma resproom_nat: "packet_inv p \<Longrightarrow> resproom p = unat (pk_respcap p) - unat (pk_resplen p)"
  by (simp add: resproom_def packet_space_def packet_inv_def unat_sub)

lemma space_less:
  "fst (packet_space p) < numeral k \<longleftrightarrow> reqroom p < unat (numeral k :: u64)"
  "snd (packet_space p) < numeral k \<longleftrightarrow> resproom p < unat (numeral k :: u64)"
  "snd (packet_space p) = 0 \<longleftrightarrow> resproom p = 0"
  "fst (packet_space p) < x \<longleftrightarrow> reqroom p < unat x"
  "snd (packet_space p) < x \<longleftrightarrow> resproom p < unat x"
  by (simp_all add: reqroom_def resproom_def word_less_nat_alt unat_eq_0)

lemma unat_words_plus_2: "unat (ucast (w :: byte) + 2 :: u64) = unat w + 2"
  using unat_ucast_byte_add [of 2 w] by simp

lemma unat_ucast_succ: "w \<noteq> 255 \<Longrightarrow> unat (ucast (w + 1 :: byte) :: u64) = unat w + 1"
  by (simp add: unat_byte_succ)

text \<open>The four cases of the accounting, with the space as numbers.\<close>

lemma account_read:
  "is_read (th_tid (t_outheader t)) \<Longrightarrow> packet_account p t =
    (let w = th_words (t_outheader t); n = length (t_Input t) in
     if n > 0 then Inl (ReadWithInput n)
     else if reqroom p < 2 \<or> resproom p < unat (w + 1) then Inl (ReadNoSpace w)
     else Inr (p\<lparr>pk_reqlen := pk_reqlen p + 2, pk_resplen := pk_resplen p + (ucast w + 1)\<rparr>))"
  by (simp add: packet_account_def case_prod_beta Let_def space_less unat_words_plus_2)

lemma account_write:
  "is_write (th_tid (t_outheader t)) \<Longrightarrow> packet_account p t =
    (let w = th_words (t_outheader t); n = length (t_Input t) in
     if n \<noteq> unat w then Inl (WriteWrongLength w n)
     else if reqroom p < unat w + 2 \<or> resproom p < 1 then Inl (WriteNoSpace w)
     else Inr (p\<lparr>pk_reqlen := pk_reqlen p + (ucast w + 2), pk_resplen := pk_resplen p + 1\<rparr>))"
  by (simp add: packet_account_def case_prod_beta Let_def space_less unat_words_plus_2)

lemma account_rmwbits:
  "th_tid (t_outheader t) = tid_rmwbits \<Longrightarrow> packet_account p t =
    (let n = length (t_Input t) in
     if n \<noteq> 2 then Inl (RMWbitsWrongLength n)
     else if reqroom p < 4 \<or> resproom p < 2 then Inl RMWbitsNoSpace
     else Inr (p\<lparr>pk_reqlen := pk_reqlen p + 4, pk_resplen := pk_resplen p + 2\<rparr>))"
  by (simp add: packet_account_def case_prod_beta Let_def space_less unat_words_plus_2)

lemma account_rmwsum:
  "th_tid (t_outheader t) = tid_rmwsum \<Longrightarrow> packet_account p t =
    (let n = length (t_Input t) in
     if n \<noteq> 1 then Inl (RMWsumWrongLength n)
     else if reqroom p < 3 \<or> resproom p < 2 then Inl RMWsumNoSpace
     else Inr (p\<lparr>pk_reqlen := pk_reqlen p + 3, pk_resplen := pk_resplen p + 2\<rparr>))"
  by (simp add: packet_account_def case_prod_beta Let_def space_less unat_words_plus_2)

lemmas account_cases = account_read account_write account_rmwbits account_rmwsum

lemma unat_succ_le: "unat (w + 1) \<le> unat w + 1" for w :: byte
  by (cases "w = 255") (auto simp: unat_byte_succ)

lemma ucast_byte_nat: "(ucast (w :: byte) :: u64) = of_nat (unat w)"
  by (simp add: unsigned_ucast_eq)

lemma account_fits:
  assumes "fits p t"
  shows "packet_account p t =
    Inr (p\<lparr>pk_reqlen := pk_reqlen p + of_nat (req_words t),
           pk_resplen := pk_resplen p + of_nat (resp_words t)\<rparr>)"
proof -
  let ?tid = "th_tid (t_outheader t)"
  consider "is_read ?tid" | "is_write ?tid" | "?tid = tid_rmwbits" | "?tid = tid_rmwsum"
    using assms by (auto simp: fits_def trans_ok_def Let_def)
  then show ?thesis
    using assms unat_succ_le [of "th_words (t_outheader t)"]
    by cases (auto simp: account_cases fits_def trans_ok_def Let_def req_words_def resp_words_def
        algebra_simps)
qed

subsection \<open>Adding a transaction that fits\<close>

lemma put_inputs_bytes:
  assumes "order \<noteq> NilOrder" "length data = 4 * (i + 1 + length vals)"
  shows "put_inputs order data i vals
         = Inr (take (4 * (i + 1)) data @ concat (map (u32_bytes order) vals))"
  using assms(2)
proof (induction vals arbitrary: data i)
  case Nil
  then show ?case by simp
next
  case (Cons v vals)
  let ?d = "take (4 * (i + 1)) data @ u32_bytes order v @ drop (4 * (i + 2)) data"
  have "put_inputs order data i (v # vals) = put_inputs order ?d (i + 1) vals"
    using Cons.prems assms(1) by (simp add: order_PutUint32_bytes algebra_simps)
  also have "\<dots> = Inr (take (4 * (i + 2)) ?d @ concat (map (u32_bytes order) vals))"
    using Cons.prems assms(1) by (subst Cons.IH) auto
  finally show ?case using Cons.prems assms(1) by simp
qed

text \<open>The transaction as it is stored: numbered.\<close>

definition numbered :: "packet \<Rightarrow> transaction \<Rightarrow> transaction" where
  "numbered p t =
    t\<lparr>t_outheader := (t_outheader t)\<lparr>th_id := of_nat (length (pk_transactions p))\<rparr>\<rparr>"

lemma numbered_simps [simp]:
  "req_words (numbered p t) = req_words t" "resp_words (numbered p t) = resp_words t"
  "trans_ok (numbered p t) = trans_ok t"
  "th_id (t_outheader (numbered p t)) = of_nat (length (pk_transactions p))"
  by (simp_all add: numbered_def req_words_def resp_words_def trans_ok_def)

lemma packet_fill_bytes:
  assumes "ph_order (pk_header p) \<noteq> NilOrder"
  shows "packet_fill p t =
    Inr (p\<lparr>pk_request := pk_request p @ trans_bytes (ph_order (pk_header p)) (numbered p t),
           pk_transactions := pk_transactions p @ [numbered p t]\<rparr>)"
  using assms
  by (simp add: packet_fill_def transactionheader_encode_bytes order_PutUint32_bytes
      put_inputs_bytes trans_bytes_def numbered_def Let_def)

lemma packet_add_fits:
  assumes "fits p t" "ph_order (pk_header p) \<noteq> NilOrder"
  shows "packet_add p t =
    Inr (p\<lparr>pk_reqlen := pk_reqlen p + of_nat (req_words t),
           pk_resplen := pk_resplen p + of_nat (resp_words t),
           pk_request := pk_request p @ trans_bytes (ph_order (pk_header p)) (numbered p t),
           pk_transactions := pk_transactions p @ [numbered p t]\<rparr>, None)"
  using assms by (simp add: packet_add_def account_fits packet_fill_bytes numbered_def)

lemma grow_length:
  fixes cap len :: u64
  assumes "len \<le> cap" "n \<le> unat (cap - len)"
  shows "unat (len + of_nat n) = unat len + n" "len + of_nat n \<le> cap"
proof -
  have n: "n \<le> unat cap - unat len" using assms by (simp add: unat_sub)
  moreover have "unat len \<le> unat cap" using assms(1) by (simp add: word_le_nat_alt)
  ultimately have le: "unat len + n \<le> unat cap" by simp
  moreover have cap: "unat cap < 2 ^ 64" by (rule order_less_le_trans [OF unsigned_less]) simp
  ultimately show *: "unat (len + of_nat n) = unat len + n"
    by (simp add: unat_word_ariths unat_of_nat)
  show "len + of_nat n \<le> cap" using le by (simp add: word_le_nat_alt *)
qed

lemma packet_add_inv:
  assumes inv: "packet_inv p" and fits: "fits p t" and add: "packet_add p t = Inr (p', e)"
  shows "packet_inv p'"
proof -
  have order: "ph_order (pk_header p) \<noteq> NilOrder" using inv by (simp add: packet_inv_def)
  have p': "p' = p\<lparr>pk_reqlen := pk_reqlen p + of_nat (req_words t),
           pk_resplen := pk_resplen p + of_nat (resp_words t),
           pk_request := pk_request p @ trans_bytes (ph_order (pk_header p)) (numbered p t),
           pk_transactions := pk_transactions p @ [numbered p t]\<rparr>"
    using add packet_add_fits [OF fits order] by simp
  have req: "unat (pk_reqlen p + of_nat (req_words t)) = unat (pk_reqlen p) + req_words t"
      "pk_reqlen p + of_nat (req_words t) \<le> pk_reqcap p"
    using inv fits grow_length [of "pk_reqlen p" "pk_reqcap p" "req_words t"]
    by (auto simp: packet_inv_def fits_def reqroom_def packet_space_def)
  have resp: "unat (pk_resplen p + of_nat (resp_words t)) = unat (pk_resplen p) + resp_words t"
      "pk_resplen p + of_nat (resp_words t) \<le> pk_respcap p"
    using inv fits grow_length [of "pk_resplen p" "pk_respcap p" "resp_words t"]
    by (auto simp: packet_inv_def fits_def resproom_def packet_space_def)
  show ?thesis
    using inv fits req resp unfolding p'
    by (auto simp: packet_inv_def fits_def nth_append less_Suc_eq)
qed

lemma packet_add_error:
  assumes "packet_add p t = Inr (p', Some e)"
  shows "p' = p"
  using assms by (auto simp: packet_add_def split: sum.splits)

text \<open>When \<open>add\<close> accepts a transaction, it fitted; the test on the reply of a read of 255
  words is the exception.\<close>

definition known_tid :: "byte \<Rightarrow> bool" where
  "known_tid tid \<longleftrightarrow> is_read tid \<or> is_write tid \<or> tid = tid_rmwbits \<or> tid = tid_rmwsum"

lemma trans_ok_known: "trans_ok t \<Longrightarrow> known_tid (th_tid (t_outheader t))"
  by (auto simp: trans_ok_def known_tid_def Let_def)

lemma packet_account_Inr_fits:
  assumes acc: "packet_account p t = Inr p'" and tid: "known_tid (th_tid (t_outheader t))"
    and w: "is_read (th_tid (t_outheader t)) \<Longrightarrow> th_words (t_outheader t) \<noteq> 255"
  shows "fits p t"
proof -
  let ?tid = "th_tid (t_outheader t)"
  consider "is_read ?tid" | "is_write ?tid" | "?tid = tid_rmwbits" | "?tid = tid_rmwsum"
    using tid by (auto simp: known_tid_def)
  then show ?thesis
    using acc w by cases (auto simp: account_cases Let_def fits_def trans_ok_def req_words_def
        resp_words_def unat_byte_succ split: if_splits)
qed

text \<open>A read of 255 words is accepted whatever the room for its reply: the sum in the test
  is 0 in \<open>uint8\<close>.\<close>

lemma packet_account_read_255:
  assumes "is_read (th_tid (t_outheader t))" "th_words (t_outheader t) = 255" "t_Input t = []"
    "2 \<le> reqroom p"
  shows "packet_account p t =
    Inr (p\<lparr>pk_reqlen := pk_reqlen p + 2, pk_resplen := pk_resplen p + 256\<rparr>)"
  using assms by (simp add: account_read)

lemma emptypacket_inv:
  assumes "32 \<le> maxsize"
  shows "packet_inv (emptypacket maxsize pt)"
    "reqroom (emptypacket maxsize pt) = (unat maxsize - 28) div 4 - 1"
    "resproom (emptypacket maxsize pt) = (unat maxsize - 28) div 4 - 1"
proof -
  have "28 \<le> maxsize" using assms by (rule order_trans [rotated]) simp
  then have cap: "unat ((maxsize - 28) div 4) = (unat maxsize - 28) div 4"
    by (simp add: unat_div unat_sub)
  have "1 \<le> (maxsize - 28) div 4"
    using assms by (simp add: word_le_nat_alt cap)
  with cap show "packet_inv (emptypacket maxsize pt)"
    "reqroom (emptypacket maxsize pt) = (unat maxsize - 28) div 4 - 1"
    "resproom (emptypacket maxsize pt) = (unat maxsize - 28) div 4 - 1"
    by (auto simp: packet_inv_def emptypacket_def defaultorder_def Let_def reqroom_def
        resproom_def packet_space_def unat_sub)
qed

lemma packet_writeheader_inv:
  assumes "packet_inv p"
  shows "snd (packet_writeheader p i) = None \<and> packet_inv (fst (packet_writeheader p i))
    \<and> pk_transactions (fst (packet_writeheader p i)) = pk_transactions p
    \<and> pk_replies (fst (packet_writeheader p i)) = pk_replies p
    \<and> pk_id (fst (packet_writeheader p i)) = i
    \<and> pk_request (fst (packet_writeheader p i))
        = ph_bytes ((pk_header p)\<lparr>ph_pid := i\<rparr>) @ drop 4 (pk_request p)"
  using assms
  by (simp add: packet_writeheader_def packetheader_encode_bytes packet_inv_def Let_def)

subsection \<open>The replies a target sends\<close>

text \<open>
  The bytes of a reply, after the IPbus protocol: for each transaction, in order, a header
  with its identifier, its type and its number of words, then on success the words read (one
  word for a read-modify-write, none for a write).
\<close>

datatype reply = Good "u32 list" | Bad byte

definition reply_header :: "nat \<Rightarrow> transaction \<Rightarrow> byte \<Rightarrow> transactionheader" where
  "reply_header i t code =
    \<lparr>th_version = 2, th_id = of_nat i, th_words = th_words (t_outheader t),
     th_tid = th_tid (t_outheader t), th_code = code\<rparr>"

fun reply_bytes :: "byteorder \<Rightarrow> nat \<Rightarrow> transaction \<Rightarrow> reply \<Rightarrow> byte list" where
  "reply_bytes order i t (Good ws) =
     th_bytes order (reply_header i t Success) @ concat (map (u32_bytes order) ws)"
| "reply_bytes order i t (Bad code) = th_bytes order (reply_header i t code)"

text \<open>The reply goes with the transaction.\<close>

fun reply_ok :: "transaction \<Rightarrow> reply \<Rightarrow> bool" where
  "reply_ok t (Good ws) \<longleftrightarrow>
     (let tid = th_tid (t_outheader t) in
        is_read tid \<and> length ws = unat (th_words (t_outheader t))
      \<or> is_write tid \<and> ws = []
      \<or> (tid = tid_rmwbits \<or> tid = tid_rmwsum) \<and> length ws = 1)"
| "reply_ok t (Bad code) \<longleftrightarrow> known_tid (th_tid (t_outheader t)) \<and> code \<noteq> Success \<and> code < 16"

fun reply_response :: "byteorder \<Rightarrow> transaction \<Rightarrow> reply \<Rightarrow> Response" where
  "reply_response order t (Good ws) =
     \<lparr>rs_Err = None, rs_Code = Success,
      rs_Data = (if t_byteslice t then None else Some ws),
      rs_DataB = (if t_byteslice t then Some (concat (map (u32_bytes order) ws)) else None)\<rparr>"
| "reply_response order t (Bad code) =
     \<lparr>rs_Err = Some (IPbusError (transactionerrs ! unat code)), rs_Code = code,
      rs_Data = None, rs_DataB = None\<rparr>"

fun reply_stream :: "byteorder \<Rightarrow> nat \<Rightarrow> transaction list \<Rightarrow> reply list \<Rightarrow> byte list" where
  "reply_stream order i (t # ts) (r # rs) =
     reply_bytes order i t r @ reply_stream order (Suc i) ts rs"
| "reply_stream order i _ _ = []"

subsection \<open>Parsing them\<close>

lemma known_tid_less: "known_tid t \<Longrightarrow> t < 16"
  by (auto simp: known_tid_def is_read_def is_write_def tid_defs)

lemma reply_ok_known: "reply_ok t r \<Longrightarrow> known_tid (th_tid (t_outheader t))"
  by (cases r) (auto simp: known_tid_def Let_def)

lemma wf_reply_header:
  assumes "i < 4096" "known_tid (th_tid (t_outheader t))" "code < 16"
  shows "wf_th (reply_header i t code)" "unat (th_id (reply_header i t code)) = i"
proof -
  show *: "unat (th_id (reply_header i t code)) = i"
    using assms(1) by (simp add: reply_header_def unat_of_nat)
  show "wf_th (reply_header i t code)"
    using assms * known_tid_less [OF assms(2)]
    by (simp add: wf_th_def word_less_nat_alt) (simp add: reply_header_def)
qed

lemma length_words_bytes [simp]:
  "order \<noteq> NilOrder \<Longrightarrow> length (concat (map (u32_bytes order) ws)) = 4 * length ws"
  by (intro length_concat_map_4) simp

lemma take_payload_words:
  assumes "order \<noteq> NilOrder" "k = 4 * length ws"
  shows "take_payload b order (concat (map (u32_bytes order) ws) @ rest) k resp =
    Inr (if b then resp\<lparr>rs_DataB := Some (concat (map (u32_bytes order) ws))\<rparr>
         else resp\<lparr>rs_Data := Some ws\<rparr>, rest)"
  using assms by (simp add: take_payload_def bytes2uint32s_words)

lemma length_transactionerrs [simp]: "length transactionerrs = 16"
  by (simp add: transactionerrs_def)

lemma parse_step_reply:
  assumes order: "order \<noteq> NilOrder" and i: "i < length (pk_transactions p)" "i < 4096"
    and t: "pk_transactions p ! i = t" and ok: "reply_ok t r"
  shows "parse_step p order (reply_bytes order i t r @ rest) =
    Inr (p\<lparr>pk_replies := pk_replies p @ [reply_response order t r]\<rparr>, rest)"
proof -
  note known = reply_ok_known [OF ok]
  show ?thesis
  proof (cases r)
    case (Good ws)
    let ?h = "reply_header i t Success"
    have wf: "wf_th ?h" "unat (th_id ?h) = i"
      using wf_reply_header [OF i(2) known, of Success] by (simp_all add: Success_def)
    have dec: "newTransactionHeader (th_bytes order ?h @ b) order = (?h, None)" for b
      using wf order by (simp add: newTransactionHeader_bytes)
    have f: "th_words ?h = th_words (t_outheader t)" "th_tid ?h = th_tid (t_outheader t)"
      "th_code ?h = Success" by (simp_all add: reply_header_def)
    consider "is_read (th_tid (t_outheader t))" "length ws = unat (th_words (t_outheader t))"
      | "is_write (th_tid (t_outheader t))" "ws = []"
      | "th_tid (t_outheader t) = tid_rmwbits" "length ws = 1"
      | "th_tid (t_outheader t) = tid_rmwsum" "length ws = 1"
      using ok by (auto simp: Good Let_def)
    then show ?thesis
      using i t order wf
      by cases (simp_all add: parse_step_def dec Let_def f Good take_payload_words)
  next
    case (Bad code)
    let ?h = "reply_header i t code"
    have code: "code < 16" "code \<noteq> Success" using ok by (auto simp: Bad)
    have wf: "wf_th ?h" "unat (th_id ?h) = i"
      using wf_reply_header [OF i(2) known code(1)] by simp_all
    have dec: "newTransactionHeader (th_bytes order ?h @ b) order = (?h, None)" for b
      using wf order by (simp add: newTransactionHeader_bytes)
    have "th_code ?h = code" by (simp add: reply_header_def)
    moreover have "unat code < 16" using code(1) by (simp add: word_less_nat_alt)
    ultimately show ?thesis
      using i t wf code(2) by (simp add: parse_step_def dec Let_def Bad)
  qed
qed

lemma reply_bytes_ne [simp]: "reply_bytes order i t r \<noteq> []"
  by (cases r) (auto simp flip: length_0_conv)

lemma parse_loop_stream:
  assumes "order \<noteq> NilOrder" "drop i (pk_transactions p) = ts" "length rs \<le> length ts"
    "i + length ts \<le> 4096" "list_all2 reply_ok (take (length rs) ts) rs"
  shows "parse_loop p order (reply_stream order i ts rs) =
    Some (Inr (p\<lparr>pk_replies := pk_replies p @ map2 (reply_response order) ts rs\<rparr>))"
  using assms(2-)
proof (induction rs arbitrary: i p ts)
  case Nil
  then show ?case by (cases ts) (auto simp: parse_loop.simps)
next
  case (Cons r rs)
  then obtain t ts' where ts: "ts = t # ts'" by (cases ts) auto
  have i: "i < length (pk_transactions p)" "pk_transactions p ! i = t"
    "drop (Suc i) (pk_transactions p) = ts'"
    using Cons.prems(1) ts by (auto dest: nth_via_drop simp: drop_Suc tl_drop [symmetric])
       (metis drop_eq_Nil2 list.distinct(1) not_le)
  let ?p = "p\<lparr>pk_replies := pk_replies p @ [reply_response order t r]\<rparr>"
  have step: "parse_step p order (reply_stream order i ts (r # rs)) =
      Inr (?p, reply_stream order (Suc i) ts' rs)"
    using Cons.prems i ts assms(1) by (simp add: parse_step_reply)
  have ne: "reply_stream order i ts (r # rs) \<noteq> []"
    by (simp add: ts reply_bytes_ne)
  have "parse_loop p order (reply_stream order i ts (r # rs)) =
      parse_loop ?p order (reply_stream order (Suc i) ts' rs)"
    by (subst parse_loop.simps) (simp add: ne step)
  also have "\<dots> = Some (Inr (?p\<lparr>pk_replies := pk_replies ?p @ map2 (reply_response order) ts' rs\<rparr>))"
    using Cons.prems i ts by (intro Cons.IH) auto
  finally show ?case by (simp add: ts)
qed

subsection \<open>When parsing returns\<close>

lemma take_payload_consumes:
  "take_payload b order data k resp = Inr (resp', data') \<Longrightarrow> data' = drop k data \<and> k \<le> length data"
  by (auto simp: take_payload_def split: if_splits)

text \<open>A round that does not panic appends one response.  It consumes a positive multiple of
  four bytes when a header is there, and nothing otherwise.\<close>

lemma parse_step_Inr:
  assumes step: "parse_step p order data = Inr s" and order: "order \<noteq> NilOrder"
  shows "pk_transactions (fst s) = pk_transactions p"
    and "\<exists>resp. fst s = p\<lparr>pk_replies := pk_replies p @ [resp]\<rparr>"
    and "4 \<le> length data \<Longrightarrow> length (snd s) < length data \<and> 4 dvd length data - length (snd s)"
    and "length data < 4 \<Longrightarrow> snd s = data"
    and "4 dvd length (snd s) \<longleftrightarrow> 4 dvd length data"
proof -
  obtain th err where th: "newTransactionHeader data order = (th, err)" by force
  obtain resp where s: "fst s = p\<lparr>pk_replies := pk_replies p @ [resp]\<rparr>"
    using step by (auto simp: parse_step_def th Let_def split: if_splits prod.splits)
  then show "\<exists>resp. fst s = p\<lparr>pk_replies := pk_replies p @ [resp]\<rparr>" by blast
  from s show "pk_transactions (fst s) = pk_transactions p" by simp
  show short: "snd s = data" if "length data < 4"
    using that step th newTransactionHeader_short [OF that, of order]
    by (auto simp: parse_step_def Let_def split: if_splits)
  show long: "length (snd s) < length data \<and> 4 dvd length data - length (snd s)" if len: "4 \<le> length data"
  proof -
    have err: "err = None"
      using len th newTransactionHeader_error_iff [OF order, of data] by (cases err) auto
    show ?thesis
      using step len unfolding parse_step_def th Let_def err
      by (auto split: if_splits dest!: take_payload_consumes simp: dvd_add)
  qed
  show "4 dvd length (snd s) \<longleftrightarrow> 4 dvd length data"
  proof (cases "length data < 4")
    case True
    then show ?thesis by (simp add: short)
  next
    case False
    then have "length (snd s) < length data" "4 dvd length data - length (snd s)"
      using long by auto
    then show ?thesis by presburger
  qed
qed

text \<open>Whole words: the loop returns, or panics.\<close>

lemma parse_loop_returns:
  assumes "order \<noteq> NilOrder" "4 dvd length data"
  shows "\<exists>r. parse_loop p order data = Some r"
  using assms(2)
proof (induction data arbitrary: p rule: length_induct)
  case (1 data)
  show ?case
  proof (cases "data = []")
    case True
    then show ?thesis by (simp add: parse_loop.simps)
  next
    case False
    with 1(2) have len: "4 \<le> length data" by (simp add: dvd_imp_le)
    show ?thesis
    proof (cases "parse_step p order data")
      case (Inl e)
      with False show ?thesis by (simp add: parse_loop.simps)
    next
      case (Inr s)
      note step = parse_step_Inr(3) [OF Inr assms(1) len]
      moreover have "4 dvd length (snd s)"
        using 1(2) parse_step_Inr(5) [OF Inr assms(1)] by simp
      ultimately have "\<exists>r. parse_loop (fst s) order (snd s) = Some r" using 1(1) by blast
      with False Inr show ?thesis by (subst parse_loop.simps) simp
    qed
  qed
qed

text \<open>Otherwise it does not return normally: it panics or it goes on for ever.\<close>

lemma parse_loop_ragged:
  assumes "order \<noteq> NilOrder" "\<not> 4 dvd length data"
  shows "parse_loop p order data \<noteq> Some (Inr q)"
proof
  assume ret: "parse_loop p order data = Some (Inr q)"
  have "order \<noteq> NilOrder \<longrightarrow> \<not> 4 dvd length data \<longrightarrow> Inr q \<noteq> (Inr q :: packet outcome)"
  proof (rule parse_loop.raw_induct
      [where P = "\<lambda>p order data r. order \<noteq> NilOrder \<longrightarrow> \<not> 4 dvd length data \<longrightarrow> r \<noteq> Inr q", OF _ ret])
    fix f p order data r
    assume IH: "\<And>p order data r. f p order data = Some r \<Longrightarrow>
        order \<noteq> NilOrder \<longrightarrow> \<not> 4 dvd length data \<longrightarrow> r \<noteq> Inr q"
      and eq: "(if data = [] then Some (Inr p)
        else case parse_step p order data of Inl e \<Rightarrow> Some (Inl e)
          | Inr s \<Rightarrow> f (fst s) order (snd s)) = Some r"
    show "order \<noteq> NilOrder \<longrightarrow> \<not> 4 dvd length data \<longrightarrow> r \<noteq> Inr q"
    proof (intro impI)
      assume order: "order \<noteq> NilOrder" and ragged: "\<not> 4 dvd length data"
      then have ne: "data \<noteq> []" by auto
      show "r \<noteq> Inr q"
      proof (cases "parse_step p order data")
        case (Inl e)
        with eq ne show ?thesis by auto
      next
        case (Inr s)
        note inr = parse_step_Inr [OF Inr order]
        have "\<not> 4 dvd length (snd s)" using inr(5) ragged by simp
        moreover have "f (fst s) order (snd s) = Some r" using eq ne Inr by simp
        ultimately show ?thesis using IH order by blast
      qed
    qed
  qed
  with assms show False by simp
qed

text \<open>One to three bytes after a whole number of replies: the loop makes no progress.\<close>

lemma parse_step_stuck:
  assumes "length data < 4" "pk_transactions p \<noteq> []"
  shows "parse_step p order data =
    Inr (p\<lparr>pk_replies := pk_replies p @
      [\<lparr>rs_Err = Some TransHeaderTooShort, rs_Code = 0, rs_Data = None, rs_DataB = None\<rparr>]\<rparr>, data)"
  using assms
  by (simp add: parse_step_def newTransactionHeader_short zero_transactionheader_def Let_def)

lemma parse_loop_stuck:
  assumes "data \<noteq> []" "length data < 4" "pk_transactions p \<noteq> []"
  shows "parse_loop p order data = None"
proof (rule ccontr)
  assume "parse_loop p order data \<noteq> None"
  then obtain r where ret: "parse_loop p order data = Some r" by auto
  have "data \<noteq> [] \<and> length data < 4 \<and> pk_transactions p \<noteq> [] \<longrightarrow> False"
  proof (rule parse_loop.raw_induct
      [where P = "\<lambda>p order data r. data \<noteq> [] \<and> length data < 4 \<and> pk_transactions p \<noteq> [] \<longrightarrow> False",
       OF _ ret])
    fix f p order data r
    assume IH: "\<And>p order data r. f p order data = Some r \<Longrightarrow>
        data \<noteq> [] \<and> length data < 4 \<and> pk_transactions p \<noteq> [] \<longrightarrow> False"
      and eq: "(if data = [] then Some (Inr p)
        else case parse_step p order data of Inl e \<Rightarrow> Some (Inl e)
          | Inr s \<Rightarrow> f (fst s) order (snd s)) = Some r"
    show "data \<noteq> [] \<and> length data < 4 \<and> pk_transactions p \<noteq> [] \<longrightarrow> False"
    proof
      assume a: "data \<noteq> [] \<and> length data < 4 \<and> pk_transactions p \<noteq> []"
      then obtain resp where
        "parse_step p order data = Inr (p\<lparr>pk_replies := pk_replies p @ [resp]\<rparr>, data)"
        using parse_step_stuck by blast
      with eq a have "f (p\<lparr>pk_replies := pk_replies p @ [resp]\<rparr>) order data = Some r" by simp
      with IH [OF this] a show False by simp
    qed
  qed
  with assms show False by blast
qed

text \<open>A normal return has kept the transactions and the earlier responses.\<close>

lemma parse_loop_Inr:
  assumes ret: "parse_loop p order data = Some (Inr q)" and order: "order \<noteq> NilOrder"
  shows "\<exists>rs. q = p\<lparr>pk_replies := pk_replies p @ rs\<rparr>"
  using parse_loop_ragged [OF order] ret
proof (induction data arbitrary: p rule: length_induct)
  case (1 data)
  have dvd: "4 dvd length data" using 1(2,3) by blast
  show ?case
  proof (cases "data = []")
    case True
    with 1(3) show ?thesis by (intro exI [of _ "[]"]) (simp add: parse_loop.simps)
  next
    case False
    with dvd have len: "4 \<le> length data" by (simp add: dvd_imp_le)
    obtain s where s: "parse_step p order data = Inr s" "parse_loop (fst s) order (snd s) = Some (Inr q)"
      using 1(3) False by (subst (asm) parse_loop.simps) (auto split: sum.splits)
    obtain resp where resp: "fst s = p\<lparr>pk_replies := pk_replies p @ [resp]\<rparr>"
      using parse_step_Inr(2) [OF s(1) order] by blast
    have "length (snd s) < length data" using parse_step_Inr(3) [OF s(1) order len] by simp
    with 1(1) s(2) parse_loop_ragged [OF order]
    obtain rs where "q = (fst s)\<lparr>pk_replies := pk_replies (fst s) @ rs\<rparr>" by blast
    with resp show ?thesis by (intro exI [of _ "resp # rs"]) simp
  qed
qed

subsection \<open>Replies to a control packet\<close>

definition insufficient :: Response where
  "insufficient =
    \<lparr>rs_Err = Some InsufficientBytes, rs_Code = 0xe, rs_Data = None, rs_DataB = None\<rparr>"

definition control_header :: "u16 \<Rightarrow> byteorder \<Rightarrow> packetheader" where
  "control_header pid order =
    \<lparr>ph_version = 2, ph_pid = pid, ph_ptype = control, ph_order = order\<rparr>"

lemma newPacketHeader_control:
  "order \<noteq> NilOrder \<Longrightarrow>
     newPacketHeader (ph_bytes (control_header pid order) @ rest) = (control_header pid order, None)"
  by (rule newPacketHeader_bytes) (simp add: wf_ph_def control_header_def control_def)

lemma packet_parse_control:
  assumes "order \<noteq> NilOrder"
  shows "packet_parse p (ph_bytes (control_header pid order) @ body) =
    map_option (map_sum id (\<lambda>p'. (pad_replies p', None))) (parse_loop p order body)"
  using assms
  by (simp add: packet_parse_def newPacketHeader_control)
    (simp add: control_header_def split: option.splits sum.splits)

lemma packet_parse_stream:
  assumes "order \<noteq> NilOrder" "pk_replies p = []" "length (pk_transactions p) \<le> 4096"
    "length rs \<le> length (pk_transactions p)"
    "list_all2 reply_ok (take (length rs) (pk_transactions p)) rs"
  shows "packet_parse p (ph_bytes (control_header pid order)
             @ reply_stream order 0 (pk_transactions p) rs) =
    Some (Inr (p\<lparr>pk_replies := map2 (reply_response order) (pk_transactions p) rs
                   @ replicate (length (pk_transactions p) - length rs) insufficient\<rparr>, None))"
  using assms
  by (simp add: packet_parse_control parse_loop_stream pad_replies_def insufficient_def min_def)

lemma packet_parse_control_replies:
  assumes "packet_parse p data = Some (Inr (q, None))" "newPacketHeader data = (h, None)"
    "ph_ptype h = control"
  shows "pk_transactions q = pk_transactions p \<and> length (pk_transactions q) \<le> length (pk_replies q)"
proof -
  have order: "ph_order h \<noteq> NilOrder"
    using newPacketHeader_Some [OF assms(2)] by (simp add: wf_ph_def)
  obtain p' where p': "parse_loop p (ph_order h) (drop 4 data) = Some (Inr p')" "q = pad_replies p'"
    using assms by (auto simp: packet_parse_def split: option.splits sum.splits)
  then obtain rs where "p' = p\<lparr>pk_replies := pk_replies p @ rs\<rparr>"
    using parse_loop_Inr [OF _ order] by blast
  with p'(2) show ?thesis by (simp add: pad_replies_def)
qed

subsection \<open>Delivery\<close>

definition send_events :: "transaction list \<Rightarrow> Response list \<Rightarrow> chan_event list" where
  "send_events trs rs =
    concat (map2 (\<lambda>tr r. Deliver (t_resp tr) r #
                    (if t_closechan tr then [CloseChan (t_resp tr)] else [])) trs rs)"

lemma send_loop_events:
  "length trs \<le> length rs \<Longrightarrow> send_loop trs rs = Inr (send_events trs rs)"
  by (induction trs rs rule: send_loop.induct) (auto simp: send_events_def)

lemma send_loop_short:
  "length rs < length trs \<Longrightarrow> send_loop trs rs = Inl IndexOutOfRange"
  by (induction trs rs rule: send_loop.induct) auto

fun delivered :: "chan \<Rightarrow> chan_event list \<Rightarrow> Response list" where
  "delivered c [] = []"
| "delivered c (Deliver d r # evs) = (if d = c then r # delivered c evs else delivered c evs)"
| "delivered c (CloseChan d # evs) = delivered c evs"

lemma delivered_append [simp]: "delivered c (xs @ ys) = delivered c xs @ delivered c ys"
  by (induction c xs rule: delivered.induct) auto

lemma delivered_send_events:
  "length trs \<le> length rs \<Longrightarrow>
     delivered c (send_events trs rs) = map snd (filter (\<lambda>(t, r). t_resp t = c) (zip trs rs))"
  by (induction trs rs rule: send_loop.induct) (auto simp: send_events_def)

subsection \<open>Sizes\<close>

lemma length_request:
  assumes "packet_inv p"
  shows "length (pk_request p) = 4 * unat (pk_reqlen p)"
proof -
  have order: "ph_order (pk_header p) \<noteq> NilOrder" and len: "4 \<le> length (pk_request p)"
    using assms by (auto simp: packet_inv_def)
  have "length (concat (map (trans_bytes (ph_order (pk_header p))) ts)) = 4 * sum_list (map req_words ts)" for ts
    using order by (induction ts) auto
  moreover have "drop 4 (pk_request p)
      = concat (map (trans_bytes (ph_order (pk_header p))) (pk_transactions p))"
    using assms by (simp add: packet_inv_def)
  ultimately have "length (drop 4 (pk_request p)) = 4 * sum_list (map req_words (pk_transactions p))"
    by simp
  then have "length (pk_request p) = 4 + 4 * sum_list (map req_words (pk_transactions p))"
    using len by simp
  moreover have "unat (pk_reqlen p) = 1 + sum_list (map req_words (pk_transactions p))"
    using assms by (simp add: packet_inv_def)
  ultimately show ?thesis by simp
qed

lemma length_reply_bytes:
  assumes "order \<noteq> NilOrder" "reply_ok t r"
  shows "length (reply_bytes order i t r) \<le> 4 * resp_words t"
  using assms by (cases r) (auto simp: resp_words_def Let_def)

lemma length_reply_stream:
  assumes "order \<noteq> NilOrder"
  shows "list_all2 reply_ok ts rs \<Longrightarrow>
    length (reply_stream order i ts rs) \<le> 4 * sum_list (map resp_words ts)"
proof (induction ts rs arbitrary: i rule: list_all2_induct)
  case (Cons t ts r rs)
  from length_reply_bytes [OF assms Cons.hyps(1), of i] Cons.IH [of "Suc i"]
  show ?case by simp
qed simp

lemma words_bound:
  fixes maxsize :: u64
  assumes "28 \<le> maxsize" "n \<le> (maxsize - 28) div 4"
  shows "28 + 4 * unat n \<le> unat maxsize"
proof -
  have "unat n \<le> (unat maxsize - 28) div 4"
    using assms by (simp add: word_le_nat_alt unat_div unat_sub)
  then have "4 * unat n \<le> unat maxsize - 28" by simp
  moreover have "28 \<le> unat maxsize" using assms(1) by (simp add: word_le_nat_alt)
  ultimately show ?thesis by simp
qed

subsection \<open>Properties\<close>

text \<open>C12: On a well-formed packet, \<open>add\<close> of a transaction of a known type (a read of 255
  words excepted) accepts it exactly when its input has the length of its type and both the
  request and the reply have room for it; the packet stays well-formed, an accepted
  transaction is appended with its number, and a rejected one changes nothing.\<close>

theorem packet_add_correct:
  assumes inv: "packet_inv p" and tid: "known_tid (th_tid (t_outheader t))"
    and w: "\<not> (is_read (th_tid (t_outheader t)) \<and> th_words (t_outheader t) = 255)"
  shows "\<exists>p' e. packet_add p t = Inr (p', e) \<and> packet_inv p' \<and> (e = None \<longleftrightarrow> fits p t) \<and>
    (if e = None then pk_transactions p' = pk_transactions p @ [numbered p t] else p' = p)"
proof (cases "fits p t")
  case True
  have "ph_order (pk_header p) \<noteq> NilOrder" using inv by (simp add: packet_inv_def)
  note add = packet_add_fits [OF True this]
  from packet_add_inv [OF inv True add] add True show ?thesis by auto
next
  case False
  obtain e where "packet_account p t = Inl e"
    using packet_account_Inr_fits [OF _ tid] w False by (cases "packet_account p t") auto
  with inv False show ?thesis by (simp add: packet_add_def)
qed

definition demo_trans :: "byte \<Rightarrow> byte \<Rightarrow> u32 list \<Rightarrow> transaction" where
  "demo_trans tid words input = newrequesttransaction tid words 0x100 input 1 False True"

lemma demo_fields:
  "th_tid (t_outheader (demo_trans tid words input)) = tid"
  "th_words (t_outheader (demo_trans tid words input)) = words"
  "t_Input (demo_trans tid words input) = input"
  "t_byteslice (demo_trans tid words input) = False"
  "t_resp (demo_trans tid words input) = 1"
  "t_closechan (demo_trans tid words input) = True"
  by (simp_all add: demo_trans_def newrequesttransaction_def)

theorem packet_add_correct_witness:
  "\<exists>p'. packet_add (emptypacket 1500 control) (demo_trans tid_write 2 [5, 6]) = Inr (p', None) \<and>
     length (pk_transactions p') = 1"
proof -
  let ?p = "emptypacket 1500 control" and ?t = "demo_trans tid_write 2 [5, 6]"
  have "packet_inv ?p" by (rule emptypacket_inv) simp
  moreover have "fits ?p ?t"
    using emptypacket_inv(2,3) [of 1500 control]
    by (simp add: fits_def demo_fields trans_ok_def req_words_def resp_words_def)
  moreover have "pk_transactions ?p = []" by (simp add: emptypacket_def Let_def)
  ultimately show ?thesis
    using packet_add_correct [of ?p ?t] by (auto simp: demo_fields known_tid_def split: if_splits)
qed

text \<open>C34: The test for the reply of a read computes the number of words plus one in eight
  bits: a read of 255 words is accepted however little room the reply has left, and then the
  packet accounts for more reply words than it may have.\<close>

theorem read_255_overflows:
  assumes inv: "packet_inv p" and t: "is_read (th_tid (t_outheader t))"
      "th_words (t_outheader t) = 255" "t_Input t = []"
    and room: "2 \<le> reqroom p" "resproom p < 256"
  shows "\<exists>p'. packet_add p t = Inr (p', None) \<and> \<not> packet_inv p'"
proof -
  let ?p = "p\<lparr>pk_reqlen := pk_reqlen p + 2, pk_resplen := pk_resplen p + 256\<rparr>"
  have order: "ph_order (pk_header ?p) \<noteq> NilOrder" using inv by (simp add: packet_inv_def)
  from packet_account_read_255 [OF t room(1)] packet_fill_bytes [OF order]
  obtain p' where p': "packet_add p t = Inr (p', None)"
      "pk_resplen p' = pk_resplen p + 256" "pk_respcap p' = pk_respcap p"
      "pk_transactions p' = pk_transactions p @ [numbered ?p t]"
    by (simp add: packet_add_def)
  have "\<not> packet_inv p'"
  proof
    assume inv': "packet_inv p'"
    have "resp_words (numbered ?p t) = 256"
      using t by (simp add: resp_words_def numbered_def)
    then have "unat (pk_resplen p') = unat (pk_resplen p) + 256"
      using inv inv' p'(4) by (simp add: packet_inv_def)
    moreover have "unat (pk_resplen p') \<le> unat (pk_respcap p)"
      using inv' p'(3) by (simp add: packet_inv_def word_le_nat_alt)
    ultimately show False using room(2) resproom_nat [OF inv] by simp
  qed
  with p'(1) show ?thesis by blast
qed

theorem read_255_overflows_witness:
  "\<exists>p'. packet_add (emptypacket 100 control) (demo_trans tid_read 255 []) = Inr (p', None) \<and>
     \<not> packet_inv p'"
  using emptypacket_inv [of 100 control]
  by (intro read_255_overflows) (simp_all add: demo_fields)

text \<open>Transactions added to a packet one after another, with the results of the calls.\<close>

fun add_all :: "packet \<Rightarrow> transaction list \<Rightarrow> (packet \<times> go_error option list) outcome" where
  "add_all p [] = Inr (p, [])"
| "add_all p (t # ts) =
    obind (packet_add p t) (\<lambda>(p, e). obind (add_all p ts) (\<lambda>(p, es). Inr (p, e # es)))"

definition accepted :: "go_error option list \<Rightarrow> nat" where
  "accepted es = length (filter (\<lambda>e. e = None) es)"

definition framed :: "u64 \<Rightarrow> packet \<Rightarrow> bool" where
  "framed maxsize p \<longleftrightarrow>
     packet_inv p \<and> pk_reqcap p = (maxsize - 28) div 4 \<and> pk_respcap p = (maxsize - 28) div 4"

definition countable_reply :: "transaction \<Rightarrow> bool" where
  "countable_reply t \<longleftrightarrow> known_tid (th_tid (t_outheader t))
     \<and> \<not> (is_read (th_tid (t_outheader t)) \<and> th_words (t_outheader t) = 255)"

lemma add_framed:
  assumes "framed maxsize p" "countable_reply t"
  obtains p' e where "packet_add p t = Inr (p', e)" "framed maxsize p'"
    "length (pk_transactions p') = length (pk_transactions p) + (if e = None then 1 else 0)"
proof (cases "fits p t")
  case True
  have inv: "packet_inv p" using assms(1) by (simp add: framed_def)
  then have "ph_order (pk_header p) \<noteq> NilOrder" by (simp add: packet_inv_def)
  note add = packet_add_fits [OF True this]
  from packet_add_inv [OF inv True add] add assms(1) that show thesis by (simp add: framed_def)
next
  case False
  obtain e where "packet_account p t = Inl e"
    using packet_account_Inr_fits [of p t] assms(2) False
    by (cases "packet_account p t") (auto simp: countable_reply_def)
  with assms(1) that show thesis by (simp add: packet_add_def)
qed

lemma add_all_framed:
  "framed maxsize p \<Longrightarrow> \<forall>t \<in> set ts. countable_reply t \<Longrightarrow>
   \<exists>p' es. add_all p ts = Inr (p', es) \<and> framed maxsize p' \<and> length es = length ts
     \<and> length (pk_transactions p') = length (pk_transactions p) + accepted es"
proof (induction ts arbitrary: p)
  case Nil
  then show ?case by (simp add: accepted_def)
next
  case (Cons t ts)
  then obtain p1 e where p1: "packet_add p t = Inr (p1, e)" "framed maxsize p1"
      "length (pk_transactions p1) = length (pk_transactions p) + (if e = None then 1 else 0)"
    by (auto elim: add_framed)
  with Cons obtain p' es where "add_all p1 ts = Inr (p', es)" "framed maxsize p'" "length es = length ts"
      "length (pk_transactions p') = length (pk_transactions p1) + accepted es"
    by force
  with p1 show ?case by (simp add: accepted_def)
qed

lemma framed_sizes:
  assumes p: "framed maxsize p" and size: "28 \<le> maxsize"
  shows "28 + length (pk_request p) \<le> unat maxsize"
    and "order \<noteq> NilOrder \<Longrightarrow> list_all2 reply_ok (pk_transactions p) rs \<Longrightarrow>
      32 + length (reply_stream order 0 (pk_transactions p) rs) \<le> unat maxsize"
proof -
  have inv: "packet_inv p" using p by (simp add: framed_def)
  have len: "pk_reqlen p \<le> (maxsize - 28) div 4" "pk_resplen p \<le> (maxsize - 28) div 4"
    using p unfolding framed_def packet_inv_def by metis+
  show "28 + length (pk_request p) \<le> unat maxsize"
    unfolding length_request [OF inv]
    by (rule words_bound [OF size len(1)])
  have "28 + 4 * unat (pk_resplen p) \<le> unat maxsize"
    by (rule words_bound [OF size len(2)])
  moreover have "unat (pk_resplen p) = 1 + sum_list (map resp_words (pk_transactions p))"
    using inv by (simp add: packet_inv_def)
  moreover assume "order \<noteq> NilOrder" "list_all2 reply_ok (pk_transactions p) rs"
  then have "length (reply_stream order 0 (pk_transactions p) rs) \<le> 4 * sum_list (map resp_words (pk_transactions p))"
    by (rule length_reply_stream)
  ultimately show "32 + length (reply_stream order 0 (pk_transactions p) rs) \<le> unat maxsize"
    by linarith
qed

text \<open>C16: Whatever transactions of known types (reads of 255 words excepted) are added, one after
  another, to the packet that \<open>emptypacket\<close> makes for a size of at least 32 bytes, no call
  panics and the packet holds those that were accepted; its request with its header written,
  and any well-formed reply to it, fit in the size with the 28 bytes of the IP and UDP
  headers.\<close>

theorem packet_fits_frame:
  assumes size: "32 \<le> maxsize" and ts: "\<forall>t \<in> set ts. countable_reply t"
  shows "\<exists>p es. add_all (emptypacket maxsize control) ts = Inr (p, es)
    \<and> length es = length ts \<and> length (pk_transactions p) = accepted es
    \<and> (\<forall>i. 28 + length (pk_request (fst (packet_writeheader p i))) \<le> unat maxsize)
    \<and> (\<forall>order rs pid. order \<noteq> NilOrder \<longrightarrow> list_all2 reply_ok (pk_transactions p) rs \<longrightarrow>
         28 + length (ph_bytes (control_header pid order) @ reply_stream order 0 (pk_transactions p) rs)
           \<le> unat maxsize)"
proof -
  have m: "28 \<le> maxsize" using size by (rule order_trans [rotated]) simp
  have "framed maxsize (emptypacket maxsize control)" "pk_transactions (emptypacket maxsize control) = []"
    using emptypacket_inv(1) [OF size, of control] by (simp_all add: framed_def) (simp_all add: emptypacket_def Let_def)
  with add_all_framed [OF this(1) ts] obtain p es where p:
    "add_all (emptypacket maxsize control) ts = Inr (p, es)" "framed maxsize p" "length es = length ts"
    "length (pk_transactions p) = accepted es" by auto
  have inv: "packet_inv p" using p(2) by (simp add: framed_def)
  have "length (pk_request (fst (packet_writeheader p i))) = length (pk_request p)" for i
  proof -
    have "4 \<le> length (pk_request p)" "ph_order (pk_header p) \<noteq> NilOrder" using inv by (simp_all add: packet_inv_def)
    then show ?thesis using packet_writeheader_inv [OF inv, of i] by simp
  qed
  with p framed_sizes [OF p(2) m] show ?thesis by (intro exI [of _ p] exI [of _ es]) simp
qed

lemma demo_countable: "\<forall>t \<in> set [demo_trans tid_read 9 [], demo_trans tid_write 2 [5, 6]]. countable_reply t"
  by (simp add: countable_reply_def demo_fields known_tid_def is_read_def is_write_def tid_defs)

theorem packet_fits_frame_witness:
  "\<exists>p es. add_all (emptypacket 64 control) [demo_trans tid_read 9 [], demo_trans tid_write 2 [5, 6]] = Inr (p, es)
    \<and> length (pk_transactions p) = accepted es \<and> 28 + length (pk_request (fst (packet_writeheader p 1))) \<le> 64"
  using packet_fits_frame [OF _ demo_countable, of 64] by auto

text \<open>C7: Parsing a reply and sending its responses: when the target answers the first
  \<open>length rs\<close> transactions of the packet, each with its data or with an information code,
  in either byte order, \<open>parse\<close> turns every answer into the response it stands for and the
  missing ones into an error, and \<open>send\<close> delivers one response per transaction, in order,
  on the channel of the transaction.\<close>

theorem parse_send_reply:
  assumes order: "order \<noteq> NilOrder" and p: "pk_replies p = []" "length (pk_transactions p) \<le> 4096"
    and rs: "length rs \<le> length (pk_transactions p)"
      "list_all2 reply_ok (take (length rs) (pk_transactions p)) rs"
  shows "\<exists>p'. packet_parse p (ph_bytes (control_header pid order)
             @ reply_stream order 0 (pk_transactions p) rs) = Some (Inr (p', None)) \<and>
    packet_send p' = Inr (send_events (pk_transactions p)
      (map2 (reply_response order) (pk_transactions p) rs
        @ replicate (length (pk_transactions p) - length rs) insufficient))"
  using packet_parse_stream [OF order p rs, of pid] rs(1)
  by (simp add: packet_send_def send_loop_events)

definition demo_packet :: packet where
  "demo_packet = (emptypacket 1500 control)
     \<lparr>pk_transactions := [demo_trans tid_read 1 [], demo_trans tid_write 1 [9]]\<rparr>"

lemma demo_packet_fields:
  "pk_transactions demo_packet = [demo_trans tid_read 1 [], demo_trans tid_write 1 [9]]"
  "pk_replies demo_packet = []"
  by (simp_all add: demo_packet_def emptypacket_def Let_def)

theorem parse_send_reply_witness:
  "\<exists>p'. packet_parse demo_packet (ph_bytes (control_header 3 BigEndian)
             @ th_bytes BigEndian \<lparr>th_version = 2, th_id = 0, th_words = 1, th_tid = 0, th_code = 0\<rparr>
             @ u32_bytes BigEndian 7) = Some (Inr (p', None)) \<and>
    packet_send p' = Inr
      [Deliver 1 \<lparr>rs_Err = None, rs_Code = 0, rs_Data = Some [7], rs_DataB = None\<rparr>, CloseChan 1,
       Deliver 1 insufficient, CloseChan 1]"
  using parse_send_reply [of BigEndian demo_packet "[Good [7]]" 3]
  by (simp add: demo_packet_fields demo_fields reply_header_def code_defs tid_read_def
      send_events_def known_tid_def)
    (simp add: is_read_def tid_read_def)

text \<open>C20: A control reply that \<open>parse\<close> accepts is made of whole words, and leaves at least
  one response per transaction, so that \<open>send\<close> does not panic.\<close>

theorem parse_accepts_whole_words:
  assumes order: "order \<noteq> NilOrder"
    and parse: "packet_parse p (ph_bytes (control_header pid order) @ body) = Some (Inr (q, e))"
  shows "e = None \<and> 4 dvd length body \<and> (\<exists>evs. packet_send q = Inr evs)"
proof -
  obtain p' where p': "parse_loop p order body = Some (Inr p')" and e: "e = None"
    using parse
    by (cases "parse_loop p order body"; cases "the (parse_loop p order body)")
      (auto simp: packet_parse_control [OF order])
  have "pk_transactions q = pk_transactions p \<and> length (pk_transactions q) \<le> length (pk_replies q)"
    using parse e newPacketHeader_control [OF order]
    by (intro packet_parse_control_replies) (auto simp: control_header_def)
  moreover have "4 dvd length body" using parse_loop_ragged [OF order] p' by blast
  ultimately show ?thesis
    using e send_loop_events [of "pk_transactions q" "pk_replies q"] by (auto simp: packet_send_def)
qed

theorem parse_accepts_whole_words_witness:
  "\<exists>q. packet_parse (demo_packet\<lparr>pk_transactions := []\<rparr>) (ph_bytes (control_header 3 BigEndian) @ [])
         = Some (Inr (q, None)) \<and> (\<exists>evs. packet_send q = Inr evs)"
proof -
  let ?p = "demo_packet\<lparr>pk_transactions := []\<rparr>"
  have "packet_parse ?p (ph_bytes (control_header 3 BigEndian) @ []) = Some (Inr (pad_replies ?p, None))"
    by (simp add: packet_parse_control [of BigEndian ?p 3 "[]", simplified] parse_loop.simps)
  from this parse_accepts_whole_words [OF _ this] show ?thesis by blast
qed

text \<open>C21: \<open>parse\<close> ends on every datagram of whole words, whatever its contents.\<close>

theorem parse_returns:
  assumes "4 dvd length data"
  shows "\<exists>r. packet_parse p data = Some r"
proof (cases "snd (newPacketHeader data)")
  case (Some e)
  then show ?thesis by (auto simp: packet_parse_def split: prod.split)
next
  case None
  then obtain h where h: "newPacketHeader data = (h, None)" by (metis prod.collapse)
  from newPacketHeader_Some [OF h] have "ph_order h \<noteq> NilOrder" "4 \<le> length data"
    by (auto simp: wf_ph_def)
  moreover from this assms have "4 dvd length (drop 4 data)" by (simp add: dvd_diff_nat)
  ultimately obtain r where "parse_loop p (ph_order h) (drop 4 data) = Some r"
    using parse_loop_returns by blast
  then show ?thesis using h by (auto simp: packet_parse_def split: sum.split)
qed

theorem parse_returns_witness:
  "\<exists>r. packet_parse demo_packet [0x20, 0, 1, 0xf0, 1, 2, 3, 4] = Some r"
  by (rule parse_returns) (simp add: dvd_eq_mod_eq_0)

text \<open>C23: A control reply that ends in one to three spare bytes makes \<open>parse\<close> loop for ever:
  the header of the next transaction is too short, and the loop appends the error without
  consuming anything.\<close>

theorem parse_hangs_on_spare_bytes:
  assumes "order \<noteq> NilOrder" "pk_transactions p \<noteq> []" "length (pk_transactions p) \<le> 4096"
    and "list_all2 reply_ok (pk_transactions p) rs" "spare \<noteq> []" "length spare < 4"
  shows "packet_parse p (ph_bytes (control_header pid order)
    @ reply_stream order 0 (pk_transactions p) rs @ spare) = None"
proof -
  have "parse_loop q order (reply_stream order i ts rs @ spare) = None"
    if "list_all2 reply_ok ts rs" "drop i (pk_transactions q) = ts" "i + length ts \<le> 4096"
      "pk_transactions q \<noteq> []" for q i ts
    using that
  proof (induction ts rs arbitrary: q i rule: list_all2_induct)
    case Nil
    then show ?case using parse_loop_stuck [OF assms(5,6)] by simp
  next
    case (Cons t ts r rs)
    let ?q = "q\<lparr>pk_replies := pk_replies q @ [reply_response order t r]\<rparr>"
    have i: "i < length (pk_transactions q)"
      using Cons.prems(1) by (metis drop_all list.distinct(1) not_le)
    then have t: "pk_transactions q ! i = t" "drop (Suc i) (pk_transactions q) = ts"
      using Cons.prems(1) Cons_nth_drop_Suc [OF i] by auto
    have "parse_step q order (reply_bytes order i t r @ reply_stream order (Suc i) ts rs @ spare)
        = Inr (?q, reply_stream order (Suc i) ts rs @ spare)"
      using assms(1) i t(1) Cons by (intro parse_step_reply) auto
    moreover have "parse_loop ?q order (reply_stream order (Suc i) ts rs @ spare) = None"
      using Cons t(2) by (intro Cons.IH) auto
    ultimately show ?case by (subst parse_loop.simps) simp
  qed
  from this [OF assms(4), of 0 p] assms show ?thesis by (simp add: packet_parse_control)
qed

theorem parse_hangs_on_spare_bytes_witness:
  "packet_parse (demo_packet\<lparr>pk_transactions := [demo_trans tid_write 1 [9]]\<rparr>)
     (ph_bytes (control_header 3 BigEndian)
      @ reply_stream BigEndian 0 [demo_trans tid_write 1 [9]] [Good []] @ [0]) = None"
  using parse_hangs_on_spare_bytes
    [of BigEndian "demo_packet\<lparr>pk_transactions := [demo_trans tid_write 1 [9]]\<rparr>" "[Good []]" "[0]" 3]
  by (simp add: demo_fields)

text \<open>C27: A reply whose packet type is not control is no answer to the transactions, but
  \<open>parse\<close> stores no response for them: the \<open>send\<close> that follows it panics.\<close>

theorem send_panics_after_non_control:
  assumes "newPacketHeader data = (h, None)" "ph_ptype h \<noteq> control"
    and "pk_transactions p \<noteq> []" "pk_replies p = []"
  shows "\<exists>e. packet_parse p data = Some (Inr (p, e)) \<and> packet_send p = Inl IndexOutOfRange"
  using assms send_loop_short [of "pk_replies p" "pk_transactions p"]
  by (auto simp: packet_parse_def packet_send_def)

theorem send_panics_after_non_control_witness:
  "\<exists>e. packet_parse demo_packet [0x20, 0, 3, 0xf2] = Some (Inr (demo_packet, e)) \<and>
     packet_send demo_packet = Inl IndexOutOfRange"
proof (rule send_panics_after_non_control)
  show "newPacketHeader [0x20, 0, 3, 0xf2]
      = (\<lparr>ph_version = 2, ph_pid = 3, ph_ptype = 2, ph_order = BigEndian\<rparr>, None)"
    by (simp add: newPacketHeader_def packetheader_decode_def)
qed (simp_all add: demo_packet_fields control_def)



end
