(* ===== verification/Target.thy ===== *)
theory Target
  imports Registers Packets
begin

text \<open>
  The client side of a target (\<open>target.go\<close>): the requests that \<open>Read\<close>, \<open>Write\<close>,
  \<open>RMWbits\<close>, \<open>RMWsum\<close>, \<open>ReadB\<close> and \<open>MaskedWrite\<close> enqueue, and \<open>preparepackets\<close>,
  which splits them over packets of the size of an Ethernet frame until they are dispatched.

  The splitting loops run over the last packet of the queue, which they replace by a fresh
  one when it is full.  They need not end (a small \<open>MaxPacketSize\<close> leaves no room), hence
  their option type: \<open>None\<close> is a loop that does not return.
\<close>

subsection \<open>Requests\<close>

record usrrequest =
  ur_typeid :: byte
  ur_nwords :: u64
  ur_addr :: u32
  ur_Input :: "u32 list"
  ur_resp :: chan
  ur_byteslice :: bool
  ur_dispatch :: bool

text \<open>The channel \<open>make(chan Response)\<close> that each call creates and returns is the argument
  \<open>resp\<close>.\<close>

definition Target_Dispatch :: usrrequest where
  "Target_Dispatch =
    \<lparr>ur_typeid = 0, ur_nwords = 0, ur_addr = 0, ur_Input = [], ur_resp = 0,
     ur_byteslice = False, ur_dispatch = True\<rparr>"

definition Target_Read :: "Register \<Rightarrow> u64 \<Rightarrow> chan \<Rightarrow> usrrequest" where
  "Target_Read reg nword resp =
    \<lparr>ur_typeid = (if r_noninc reg then tid_readnoninc else tid_read), ur_nwords = nword,
     ur_addr = r_Addr reg, ur_Input = [], ur_resp = resp, ur_byteslice = False,
     ur_dispatch = False\<rparr>"

definition Target_ReadB :: "Register \<Rightarrow> u64 \<Rightarrow> chan \<Rightarrow> usrrequest" where
  "Target_ReadB reg nword resp =
    \<lparr>ur_typeid = (if r_noninc reg then tid_readnoninc else tid_read), ur_nwords = nword,
     ur_addr = r_Addr reg, ur_Input = [], ur_resp = resp, ur_byteslice = True,
     ur_dispatch = False\<rparr>"

definition Target_Write :: "Register \<Rightarrow> u32 list \<Rightarrow> chan \<Rightarrow> usrrequest" where
  "Target_Write reg data resp =
    \<lparr>ur_typeid = (if r_noninc reg then tid_writenoninc else tid_write),
     ur_nwords = of_nat (length data), ur_addr = r_Addr reg, ur_Input = data, ur_resp = resp,
     ur_byteslice = False, ur_dispatch = False\<rparr>"

definition Target_RMWbits :: "Register \<Rightarrow> u32 \<Rightarrow> u32 \<Rightarrow> chan \<Rightarrow> usrrequest" where
  "Target_RMWbits reg andterm orterm resp =
    \<lparr>ur_typeid = tid_rmwbits, ur_nwords = 1, ur_addr = r_Addr reg,
     ur_Input = [andterm, orterm], ur_resp = resp, ur_byteslice = False, ur_dispatch = False\<rparr>"

definition Target_RMWsum :: "Register \<Rightarrow> u32 \<Rightarrow> chan \<Rightarrow> usrrequest" where
  "Target_RMWsum reg addend resp =
    \<lparr>ur_typeid = tid_rmwsum, ur_nwords = 1, ur_addr = r_Addr reg,
     ur_Input = [addend], ur_resp = resp, ur_byteslice = False, ur_dispatch = False\<rparr>"

text \<open>\<open>MaskedWrite\<close>: an unknown mask is an error and enqueues nothing.\<close>

definition Target_MaskedWrite ::
    "Register \<Rightarrow> string \<Rightarrow> u32 \<Rightarrow> chan \<Rightarrow> go_error + usrrequest" where
  "Target_MaskedWrite reg mask_name v resp =
    (case gomap_get (r_msks reg) mask_name of
       None \<Rightarrow> Inl (NoSuchMask (r_Name reg) mask_name)
     | Some m \<Rightarrow>
         let andterm = 0xffffffff XOR msk_value m;
             orterm = push_bit (msk_shift m) v
         in Inr (Target_RMWbits reg andterm orterm resp))"

subsection \<open>Room in the last packet\<close>

text \<open>
  The queue of packets is the full ones and the last one, \<open>packs[len(packs)-1]\<close>.  Each
  branch of \<open>preparepackets\<close> starts with the same test: where the last packet lacks the
  space, a fresh packet becomes the last one.
\<close>

definition with_room :: "u64 \<Rightarrow> u64 \<Rightarrow> u64 \<Rightarrow> packet list \<times> packet \<Rightarrow> packet list \<times> packet" where
  "with_room maxsize req_need resp_need s =
    (let (packs, p) = s; (reqspace, respspace) = packet_space p in
     if reqspace < req_need \<or> respspace < resp_need
     then (packs @ [p], emptypacket maxsize control) else (packs, p))"

text \<open>The words of one transaction: what the packet has room for, at most the words left
  and at most 255.\<close>

definition chunk_words :: "u64 \<Rightarrow> u64 \<Rightarrow> u64" where
  "chunk_words room nwords =
    (let n = room;
         n = (if n > nwords then nwords else n);
         n = (if n > 255 then 255 else n)
     in n)"

subsection \<open>Splitting a read\<close>

text \<open>
  One round of the read loop.  The state is the full packets, the last packet, the words
  still to read and the address (\<open>req.addr\<close>, which the loop advances).  The error of
  \<open>add\<close> is ignored.
\<close>

type_synonym read_state = "packet list \<times> packet \<times> u64 \<times> u32"

definition read_step :: "u64 \<Rightarrow> usrrequest \<Rightarrow> read_state \<Rightarrow> read_state outcome" where
  "read_step maxsize req s =
    (let (packs, p, nwords, addr) = s;
         (packs, p) = with_room maxsize 2 2 (packs, p);
         (reqspace, respspace) = packet_space p;
         ntoread = chunk_words (respspace - 1) nwords;
         nwords = nwords - ntoread;
         final = (nwords = 0);
         t = newrequesttransaction (ur_typeid req) (ucast ntoread) addr (ur_Input req)
               (ur_resp req) (ur_byteslice req) final;
         addr = (if ur_typeid req = tid_read then addr + ucast ntoread else addr)
     in obind (packet_add p t) (\<lambda>(p, err). Inr (packs, p, nwords, addr)))"

partial_function (option) read_loop ::
    "u64 \<Rightarrow> usrrequest \<Rightarrow> read_state \<Rightarrow> (packet list \<times> packet) outcome option" where
  "read_loop maxsize req s =
    (if fst (snd (snd s)) = 0 then Some (Inr (fst s, fst (snd s)))
     else case read_step maxsize req s of
            Inl e \<Rightarrow> Some (Inl e)
          | Inr s' \<Rightarrow> read_loop maxsize req s')"

declare read_loop.simps [code]

subsection \<open>Splitting a write\<close>

text \<open>As for reads, with the index into the input data; an error of \<open>add\<close> panics.\<close>

type_synonym write_state = "packet list \<times> packet \<times> u64 \<times> u32 \<times> u64"

definition write_step :: "u64 \<Rightarrow> usrrequest \<Rightarrow> write_state \<Rightarrow> write_state outcome" where
  "write_step maxsize req s =
    (let (packs, p, nwords, addr, index) = s;
         (packs, p) = with_room maxsize 3 1 (packs, p);
         (reqspace, respspace) = packet_space p;
         ntowrite = chunk_words (reqspace - 2) nwords;
         nwords = nwords - ntowrite;
         final = (nwords = 0)
     in
       if unat (index + ntowrite) < unat index
          \<or> length (ur_Input req) < unat (index + ntowrite) then Inl SliceOutOfRange
       else
         let input = take (unat (index + ntowrite) - unat index) (drop (unat index) (ur_Input req));
             t = newrequesttransaction (ur_typeid req) (ucast ntowrite) addr input
                   (ur_resp req) (ur_byteslice req) final
         in obind (packet_add p t)
              (\<lambda>(p, err). case err of
                 Some e \<Rightarrow> Inl (PanicError e)
               | None \<Rightarrow>
                   Inr (packs, p, nwords,
                        if ur_typeid req = tid_write then addr + ucast ntowrite else addr,
                        index + ntowrite)))"

partial_function (option) write_loop ::
    "u64 \<Rightarrow> usrrequest \<Rightarrow> write_state \<Rightarrow> (packet list \<times> packet) outcome option" where
  "write_loop maxsize req s =
    (if fst (snd (snd s)) = 0 then Some (Inr (fst s, fst (snd s)))
     else case write_step maxsize req s of
            Inl e \<Rightarrow> Some (Inl e)
          | Inr s' \<Rightarrow> write_loop maxsize req s')"

declare write_loop.simps [code]

subsection \<open>The queue of packets\<close>

text \<open>A read-modify-write goes whole into the last packet or into a fresh one.\<close>

definition add_whole ::
    "u64 \<Rightarrow> packet list \<times> packet \<Rightarrow> u64 \<Rightarrow> u64 \<Rightarrow> transaction \<Rightarrow> (packet list \<times> packet) outcome" where
  "add_whole maxsize s req_need resp_need t =
    (let (packs, p) = with_room maxsize req_need resp_need s
     in obind (packet_add p t) (\<lambda>(p, err). Inr (packs, p)))"

definition prepare_request ::
    "u64 \<Rightarrow> packet list \<Rightarrow> usrrequest \<Rightarrow> packet list outcome option" where
  "prepare_request maxsize packs req =
    (let packs = (if packs = [] then packs @ [emptypacket maxsize control] else packs);
         full = butlast packs; p = last packs;
         unsplit = (\<lambda>r :: (packet list \<times> packet) outcome. map_sum id (\<lambda>(full, p). full @ [p]) r)
     in
       if is_read (ur_typeid req) then
         map_option unsplit (read_loop maxsize req (full, p, ur_nwords req, ur_addr req))
       else if is_write (ur_typeid req) then
         map_option unsplit
           (write_loop maxsize req (full, p, of_nat (length (ur_Input req)), ur_addr req, 0))
       else if ur_typeid req = tid_rmwbits then
         Some (unsplit (add_whole maxsize (full, p) 4 2
           (newrequesttransaction tid_rmwbits 1 (ur_addr req) (ur_Input req) (ur_resp req)
              (ur_byteslice req) True)))
       else if ur_typeid req = tid_rmwsum then
         Some (unsplit (add_whole maxsize (full, p) 3 2
           (newrequesttransaction tid_rmwsum 1 (ur_addr req) (ur_Input req) (ur_resp req)
              (ur_byteslice req) True)))
       else Some (Inr packs))"

text \<open>
  \<open>preparepackets\<close> as a machine: its local variables, with the packets it has put on the
  \<open>incoming\<close> channel of the hardware interface, and one step per case of its \<open>select\<close>.
  Closing the \<open>stop\<close> channel ends it; a value received from it does not.
\<close>

record preparer =
  pr_packs :: "packet list"
  pr_running :: bool
  pr_sent :: "packet list"

datatype prep_event = Requested usrrequest | StopReceived bool

definition init_preparer :: preparer where
  "init_preparer = \<lparr>pr_packs = [], pr_running = True, pr_sent = []\<rparr>"

fun prepare_step :: "u64 \<Rightarrow> preparer \<Rightarrow> prep_event \<Rightarrow> preparer outcome option" where
  "prepare_step maxsize s (Requested req) =
    (if ur_dispatch req then
       Some (Inr (s\<lparr>pr_sent := pr_sent s @ pr_packs s, pr_packs := []\<rparr>))
     else
       map_option (map_sum id (\<lambda>packs. s\<lparr>pr_packs := packs\<rparr>))
         (prepare_request maxsize (pr_packs s) req))"
| "prepare_step maxsize s (StopReceived ok) =
    Some (Inr (if ok then s else s\<lparr>pr_running := False\<rparr>))"

text \<open>The loop \<open>for running\<close> over the events that arrive.\<close>

fun preparepackets :: "u64 \<Rightarrow> preparer \<Rightarrow> prep_event list \<Rightarrow> preparer outcome option" where
  "preparepackets maxsize s [] = Some (Inr s)"
| "preparepackets maxsize s (e # es) =
    (if \<not> pr_running s then Some (Inr s)
     else case prepare_step maxsize s e of
            None \<Rightarrow> None
          | Some (Inl x) \<Rightarrow> Some (Inl x)
          | Some (Inr s') \<Rightarrow> preparepackets maxsize s' es)"

subsection \<open>Waiting for the responses\<close>

text \<open>
  The calls that dispatch at once and then receive: their argument is the list of responses
  that arrive on the channel before it is closed.  \<open>WriteNow\<close> returns at the first error
  without receiving the rest; the second result is the number of responses received.
\<close>

fun WriteNow_receive :: "Response list \<Rightarrow> go_error option \<times> nat" where
  "WriteNow_receive [] = (None, 0)"
| "WriteNow_receive (r # rs) =
    (case rs_Err r of
       Some e \<Rightarrow> (Some e, 1)
     | None \<Rightarrow> let (err, n) = WriteNow_receive rs in (err, n + 1))"

fun ReadNow_receive :: "u32 list \<Rightarrow> Response list \<Rightarrow> u32 list \<times> go_error option" where
  "ReadNow_receive data [] = (data, None)"
| "ReadNow_receive data (r # rs) =
    (let data = data @ (case rs_Data r of None \<Rightarrow> [] | Some ws \<Rightarrow> ws) in
     case rs_Err r of
       Some e \<Rightarrow> (data, Some e)
     | None \<Rightarrow> ReadNow_receive data rs)"

definition MaskedWriteNow_receive :: "Response \<Rightarrow> (u32 \<times> go_error option) outcome" where
  "MaskedWriteNow_receive r =
    (case rs_Err r of
       Some e \<Rightarrow> Inr (0, Some e)
     | None \<Rightarrow>
         (case rs_Data r of
            Some (w # ws) \<Rightarrow> Inr (w, None)
          | _ \<Rightarrow> Inl IndexOutOfRange))"

definition MaskedReadNow_receive ::
    "Register \<Rightarrow> string \<Rightarrow> Response list \<Rightarrow> (u32 \<times> go_error option) outcome" where
  "MaskedReadNow_receive reg mask_name rs =
    (case ReadNow_receive [] rs of
       (data, Some e) \<Rightarrow> Inr (0, Some e)
     | ([], None) \<Rightarrow> Inl IndexOutOfRange
     | (w # ws, None) \<Rightarrow> Inr (ReadMask reg mask_name w))"

subsection \<open>Well-formed queues\<close>

definition all_trans :: "packet list \<Rightarrow> transaction list" where
  "all_trans packs = concat (map pk_transactions packs)"

lemma all_trans_simps [simp]:
  "all_trans [] = []" "all_trans (p # ps) = pk_transactions p @ all_trans ps"
  "all_trans (ps @ qs) = all_trans ps @ all_trans qs"
  by (simp_all add: all_trans_def)

definition pack_ok :: "u64 \<Rightarrow> packet \<Rightarrow> bool" where
  "pack_ok maxsize p \<longleftrightarrow> packet_inv p
     \<and> pk_reqcap p = (maxsize - 28) div 4 \<and> pk_respcap p = (maxsize - 28) div 4
     \<and> pk_header p = pk_header (emptypacket maxsize control) \<and> pk_replies p = []"

lemma pack_ok_empty:
  assumes "48 \<le> maxsize"
  shows "pack_ok maxsize (emptypacket maxsize control)" "4 \<le> reqroom (emptypacket maxsize control)"
    "4 \<le> resproom (emptypacket maxsize control)"
    "pk_transactions (emptypacket maxsize control) = []"
proof -
  have m: "32 \<le> maxsize" using assms by (rule order_trans [rotated]) simp
  have "(48 - 28) div 4 - 1 \<le> (unat maxsize - 28) div 4 - 1"
    using assms by (intro diff_le_mono div_le_mono) (simp add: word_le_nat_alt)
  then show "4 \<le> reqroom (emptypacket maxsize control)"
      "4 \<le> resproom (emptypacket maxsize control)"
    by (simp_all add: emptypacket_inv [OF m])
  show "pack_ok maxsize (emptypacket maxsize control)"
    using emptypacket_inv(1) [OF m] by (simp add: pack_ok_def emptypacket_def Let_def)
  show "pk_transactions (emptypacket maxsize control) = []"
    by (simp add: emptypacket_def Let_def)
qed

lemma pack_ok_add:
  assumes ok: "pack_ok maxsize p" and fits: "fits p t"
  shows "\<exists>p'. packet_add p t = Inr (p', None) \<and> pack_ok maxsize p'
    \<and> pk_transactions p' = pk_transactions p @ [numbered p t]"
proof -
  have order: "ph_order (pk_header p) \<noteq> NilOrder"
    using ok by (auto simp: pack_ok_def packet_inv_def)
  note add = packet_add_fits [OF fits order]
  with packet_add_inv [OF _ fits add] ok show ?thesis by (simp add: pack_ok_def)
qed

text \<open>With room for the needs, and the same transactions in the queue.\<close>

lemma with_room_ok:
  assumes "48 \<le> maxsize" "\<forall>q \<in> set (packs @ [p]). pack_ok maxsize q"
    "unat req_need \<le> 4" "unat resp_need \<le> 4"
    and w: "with_room maxsize req_need resp_need (packs, p) = (packs', p')"
  shows "\<forall>q \<in> set (packs' @ [p']). pack_ok maxsize q"
    "unat req_need \<le> reqroom p'" "unat resp_need \<le> resproom p'"
    "all_trans (packs' @ [p']) = all_trans (packs @ [p])"
proof -
  let ?e = "emptypacket maxsize control"
  have "packs' = packs \<and> p' = p \<and> unat req_need \<le> reqroom p \<and> unat resp_need \<le> resproom p
      \<or> packs' = packs @ [p] \<and> p' = ?e"
    using w by (auto simp: with_room_def case_prod_beta space_less not_less split: if_splits)
  then show "\<forall>q \<in> set (packs' @ [p']). pack_ok maxsize q"
    "unat req_need \<le> reqroom p'" "unat resp_need \<le> resproom p'"
    "all_trans (packs' @ [p']) = all_trans (packs @ [p])"
    using assms(2-4) pack_ok_empty [OF assms(1)] by auto
qed

text \<open>The addresses a transaction reads or writes, in order.\<close>

definition span :: "bool \<Rightarrow> u32 \<Rightarrow> nat \<Rightarrow> u32 list" where
  "span incr a n = (if incr then map (\<lambda>i. a + of_nat i) [0..<n] else replicate n a)"

lemma length_span [simp]: "length (span incr a n) = n"
  by (simp add: span_def)

lemma span_0 [simp]: "span incr a 0 = []"
  by (simp add: span_def)

lemma span_add: "span incr a (m + n) = span incr a m @ span incr (if incr then a + of_nat m else a) n"
  by (rule nth_equalityI) (auto simp: span_def nth_append replicate_add algebra_simps
      nth_replicate of_nat_diff)

definition addresses :: "transaction \<Rightarrow> u32 list" where
  "addresses t =
    span (th_tid (t_outheader t) = tid_read \<or> th_tid (t_outheader t) = tid_write)
      (t_Addr t) (unat (th_words (t_outheader t)))"

text \<open>A run of transactions of one request: their type and channel, none empty, and the
  channel closed by the last one only.\<close>

definition part_of :: "usrrequest \<Rightarrow> transaction \<Rightarrow> bool" where
  "part_of req t \<longleftrightarrow> th_tid (t_outheader t) = ur_typeid req \<and> t_resp t = ur_resp req
     \<and> t_byteslice t = ur_byteslice req \<and> 0 < unat (th_words (t_outheader t))
     \<and> th_version (t_outheader t) = 2 \<and> th_code (t_outheader t) = Request"

definition close_last :: "transaction list \<Rightarrow> bool" where
  "close_last ts \<longleftrightarrow> map t_closechan ts = replicate (length ts - 1) False @ (if ts = [] then [] else [True])"

lemma close_last_Cons:
  "close_last (t # ts) \<longleftrightarrow> (if ts = [] then t_closechan t else \<not> t_closechan t \<and> close_last ts)"
  by (cases ts) (auto simp: close_last_def)

definition read_parts :: "usrrequest \<Rightarrow> u32 \<Rightarrow> nat \<Rightarrow> transaction list \<Rightarrow> bool" where
  "read_parts req addr n ts \<longleftrightarrow>
     concat (map addresses ts) = span (ur_typeid req = tid_read) addr n
   \<and> (\<forall>t \<in> set ts. part_of req t \<and> t_Input t = []) \<and> close_last ts"

lemma unat_chunk_words: "unat (chunk_words x n) = min (min (unat x) (unat n)) 255"
  by (auto simp: chunk_words_def Let_def word_less_nat_alt)

lemma fits_read:
  assumes "is_read tid" "k < 256" "2 \<le> reqroom p" "1 + k \<le> resproom p"
  shows "fits p (newrequesttransaction tid (of_nat k) addr [] resp b final)"
  using assms
  by (simp add: fits_def trans_ok_def newrequesttransaction_def req_words_def resp_words_def
      unat_of_nat)

lemma read_step_ok:
  assumes big: "48 \<le> maxsize" and ok: "\<forall>q \<in> set (packs @ [p]). pack_ok maxsize q"
    and n: "0 < unat nwords" and req: "is_read (ur_typeid req)" "ur_Input req = []"
  obtains packs' p' nwords' addr' t where
    "read_step maxsize req (packs, p, nwords, addr) = Inr (packs', p', nwords', addr')"
    "\<forall>q \<in> set (packs' @ [p']). pack_ok maxsize q"
    "all_trans (packs' @ [p']) = all_trans (packs @ [p]) @ [t]"
    "part_of req t" "t_Input t = []"
    "unat nwords = length (addresses t) + unat nwords'"
    "addresses t = span (ur_typeid req = tid_read) addr (length (addresses t))"
    "addr' = (if ur_typeid req = tid_read then addr + of_nat (length (addresses t)) else addr)"
    "t_closechan t = (unat nwords' = 0)"
proof -
  obtain packs1 p1 where w: "with_room maxsize 2 2 (packs, p) = (packs1, p1)" by force
  note room = with_room_ok [OF big ok _ _ w, simplified]
  let ?c = "chunk_words (snd (packet_space p1) - 1) nwords"
  define k where "k = unat ?c"
  have "unat (snd (packet_space p1) - 1) = resproom p1 - 1"
    using room(3) by (simp add: resproom_def unat_sub word_le_nat_alt)
  then have k: "k = min (min (resproom p1 - 1) (unat nwords)) 255"
    by (simp add: k_def unat_chunk_words)
  have k_bounds: "0 < k" "k \<le> unat nwords" "k < 256" "1 + k \<le> resproom p1"
    using k n room(3) by auto
  have c8: "(ucast ?c :: byte) = of_nat k" and c32: "(ucast ?c :: u32) = of_nat k"
    by (simp_all add: k_def unsigned_ucast_eq)
  have left: "unat (nwords - ?c) = unat nwords - k"
    using k_bounds(2) by (simp add: k_def unat_sub word_le_nat_alt)
  let ?t = "newrequesttransaction (ur_typeid req) (of_nat k) addr [] (ur_resp req)
      (ur_byteslice req) (nwords - ?c = 0)"
  have "fits p1 ?t" using req k_bounds room(2) by (intro fits_read) auto
  then obtain p' where p': "packet_add p1 ?t = Inr (p', None)" "pack_ok maxsize p'"
      "pk_transactions p' = pk_transactions p1 @ [numbered p1 ?t]"
    using pack_ok_add room(1) by force
  let ?n = "numbered p1 ?t"
  have len: "unat (th_words (t_outheader ?n)) = k"
    using k_bounds by (simp add: numbered_def newrequesttransaction_def unat_of_nat)
  have "ur_typeid req \<noteq> tid_write" using req by auto
  then have addr: "addresses ?n = span (ur_typeid req = tid_read) addr k"
    unfolding addresses_def len by (simp add: numbered_def newrequesttransaction_def)
  have step: "read_step maxsize req (packs, p, nwords, addr) =
      Inr (packs1, p', nwords - ?c, if ur_typeid req = tid_read then addr + of_nat k else addr)"
    using p'(1) req(2) by (simp add: read_step_def w case_prod_beta Let_def c8 c32)
  have "part_of req ?n" using k_bounds(1) len
    by (simp add: part_of_def) (simp add: numbered_def newrequesttransaction_def)
  moreover have "t_Input ?n = []" "t_closechan ?n = (unat (nwords - ?c) = 0)"
    by (simp_all add: numbered_def newrequesttransaction_def unat_eq_0)
  ultimately show thesis
    using step p' room left addr k_bounds(2) by (intro that [of packs1 p' "nwords - ?c" _ ?n]) auto
qed

lemma read_loop_ok:
  assumes big: "48 \<le> maxsize" and req: "is_read (ur_typeid req)" "ur_Input req = []"
  shows "\<forall>q \<in> set (packs @ [p]). pack_ok maxsize q \<Longrightarrow>
    \<exists>packs' p' ts. read_loop maxsize req (packs, p, nwords, addr) = Some (Inr (packs', p'))
      \<and> (\<forall>q \<in> set (packs' @ [p']). pack_ok maxsize q)
      \<and> all_trans (packs' @ [p']) = all_trans (packs @ [p]) @ ts
      \<and> read_parts req addr (unat nwords) ts \<and> (ts = [] \<longleftrightarrow> nwords = 0)"
proof (induction "unat nwords" arbitrary: packs p nwords addr rule: less_induct)
  case less
  show ?case
  proof (cases "nwords = 0")
    case True
    then show ?thesis using less.prems
      by (intro exI [of _ packs] exI [of _ p] exI [of _ "[]"])
        (simp add: read_loop.simps read_parts_def close_last_def)
  next
    case False
    then have n: "0 < unat nwords" by (simp add: unat_gt_0)
    obtain packs1 p1 n1 addr1 t where step:
        "read_step maxsize req (packs, p, nwords, addr) = Inr (packs1, p1, n1, addr1)"
      and ok1: "\<forall>q \<in> set (packs1 @ [p1]). pack_ok maxsize q"
      and tr1: "all_trans (packs1 @ [p1]) = all_trans (packs @ [p]) @ [t]"
      and t: "part_of req t" "t_Input t = []" "unat nwords = length (addresses t) + unat n1"
        "addresses t = span (ur_typeid req = tid_read) addr (length (addresses t))"
        "addr1 = (if ur_typeid req = tid_read then addr + of_nat (length (addresses t)) else addr)"
        "t_closechan t = (unat n1 = 0)"
      by (rule read_step_ok [OF big less.prems n req, of addr])
    have "0 < length (addresses t)" using t(1) by (simp add: part_of_def addresses_def)
    then have "unat n1 < unat nwords" using t(3) by simp
    from less.hyps [OF this ok1, of addr1] obtain packs' p' ts where ih:
        "read_loop maxsize req (packs1, p1, n1, addr1) = Some (Inr (packs', p'))"
        "\<forall>q \<in> set (packs' @ [p']). pack_ok maxsize q"
        "all_trans (packs' @ [p']) = all_trans (packs1 @ [p1]) @ ts"
        "read_parts req addr1 (unat n1) ts" "ts = [] \<longleftrightarrow> n1 = 0"
      by blast
    have "read_loop maxsize req (packs, p, nwords, addr) = Some (Inr (packs', p'))"
      using False ih(1) by (subst read_loop.simps) (simp add: step)
    moreover have "read_parts req addr (unat nwords) (t # ts)"
      using ih(4,5) t span_add [of "ur_typeid req = tid_read" addr "length (addresses t)" "unat n1"]
      by (auto simp: read_parts_def close_last_Cons unat_eq_0)
    ultimately show ?thesis
      using False ih tr1 by (intro exI [of _ packs'] exI [of _ p'] exI [of _ "t # ts"]) simp
  qed
qed

subsection \<open>Writes\<close>

definition write_parts :: "usrrequest \<Rightarrow> u32 \<Rightarrow> u32 list \<Rightarrow> transaction list \<Rightarrow> bool" where
  "write_parts req addr data ts \<longleftrightarrow>
     concat (map addresses ts) = span (ur_typeid req = tid_write) addr (length data)
   \<and> concat (map t_Input ts) = data
   \<and> (\<forall>t \<in> set ts. part_of req t \<and> length (t_Input t) = length (addresses t)) \<and> close_last ts"

lemma fits_write:
  assumes "is_write tid" "length ws = k" "k < 256" "k + 2 \<le> reqroom p" "1 \<le> resproom p"
  shows "fits p (newrequesttransaction tid (of_nat k) addr ws resp b final)"
  using assms
  by (simp add: fits_def trans_ok_def newrequesttransaction_def req_words_def resp_words_def
      unat_of_nat Let_def)

lemma write_step_ok:
  assumes big: "48 \<le> maxsize" and ok: "\<forall>q \<in> set (packs @ [p]). pack_ok maxsize q"
    and n: "0 < unat nwords" and req: "is_write (ur_typeid req)"
    and idx: "unat index + unat nwords = length (ur_Input req)" "length (ur_Input req) < 2 ^ 64"
  obtains packs' p' nwords' addr' index' t where
    "write_step maxsize req (packs, p, nwords, addr, index) = Inr (packs', p', nwords', addr', index')"
    "\<forall>q \<in> set (packs' @ [p']). pack_ok maxsize q"
    "all_trans (packs' @ [p']) = all_trans (packs @ [p]) @ [t]"
    "part_of req t" "length (t_Input t) = length (addresses t)"
    "unat nwords = length (addresses t) + unat nwords'"
    "unat index' = unat index + length (addresses t)"
    "t_Input t = take (length (addresses t)) (drop (unat index) (ur_Input req))"
    "addresses t = span (ur_typeid req = tid_write) addr (length (addresses t))"
    "addr' = (if ur_typeid req = tid_write then addr + of_nat (length (addresses t)) else addr)"
    "t_closechan t = (unat nwords' = 0)"
proof -
  obtain packs1 p1 where w: "with_room maxsize 3 1 (packs, p) = (packs1, p1)" by force
  note room = with_room_ok [OF big ok _ _ w, simplified]
  let ?c = "chunk_words (fst (packet_space p1) - 2) nwords"
  define k where "k = unat ?c"
  have "unat (fst (packet_space p1) - 2) = reqroom p1 - 2"
    using room(2) by (simp add: reqroom_def unat_sub word_le_nat_alt)
  then have k: "k = min (min (reqroom p1 - 2) (unat nwords)) 255"
    by (simp add: k_def unat_chunk_words)
  have k_bounds: "0 < k" "k \<le> unat nwords" "k < 256" "k + 2 \<le> reqroom p1"
    using k n room(2) by auto
  have c8: "(ucast ?c :: byte) = of_nat k" and c32: "(ucast ?c :: u32) = of_nat k"
    by (simp_all add: k_def unsigned_ucast_eq)
  have left: "unat (nwords - ?c) = unat nwords - k"
    using k_bounds(2) by (simp add: k_def unat_sub word_le_nat_alt)
  have next_index: "unat (index + ?c) = unat index + k"
    using idx k_bounds(2) by (simp add: unat_word_ariths flip: k_def)
  let ?ws = "take k (drop (unat index) (ur_Input req))"
  have ws: "length ?ws = k" using idx k_bounds(2) by simp
  let ?t = "newrequesttransaction (ur_typeid req) (of_nat k) addr ?ws (ur_resp req)
      (ur_byteslice req) (nwords - ?c = 0)"
  have "fits p1 ?t" using req k_bounds room(3) ws by (intro fits_write) auto
  then obtain p' where p': "packet_add p1 ?t = Inr (p', None)" "pack_ok maxsize p'"
      "pk_transactions p' = pk_transactions p1 @ [numbered p1 ?t]"
    using pack_ok_add room(1) by force
  let ?n = "numbered p1 ?t"
  have len: "unat (th_words (t_outheader ?n)) = k"
    using k_bounds by (simp add: numbered_def newrequesttransaction_def unat_of_nat)
  have "ur_typeid req \<noteq> tid_read" using req by auto
  then have addr: "addresses ?n = span (ur_typeid req = tid_write) addr k"
    unfolding addresses_def len by (simp add: numbered_def newrequesttransaction_def)
  have step: "write_step maxsize req (packs, p, nwords, addr, index) =
      Inr (packs1, p', nwords - ?c,
           if ur_typeid req = tid_write then addr + of_nat k else addr, index + ?c)"
    using p'(1) idx k_bounds(2)
    by (simp add: write_step_def w case_prod_beta Let_def c8 c32 next_index)
  have "part_of req ?n" using k_bounds(1) len
    by (simp add: part_of_def) (simp add: numbered_def newrequesttransaction_def)
  moreover have "t_Input ?n = ?ws" "t_closechan ?n = (unat (nwords - ?c) = 0)"
    by (simp_all add: numbered_def newrequesttransaction_def unat_eq_0)
  ultimately show thesis
    using step p' room left addr k_bounds(2) ws next_index
    by (intro that [of packs1 p' "nwords - ?c" _ "index + ?c" ?n]) auto
qed

lemma write_loop_ok:
  assumes big: "48 \<le> maxsize" and req: "is_write (ur_typeid req)" "length (ur_Input req) < 2 ^ 64"
  shows "\<forall>q \<in> set (packs @ [p]). pack_ok maxsize q \<Longrightarrow>
      unat index + unat nwords = length (ur_Input req) \<Longrightarrow>
    \<exists>packs' p' ts. write_loop maxsize req (packs, p, nwords, addr, index) = Some (Inr (packs', p'))
      \<and> (\<forall>q \<in> set (packs' @ [p']). pack_ok maxsize q)
      \<and> all_trans (packs' @ [p']) = all_trans (packs @ [p]) @ ts
      \<and> write_parts req addr (drop (unat index) (ur_Input req)) ts \<and> (ts = [] \<longleftrightarrow> nwords = 0)"
proof (induction "unat nwords" arbitrary: packs p nwords addr index rule: less_induct)
  case less
  show ?case
  proof (cases "nwords = 0")
    case True
    then show ?thesis using less.prems
      by (intro exI [of _ packs] exI [of _ p] exI [of _ "[]"])
        (simp add: write_loop.simps write_parts_def close_last_def)
  next
    case False
    then have n: "0 < unat nwords" by (simp add: unat_gt_0)
    obtain packs1 p1 n1 addr1 index1 t where step:
        "write_step maxsize req (packs, p, nwords, addr, index) = Inr (packs1, p1, n1, addr1, index1)"
      and ok1: "\<forall>q \<in> set (packs1 @ [p1]). pack_ok maxsize q"
      and tr1: "all_trans (packs1 @ [p1]) = all_trans (packs @ [p]) @ [t]"
      and t: "part_of req t" "length (t_Input t) = length (addresses t)"
        "unat nwords = length (addresses t) + unat n1"
        "unat index1 = unat index + length (addresses t)"
        "t_Input t = take (length (addresses t)) (drop (unat index) (ur_Input req))"
        "addresses t = span (ur_typeid req = tid_write) addr (length (addresses t))"
        "addr1 = (if ur_typeid req = tid_write then addr + of_nat (length (addresses t)) else addr)"
        "t_closechan t = (unat n1 = 0)"
      by (rule write_step_ok [OF big less.prems(1) n req(1) less.prems(2) req(2), of addr])
    have "0 < length (addresses t)" using t(1) by (simp add: part_of_def addresses_def)
    then have "unat n1 < unat nwords" using t(3) by simp
    moreover have idx1: "unat index1 + unat n1 = length (ur_Input req)"
      using t(3,4) less.prems(2) by simp
    ultimately obtain packs' p' ts where ih:
        "write_loop maxsize req (packs1, p1, n1, addr1, index1) = Some (Inr (packs', p'))"
        "\<forall>q \<in> set (packs' @ [p']). pack_ok maxsize q"
        "all_trans (packs' @ [p']) = all_trans (packs1 @ [p1]) @ ts"
        "write_parts req addr1 (drop (unat index1) (ur_Input req)) ts" "ts = [] \<longleftrightarrow> n1 = 0"
      using less.hyps [OF _ ok1] by blast
    have "write_loop maxsize req (packs, p, nwords, addr, index) = Some (Inr (packs', p'))"
      using False ih(1) by (subst write_loop.simps) (simp add: step)
    moreover have data: "drop (unat index) (ur_Input req) = t_Input t @ drop (unat index1) (ur_Input req)"
      unfolding t(4,5) by (metis append_take_drop_id drop_drop add.commute)
    have "write_parts req addr (drop (unat index) (ur_Input req)) (t # ts)"
      using ih(4,5) t(1,2,6,7,8) span_add [of "ur_typeid req = tid_write" addr "length (addresses t)"]
      unfolding data by (auto simp: write_parts_def close_last_Cons unat_eq_0)
    ultimately show ?thesis
      using False ih tr1 by (intro exI [of _ packs'] exI [of _ p'] exI [of _ "t # ts"]) simp
  qed
qed

subsection \<open>Read-modify-writes\<close>

definition rmw_parts :: "usrrequest \<Rightarrow> transaction list \<Rightarrow> bool" where
  "rmw_parts req ts \<longleftrightarrow>
    (\<exists>t. ts = [t] \<and> part_of req t \<and> t_Addr t = ur_addr req \<and> t_Input t = ur_Input req
       \<and> th_words (t_outheader t) = 1 \<and> t_closechan t)"

lemma add_whole_ok:
  assumes "48 \<le> maxsize" "\<forall>q \<in> set (packs @ [p]). pack_ok maxsize q"
    "unat req_need \<le> 4" "unat resp_need \<le> 4"
    "trans_ok t" "req_words t \<le> unat req_need" "resp_words t \<le> unat resp_need"
  obtains packs' p' where "add_whole maxsize (packs, p) req_need resp_need t = Inr (packs', p')"
    "\<forall>q \<in> set (packs' @ [p']). pack_ok maxsize q"
    "\<exists>i. all_trans (packs' @ [p']) =
       all_trans (packs @ [p]) @ [t\<lparr>t_outheader := (t_outheader t)\<lparr>th_id := i\<rparr>\<rparr>]"
proof -
  obtain packs1 p1 where w: "with_room maxsize req_need resp_need (packs, p) = (packs1, p1)" by force
  note room = with_room_ok [OF assms(1-4) w]
  have "fits p1 t" using assms(5-7) room(2,3) by (simp add: fits_def)
  then obtain p' where "packet_add p1 t = Inr (p', None)" "pack_ok maxsize p'"
      "pk_transactions p' = pk_transactions p1 @ [numbered p1 t]"
    using pack_ok_add room(1) by force
  with room show thesis
    by (intro that [of packs1 p']) (auto simp: add_whole_def w numbered_def)
qed

subsection \<open>One request\<close>

text \<open>The requests of the interface: \<open>Target.Read\<close> and the others.\<close>

definition api_request :: "usrrequest \<Rightarrow> bool" where
  "api_request req \<longleftrightarrow>
     is_read (ur_typeid req) \<and> ur_Input req = []
   \<or> is_write (ur_typeid req) \<and> length (ur_Input req) < 2 ^ 64
   \<or> ur_typeid req = tid_rmwbits \<and> length (ur_Input req) = 2
   \<or> ur_typeid req = tid_rmwsum \<and> length (ur_Input req) = 1"

text \<open>The transactions that serve a request.\<close>

definition request_parts :: "usrrequest \<Rightarrow> transaction list \<Rightarrow> bool" where
  "request_parts req ts \<longleftrightarrow>
    (if is_read (ur_typeid req) then read_parts req (ur_addr req) (unat (ur_nwords req)) ts
     else if is_write (ur_typeid req) then write_parts req (ur_addr req) (ur_Input req) ts
     else rmw_parts req ts)"

definition queue_ok :: "u64 \<Rightarrow> packet list \<Rightarrow> bool" where
  "queue_ok maxsize packs \<longleftrightarrow> (\<forall>p \<in> set packs. pack_ok maxsize p)"

lemma queue_start:
  assumes big: "48 \<le> maxsize" and ok: "queue_ok maxsize packs"
  obtains full p where
    "(if packs = [] then packs @ [emptypacket maxsize control] else packs) = full @ [p]"
    "\<forall>q \<in> set (full @ [p]). pack_ok maxsize q" "all_trans (full @ [p]) = all_trans packs"
proof (cases packs rule: rev_cases)
  case Nil
  with pack_ok_empty [OF big] show thesis by (intro that [of "[]"]) auto
next
  case (snoc full p)
  with ok show thesis by (intro that [of full p]) (auto simp: queue_ok_def)
qed

lemma prepare_request_ok:
  assumes big: "48 \<le> maxsize" and ok: "queue_ok maxsize packs" and req: "api_request req"
  obtains packs' ts where "prepare_request maxsize packs req = Some (Inr packs')"
    "queue_ok maxsize packs'" "all_trans packs' = all_trans packs @ ts" "request_parts req ts"
proof -
  obtain full p where
    start: "(if packs = [] then packs @ [emptypacket maxsize control] else packs) = full @ [p]"
    and ok1: "\<forall>q \<in> set (full @ [p]). pack_ok maxsize q"
    and tr1: "all_trans (full @ [p]) = all_trans packs"
    using queue_start [OF big ok] .
  consider (rd) "is_read (ur_typeid req)" "ur_Input req = []"
    | (wr) "is_write (ur_typeid req)" "length (ur_Input req) < 2 ^ 64"
    | (bits) "ur_typeid req = tid_rmwbits" "length (ur_Input req) = 2"
    | (sum) "ur_typeid req = tid_rmwsum" "length (ur_Input req) = 1"
    using req by (auto simp: api_request_def)
  then show thesis
  proof cases
    case rd
    from read_loop_ok [OF big rd ok1, of "ur_nwords req" "ur_addr req"] obtain packs' p' ts where
      "read_loop maxsize req (full, p, ur_nwords req, ur_addr req) = Some (Inr (packs', p'))"
      "\<forall>q \<in> set (packs' @ [p']). pack_ok maxsize q"
      "all_trans (packs' @ [p']) = all_trans (full @ [p]) @ ts"
      "read_parts req (ur_addr req) (unat (ur_nwords req)) ts"
      by blast
    with rd tr1 show thesis
      by (intro that [of "packs' @ [p']" ts])
        (simp_all add: prepare_request_def start Let_def queue_ok_def request_parts_def)
  next
    case wr
    have len: "unat (0 :: u64) + unat (of_nat (length (ur_Input req)) :: u64) = length (ur_Input req)"
      using wr(2) by (simp add: unat_of_nat)
    from write_loop_ok [OF big wr ok1 len, of "ur_addr req"] obtain packs' p' ts where
      "write_loop maxsize req (full, p, of_nat (length (ur_Input req)), ur_addr req, 0)
         = Some (Inr (packs', p'))"
      "\<forall>q \<in> set (packs' @ [p']). pack_ok maxsize q"
      "all_trans (packs' @ [p']) = all_trans (full @ [p]) @ ts"
      "write_parts req (ur_addr req) (ur_Input req) ts"
      by auto
    with wr tr1 show thesis
      by (intro that [of "packs' @ [p']" ts])
        (simp_all add: prepare_request_def start Let_def queue_ok_def request_parts_def)
  next
    case bits
    let ?t = "newrequesttransaction tid_rmwbits 1 (ur_addr req) (ur_Input req) (ur_resp req)
              (ur_byteslice req) True"
    have t: "trans_ok ?t" "req_words ?t \<le> unat (4 :: u64)" "resp_words ?t \<le> unat (2 :: u64)"
      using bits by (simp_all add: trans_ok_def newrequesttransaction_def req_words_def
          resp_words_def Let_def)
    obtain packs' p' where w: "add_whole maxsize (full, p) 4 2 ?t = Inr (packs', p')"
      "\<forall>q \<in> set (packs' @ [p']). pack_ok maxsize q"
      "\<exists>i. all_trans (packs' @ [p']) = all_trans (full @ [p])
             @ [?t\<lparr>t_outheader := (t_outheader ?t)\<lparr>th_id := i\<rparr>\<rparr>]"
      by (rule add_whole_ok [OF big ok1 _ _ t]) simp_all
    then obtain i where "all_trans (packs' @ [p']) = all_trans (full @ [p])
             @ [?t\<lparr>t_outheader := (t_outheader ?t)\<lparr>th_id := i\<rparr>\<rparr>]" by blast
    with w bits tr1 show thesis
      by (intro that [of "packs' @ [p']" "[?t\<lparr>t_outheader := (t_outheader ?t)\<lparr>th_id := i\<rparr>\<rparr>]"])
        (simp_all add: prepare_request_def start Let_def queue_ok_def request_parts_def
          rmw_parts_def part_of_def newrequesttransaction_def)
  next
    case sum
    let ?t = "newrequesttransaction tid_rmwsum 1 (ur_addr req) (ur_Input req) (ur_resp req)
              (ur_byteslice req) True"
    have t: "trans_ok ?t" "req_words ?t \<le> unat (3 :: u64)" "resp_words ?t \<le> unat (2 :: u64)"
      using sum by (simp_all add: trans_ok_def newrequesttransaction_def req_words_def
          resp_words_def Let_def)
    obtain packs' p' where w: "add_whole maxsize (full, p) 3 2 ?t = Inr (packs', p')"
      "\<forall>q \<in> set (packs' @ [p']). pack_ok maxsize q"
      "\<exists>i. all_trans (packs' @ [p']) = all_trans (full @ [p])
             @ [?t\<lparr>t_outheader := (t_outheader ?t)\<lparr>th_id := i\<rparr>\<rparr>]"
      by (rule add_whole_ok [OF big ok1 _ _ t]) simp_all
    then obtain i where "all_trans (packs' @ [p']) = all_trans (full @ [p])
             @ [?t\<lparr>t_outheader := (t_outheader ?t)\<lparr>th_id := i\<rparr>\<rparr>]" by blast
    with w sum tr1 show thesis
      by (intro that [of "packs' @ [p']" "[?t\<lparr>t_outheader := (t_outheader ?t)\<lparr>th_id := i\<rparr>\<rparr>]"])
        (simp_all add: prepare_request_def start Let_def queue_ok_def request_parts_def
          rmw_parts_def part_of_def newrequesttransaction_def)
  qed
qed

subsection \<open>A run of \<open>preparepackets\<close>\<close>

definition prep_ok :: "u64 \<Rightarrow> preparer \<Rightarrow> bool" where
  "prep_ok maxsize s \<longleftrightarrow> queue_ok maxsize (pr_packs s) \<and> queue_ok maxsize (pr_sent s)"

fun client_event :: "prep_event \<Rightarrow> bool" where
  "client_event (Requested req) \<longleftrightarrow> ur_dispatch req \<or> api_request req"
| "client_event (StopReceived ok) \<longleftrightarrow> ok"

fun requests_of :: "prep_event list \<Rightarrow> usrrequest list" where
  "requests_of [] = []"
| "requests_of (Requested req # es) =
     (if ur_dispatch req then requests_of es else req # requests_of es)"
| "requests_of (StopReceived ok # es) = requests_of es"

lemma preparepackets_ok:
  assumes big: "48 \<le> maxsize"
  shows "prep_ok maxsize s \<Longrightarrow> pr_running s \<Longrightarrow> \<forall>e \<in> set es. client_event e \<Longrightarrow>
    \<exists>s' tss. preparepackets maxsize s es = Some (Inr s') \<and> prep_ok maxsize s' \<and> pr_running s'
      \<and> list_all2 request_parts (requests_of es) tss
      \<and> all_trans (pr_sent s' @ pr_packs s') = all_trans (pr_sent s @ pr_packs s) @ concat tss"
proof (induction es arbitrary: s)
  case Nil
  then show ?case by (intro exI [of _ s] exI [of _ "[]"]) simp
next
  case (Cons e es)
  show ?case
  proof (cases e)
    case (StopReceived ok)
    with Cons show ?thesis by simp
  next
    case (Requested req)
    show ?thesis
    proof (cases "ur_dispatch req")
      case True
      let ?s = "s\<lparr>pr_sent := pr_sent s @ pr_packs s, pr_packs := []\<rparr>"
      have "prep_ok maxsize ?s" using Cons.prems(1) by (auto simp: prep_ok_def queue_ok_def)
      with Cons.IH [of ?s] Cons.prems show ?thesis by (simp add: Requested True)
    next
      case False
      have "queue_ok maxsize (pr_packs s)" "api_request req"
        using Cons.prems False by (auto simp: prep_ok_def Requested)
      from prepare_request_ok [OF big this] obtain packs' ts where p:
        "prepare_request maxsize (pr_packs s) req = Some (Inr packs')" "queue_ok maxsize packs'"
        "all_trans packs' = all_trans (pr_packs s) @ ts" "request_parts req ts" .
      let ?s = "s\<lparr>pr_packs := packs'\<rparr>"
      have "prep_ok maxsize ?s" using Cons.prems(1) p(2) by (simp add: prep_ok_def)
      with Cons.IH [of ?s] Cons.prems obtain s' tss where
        "preparepackets maxsize ?s es = Some (Inr s')" "prep_ok maxsize s'" "pr_running s'"
        "list_all2 request_parts (requests_of es) tss"
        "all_trans (pr_sent s' @ pr_packs s') = all_trans (pr_sent ?s @ pr_packs ?s) @ concat tss"
        by auto
      with p Cons.prems(2) show ?thesis
        by (intro exI [of _ s'] exI [of _ "ts # tss"]) (simp add: Requested False)
    qed
  qed
qed

lemma preparepackets_append:
  "preparepackets maxsize s es = Some (Inr s') \<Longrightarrow> pr_running s' \<Longrightarrow>
     preparepackets maxsize s (es @ fs) = preparepackets maxsize s' fs"
proof (induction es arbitrary: s)
  case (Cons e es)
  show ?case
  proof (cases "pr_running s")
    case True
    with Cons show ?thesis by (auto split: option.splits sum.splits)
  next
    case False
    with Cons.prems show ?thesis by auto
  qed
qed simp

lemma pack_ok_fits:
  assumes "pack_ok maxsize p" "28 \<le> maxsize"
  shows "28 + length (pk_request p) \<le> unat maxsize"
proof -
  have "pk_reqlen p \<le> (maxsize - 28) div 4" "packet_inv p"
    using assms(1) by (auto simp: pack_ok_def packet_inv_def)
  then show ?thesis using words_bound [OF assms(2)] by (simp add: length_request)
qed

lemma init_preparer_ok: "prep_ok maxsize init_preparer" "pr_running init_preparer"
  "pr_sent init_preparer = []" "pr_packs init_preparer = []"
  by (simp_all add: init_preparer_def prep_ok_def queue_ok_def)

lemma dispatched_run:
  assumes big: "48 \<le> maxsize" and client: "\<forall>e \<in> set es. client_event e"
  obtains s tss where
    "preparepackets maxsize init_preparer (es @ [Requested Target_Dispatch]) = Some (Inr s)"
    "queue_ok maxsize (pr_sent s)" "pr_packs s = []"
    "list_all2 request_parts (requests_of es) tss" "all_trans (pr_sent s) = concat tss"
proof -
  from preparepackets_ok [OF big init_preparer_ok(1,2) client] obtain s1 tss where s1:
    "preparepackets maxsize init_preparer es = Some (Inr s1)" "prep_ok maxsize s1" "pr_running s1"
    "list_all2 request_parts (requests_of es) tss"
    "all_trans (pr_sent s1 @ pr_packs s1) = concat tss"
    by (auto simp: init_preparer_ok)
  let ?s = "s1\<lparr>pr_sent := pr_sent s1 @ pr_packs s1, pr_packs := []\<rparr>"
  have "preparepackets maxsize init_preparer (es @ [Requested Target_Dispatch]) = Some (Inr ?s)"
    using preparepackets_append [OF s1(1,3)] s1(3) by (simp add: Target_Dispatch_def)
  then show thesis
    using s1 by (intro that [of ?s tss]) (auto simp: prep_ok_def queue_ok_def)
qed

subsection \<open>Properties\<close>

text \<open>C1: Whatever reads, writes, read-modify-writes and dispatches the clients make, in any
  order, once a dispatch follows them every request has been cut into transactions and all of
  them have been put on the hardware interface's channel, request after request.  The
  transactions of a request read or write exactly its words, in order and at the right
  addresses (a read-modify-write in one transaction), only the last one closes the request's
  channel, and every packet is well-formed and fits the frame.  The loops end, and nothing
  panics.\<close>

theorem preparepackets_refines:
  assumes big: "48 \<le> maxsize" and client: "\<forall>e \<in> set es. client_event e"
  shows "\<exists>s tss. preparepackets maxsize init_preparer (es @ [Requested Target_Dispatch])
        = Some (Inr s)
    \<and> list_all2 request_parts (requests_of es) tss
    \<and> all_trans (pr_sent s) = concat tss \<and> pr_packs s = []
    \<and> (\<forall>p \<in> set (pr_sent s). packet_inv p \<and> 28 + length (pk_request p) \<le> unat maxsize)"
proof -
  have "28 \<le> maxsize" using big by (rule order_trans [rotated]) simp
  note fits = pack_ok_fits [OF _ this]
  obtain s tss where s:
    "preparepackets maxsize init_preparer (es @ [Requested Target_Dispatch]) = Some (Inr s)"
    "queue_ok maxsize (pr_sent s)" "pr_packs s = []"
    "list_all2 request_parts (requests_of es) tss" "all_trans (pr_sent s) = concat tss"
    by (rule dispatched_run [OF big client])
  have "\<forall>p \<in> set (pr_sent s). packet_inv p \<and> 28 + length (pk_request p) \<le> unat maxsize"
    using s(2) fits by (auto simp: queue_ok_def pack_ok_def)
  with s show ?thesis by blast
qed

definition demo_reg :: Register where
  "demo_reg = \<lparr>r_Name = ''fifo'', r_Addr = 0x200, r_Masks = [], r_noninc = False, r_size = 1,
     r_msks = Some Map.empty\<rparr>"

lemma demo_requests:
  "client_event (Requested (Target_Read demo_reg 300 1))"
  "client_event (Requested (Target_RMWbits demo_reg 0 7 2))"
  by (simp_all add: api_request_def Target_Read_def Target_RMWbits_def demo_reg_def)

theorem preparepackets_refines_witness:
  "\<exists>s. preparepackets 1500 init_preparer
      ([Requested (Target_Read demo_reg 300 1), Requested (Target_RMWbits demo_reg 0 7 2)]
       @ [Requested Target_Dispatch]) = Some (Inr s) \<and> pr_packs s = []"
  using preparepackets_refines [of 1500
      "[Requested (Target_Read demo_reg 300 1), Requested (Target_RMWbits demo_reg 0 7 2)]"]
    demo_requests
  by auto

text \<open>C38: A read of no words, or a write of none, adds no transaction: the channel it
  returned is neither answered nor closed.\<close>

theorem empty_request_unanswered:
  assumes "48 \<le> maxsize" "queue_ok maxsize packs" "api_request req"
    and "is_read (ur_typeid req) \<and> ur_nwords req = 0 \<or> is_write (ur_typeid req) \<and> ur_Input req = []"
  shows "\<exists>packs'. prepare_request maxsize packs req = Some (Inr packs') \<and>
    all_trans packs' = all_trans packs"
proof -
  obtain packs' ts where p: "prepare_request maxsize packs req = Some (Inr packs')"
      "all_trans packs' = all_trans packs @ ts" "request_parts req ts"
    using prepare_request_ok [OF assms(1-3)] by metis
  have "concat (map addresses ts) = []" "\<forall>t \<in> set ts. part_of req t"
    using p(3) assms(4) by (auto simp: request_parts_def read_parts_def write_parts_def)
  moreover have "addresses t \<noteq> []" if "part_of req t" for t
    using that by (simp add: part_of_def addresses_def flip: length_0_conv)
  ultimately have "ts = []" by (cases ts) auto
  with p show ?thesis by simp
qed

theorem empty_request_unanswered_witness:
  "\<exists>packs'. prepare_request 1500 [] (Target_Read demo_reg 0 1) = Some (Inr packs') \<and>
     all_trans packs' = []"
  using empty_request_unanswered [of 1500 "[]" "Target_Read demo_reg 0 1"]
  by (simp add: queue_ok_def api_request_def Target_Read_def demo_reg_def)

lemma chunk_words_0 [simp]: "chunk_words 0 n = 0"
  by (simp add: chunk_words_def)

lemma tiny_packet_space:
  assumes "40 \<le> maxsize" "maxsize < 44"
  shows "packet_space (emptypacket maxsize pt) = (2, 2)"
proof -
  have "unat maxsize - 28 \<in> {12..<16}" "28 \<le> maxsize"
    using assms by (auto simp: word_le_nat_alt word_less_nat_alt)
  moreover from this have "(unat maxsize - 28) div 4 = 3" by auto
  ultimately have "unat ((maxsize - 28) div 4) = 3" by (simp add: unat_div unat_sub)
  then have "(maxsize - 28) div 4 = 3" by (simp add: word_unat_eq_iff)
  then show ?thesis by (simp add: emptypacket_def packet_space_def Let_def)
qed

lemma tiny_write_step:
  assumes tiny: "40 \<le> maxsize" "maxsize < 44" and wr: "is_write (ur_typeid req)"
    and s: "fst (packet_space p) < 3" "unat index \<le> length (ur_Input req)"
  shows "\<exists>packs' p'. write_step maxsize req (packs, p, nwords, addr, index)
       = Inr (packs', p', nwords, addr, index) \<and> fst (packet_space p') < 3"
proof -
  let ?e = "emptypacket maxsize control"
  let ?t = "newrequesttransaction (ur_typeid req) 0 addr [] (ur_resp req) (ur_byteslice req) (nwords = 0)"
  note space = tiny_packet_space [OF tiny, of control]
  have w: "with_room maxsize 3 1 (packs, p) = (packs @ [p], ?e)"
    using s(1) by (simp add: with_room_def case_prod_beta)
  have "fits ?e ?t"
    using wr space by (simp add: fits_def trans_ok_def newrequesttransaction_def req_words_def
        resp_words_def reqroom_def resproom_def)
  moreover have "ph_order (pk_header ?e) \<noteq> NilOrder"
    by (simp add: emptypacket_def defaultorder_def Let_def)
  ultimately have add: "packet_add ?e ?t =
    Inr (?e\<lparr>pk_reqlen := pk_reqlen ?e + of_nat (req_words ?t),
           pk_resplen := pk_resplen ?e + of_nat (resp_words ?t),
           pk_request := pk_request ?e @ trans_bytes (ph_order (pk_header ?e)) (numbered ?e ?t),
           pk_transactions := pk_transactions ?e @ [numbered ?e ?t]\<rparr>, None)"
    (is "_ = Inr (?p', None)") by (rule packet_add_fits)
  have "fst (packet_space ?p') = 0"
    using space
    by (simp add: packet_space_def req_words_def newrequesttransaction_def diff_diff_eq [symmetric])
  then show ?thesis
    using s(2) space
    by (intro exI [of _ "packs @ [p]"] exI [of _ ?p'])
      (simp add: write_step_def w Let_def add [simplified])
qed

lemma tiny_write_loop:
  assumes tiny: "40 \<le> maxsize" "maxsize < 44" and wr: "is_write (ur_typeid req)"
    and p: "fst (packet_space p) < 3" "unat index \<le> length (ur_Input req)" "nwords \<noteq> 0"
  shows "write_loop maxsize req (packs, p, nwords, addr, index) = None"
proof (rule ccontr)
  let ?Q = "\<lambda>m r s. m = maxsize \<and> r = req \<and> fst (packet_space (fst (snd s))) < 3
     \<and> unat (snd (snd (snd (snd s)))) \<le> length (ur_Input req) \<and> fst (snd (snd s)) \<noteq> 0"
  assume "write_loop maxsize req (packs, p, nwords, addr, index) \<noteq> None"
  then obtain res where ret: "write_loop maxsize req (packs, p, nwords, addr, index) = Some res" by auto
  have "?Q maxsize req (packs, p, nwords, addr, index) \<longrightarrow> False"
  proof (rule write_loop.raw_induct [where P = "\<lambda>m r s _. ?Q m r s \<longrightarrow> False", OF _ ret])
    fix f m r s res
    assume IH: "\<And>m r s res. f m r s = Some res \<Longrightarrow> ?Q m r s \<longrightarrow> False"
      and step: "(if fst (snd (snd s)) = 0 then Some (Inr (fst s, fst (snd s)))
         else case write_step m r s of Inl e \<Rightarrow> Some (Inl e) | Inr s' \<Rightarrow> f m r s') = Some res"
    show "?Q m r s \<longrightarrow> False"
    proof
      assume Q: "?Q m r s"
      obtain qs q n a i where s: "s = (qs, q, n, a, i)" by (cases s)
      from Q obtain qs' q' where "write_step m r s = Inr (qs', q', n, a, i)"
          "fst (packet_space q') < 3"
        using tiny_write_step [OF tiny wr, of q i qs n a] by (auto simp: s)
      with Q IH [of m r "(qs', q', n, a, i)" res] step show False by (simp add: s)
    qed
  qed
  with p show False by simp
qed

text \<open>C39: With a \<open>MaxPacketSize\<close> from 40 to 43 a packet has room for three words: a write
  loops for ever, adding empty writes to fresh packets.\<close>

theorem tiny_packets_hang_writes:
  assumes tiny: "40 \<le> maxsize" "maxsize < 44" and wr: "is_write (ur_typeid req)"
    and "ur_Input req \<noteq> []" "length (ur_Input req) < 2 ^ 64"
  shows "prepare_request maxsize [] req = None"
proof -
  have "of_nat (length (ur_Input req)) \<noteq> (0 :: u64)"
    using assms(4,5) by (simp add: word_unat_eq_iff unat_of_nat)
  with tiny_write_loop [OF tiny wr, of "emptypacket maxsize control"] tiny_packet_space [OF tiny] wr
  show ?thesis by (simp add: prepare_request_def Let_def)
qed

theorem tiny_packets_hang_writes_witness:
  "prepare_request 40 [] (Target_Write demo_reg [7] 1) = None"
  by (rule tiny_packets_hang_writes) (simp_all add: Target_Write_def demo_reg_def)

text \<open>C25: The terms of \<open>MaskedWrite\<close> leave every register bit outside the mask alone exactly
  when the shifted value lies within the mask: unlike \<open>WriteMask\<close>, it does not cut the value
  to the mask.\<close>

theorem masked_write_outside_iff:
  assumes "gomap_get (r_msks reg) name = Some m"
  shows "\<exists>req andterm orterm. Target_MaskedWrite reg name v resp = Inr req
      \<and> ur_typeid req = tid_rmwbits \<and> ur_Input req = [andterm, orterm]
      \<and> ((\<forall>x. rmw_bits x andterm orterm AND NOT (msk_value m) = x AND NOT (msk_value m))
           \<longleftrightarrow> push_bit (msk_shift m) v AND NOT (msk_value m) = 0)
      \<and> (\<forall>x. rmw_bits x andterm orterm AND msk_value m = push_bit (msk_shift m) v AND msk_value m)"
proof -
  let ?m = "msk_value m" and ?o = "push_bit (msk_shift m) v"
  have a: "0xffffffff XOR ?m = NOT ?m"
    by (rule bit_word_eqI) (auto simp: bit_simps masks)
  have out: "rmw_bits x (NOT ?m) ?o AND NOT ?m = (x AND NOT ?m) OR (?o AND NOT ?m)" for x
    unfolding rmw_bits_def by (rule bit_word_eqI) (auto simp: bit_simps)
  have "(\<forall>x. rmw_bits x (NOT ?m) ?o AND NOT ?m = x AND NOT ?m) \<longleftrightarrow> ?o AND NOT ?m = 0"
  proof
    assume "\<forall>x. rmw_bits x (NOT ?m) ?o AND NOT ?m = x AND NOT ?m"
    then have "rmw_bits 0 (NOT ?m) ?o AND NOT ?m = 0 AND NOT ?m" by (rule spec)
    then show "?o AND NOT ?m = 0" by (simp only: out and_zero_eq or.left_neutral zero_and_eq)
  next
    assume "?o AND NOT ?m = 0"
    then show "\<forall>x. rmw_bits x (NOT ?m) ?o AND NOT ?m = x AND NOT ?m" by (simp only: out or.right_neutral simp_thms)
  qed
  moreover have "rmw_bits x (NOT ?m) ?o AND ?m = ?o AND ?m" for x
    unfolding rmw_bits_def by (rule bit_word_eqI) (auto simp: bit_simps)
  ultimately show ?thesis
    using assms by (simp add: Target_MaskedWrite_def Target_RMWbits_def Let_def a)
qed

theorem masked_write_outside_iff_witness:
  "\<exists>req. Target_MaskedWrite demo_register ''mode'' 9 1 = Inr req"
  using masked_write_outside_iff [of demo_register "''mode''" _ 9 1] demo_register_mask
  by (auto simp: has_mask_def)

text \<open>\<open>WriteNow\<close> returns the error of the first response that has one, and receives no
  response after it; without an error it receives them all.\<close>

theorem WriteNow_first_error:
  "WriteNow_receive rs =
    (case dropWhile (\<lambda>r. rs_Err r = None) rs of
       [] \<Rightarrow> (None, length rs)
     | r # _ \<Rightarrow> (rs_Err r, Suc (length (takeWhile (\<lambda>r. rs_Err r = None) rs))))"
  by (induction rs)
    (auto simp: Let_def simp del: dropWhile_eq_Nil_conv split: option.splits list.splits)

end
