(* ===== verification/Status.thy ===== *)
theory Status
  imports Wire
begin

text \<open>
  The packets of \<open>hw_stuff.go\<close> that concern the target itself: the status request and the
  resend request that the client sends, and \<open>parseStatus\<close>, which reads the target's status
  reply.

  A Go slice expression \<open>data[i:j]\<close> is checked against the capacity of the slice, not its
  length: the argument of \<open>parseStatus\<close> is the slice up to its capacity.
\<close>

definition newResendPacket :: "u16 \<Rightarrow> byte list" where
  "newResendPacket i =
    (let data = replicate 4 0;
         data = data[0 := push_bit 4 (ucast protocolversion)];
         data = data[1 := ucast (drop_bit 8 i)];
         data = data[2 := ucast (i AND 0x00ff)]
     in data[3 := 0xf0 OR resend])"

definition newStatusPacket :: "byte list" where
  "newStatusPacket =
    (let data = replicate 64 0;
         data = data[0 := push_bit 4 (ucast protocolversion)]
     in data[3 := 0xf0 OR status])"

record targetstatus =
  ts_mtu :: u32
  ts_nresponsebuffer :: u32
  ts_nextid :: u16
  ts_received :: "packetheader list"
  ts_sent :: "packetheader list"

text \<open>\<open>data[i:j]\<close> of a slice given up to its capacity.\<close>

definition slice :: "byte list \<Rightarrow> nat \<Rightarrow> nat \<Rightarrow> byte list outcome" where
  "slice data i j =
    (if i \<le> j \<and> j \<le> length data then Inr (take (j - i) (drop i data)) else Inl SliceOutOfRange)"

text \<open>The two loops over four headers from \<open>base\<close>: those that decode are kept.\<close>

fun status_headers ::
    "byte list \<Rightarrow> nat \<Rightarrow> nat list \<Rightarrow> packetheader list \<Rightarrow> packetheader list outcome" where
  "status_headers data base [] hs = Inr hs"
| "status_headers data base (i # is) hs =
     obind (slice data (base + 4 * i) (base + 4 * i + 4))
       (\<lambda>b. case newPacketHeader b of
              (header, None) \<Rightarrow> status_headers data base is (hs @ [header])
            | (header, Some err) \<Rightarrow> status_headers data base is hs)"

definition parseStatus :: "byte list \<Rightarrow> (targetstatus \<times> go_error option) outcome" where
  "parseStatus data =
    obind (obind (slice data 4 8) (\<lambda>b. byte2uint32 b BigEndian)) (\<lambda>mtu.
    obind (obind (slice data 8 12) (\<lambda>b. byte2uint32 b BigEndian)) (\<lambda>nresponsebuffer.
    obind (obind (slice data 12 16) (\<lambda>b. byte2uint32 b BigEndian)) (\<lambda>nextheader.
    obind (status_headers data 32 [0..<4] []) (\<lambda>received.
    obind (status_headers data 48 [0..<4] []) (\<lambda>sent.
      Inr (\<lparr>ts_mtu = mtu, ts_nresponsebuffer = nresponsebuffer,
            ts_nextid = ucast (drop_bit 8 (nextheader AND 0x00ffff00)),
            ts_received = received, ts_sent = sent\<rparr>, None))))))"

subsection \<open>The requests are packet headers\<close>

definition status_header :: packetheader where
  "status_header = \<lparr>ph_version = 2, ph_pid = 0, ph_ptype = status, ph_order = BigEndian\<rparr>"

definition resend_header :: "u16 \<Rightarrow> packetheader" where
  "resend_header i = \<lparr>ph_version = 2, ph_pid = i, ph_ptype = resend, ph_order = BigEndian\<rparr>"

lemma wf_status_header [simp]: "wf_ph status_header" "wf_ph (resend_header i)"
  by (simp_all add: wf_ph_def status_header_def resend_header_def ptype_defs)

lemma ucast_high_byte: "(ucast (drop_bit 8 (i AND 0xff00)) :: byte) = ucast (drop_bit 8 (i :: u16))"
  by (rule bit_word_eqI) (auto simp: bit_simps masks)

lemma replicate_bytes:
  "replicate 4 (0 :: byte) = [0, 0, 0, 0]" "replicate 64 (0 :: byte) = [0, 0, 0, 0] @ replicate 60 0"
  by (simp_all add: numeral_eq_Suc)

lemma newResendPacket_bytes: "newResendPacket i = ph_bytes (resend_header i)"
  by (simp add: newResendPacket_def ph_bytes_def packetheader_encode_def resend_header_def
      ucast_high_byte replicate_bytes)

lemma newStatusPacket_bytes: "newStatusPacket = ph_bytes status_header @ replicate 60 0"
  by (simp add: newStatusPacket_def ph_bytes_def packetheader_encode_def status_header_def
      replicate_bytes)

subsection \<open>Reading a status reply\<close>

lemma slice_ok: "i + k \<le> length data \<Longrightarrow> slice data i (i + k) = Inr (take k (drop i data))"
  by (simp add: slice_def)

lemma newPacketHeader_take: "ok_part (newPacketHeader (take 4 b)) = ok_part (newPacketHeader b)"
  by (cases "length b < 4")
    (auto simp: newPacketHeader_def packetheader_decode_def Let_def min_def)

lemma status_headers_total:
  "\<forall>i \<in> set is. base + 4 * i + 4 \<le> length data \<Longrightarrow>
     status_headers data base is hs =
       Inr (hs @ List.map_filter (\<lambda>i. ok_part (newPacketHeader (drop (base + 4 * i) data))) is)"
proof (induction "is" arbitrary: hs)
  case Nil
  then show ?case by (simp add: List.map_filter_simps)
next
  case (Cons i "is")
  obtain h e where he: "newPacketHeader (take 4 (drop (base + 4 * i) data)) = (h, e)" by force
  then have "ok_part (newPacketHeader (drop (base + 4 * i) data)) = ok_part (h, e)"
    by (metis newPacketHeader_take)
  with Cons he show ?case
    by (cases e) (auto simp: slice_ok List.map_filter_simps)
qed

lemma slice_u32:
  "i + 4 \<le> length data \<Longrightarrow>
     obind (slice data i (i + 4)) (\<lambda>b. byte2uint32 b BigEndian) = order_Uint32 BigEndian (drop i data)"
  by (simp add: slice_ok byte2uint32_def order_Uint32.simps)

text \<open>With the capacity of a status reply, any bytes are accepted.\<close>

lemma parseStatus_total:
  assumes "64 \<le> length data"
  shows "\<exists>st. parseStatus data = Inr (st, None)"
proof -
  have u: "\<exists>v. order_Uint32 BigEndian (drop i data) = Inr v" if "i + 4 \<le> length data" for i
    using order_Uint32_inverse [of "drop i data" BigEndian] that by force
  obtain a b c where abc: "order_Uint32 BigEndian (drop 4 data) = Inr a"
      "order_Uint32 BigEndian (drop 8 data) = Inr b" "order_Uint32 BigEndian (drop 12 data) = Inr c"
    using u [of 4] u [of 8] u [of 12] assms by auto
  have hs: "\<exists>hs. status_headers data base [0..<4] [] = Inr hs" if "base + 16 \<le> length data" for base
    using that by (subst status_headers_total) auto
  obtain r s where "status_headers data 32 [0..<4] [] = Inr r"
      "status_headers data 48 [0..<4] [] = Inr s"
    using hs [of 32] hs [of 48] assms by auto
  with abc assms slice_u32 [of 4 data] slice_u32 [of 8 data] slice_u32 [of 12 data]
  show ?thesis by (simp add: parseStatus_def del: obind_eq_Inr)
qed

text \<open>A reply has eight words, then four slots of received and four of sent headers; an
  unused slot is zero.\<close>

fun slot_bytes :: "packetheader option \<Rightarrow> byte list" where
  "slot_bytes None = [0, 0, 0, 0]"
| "slot_bytes (Some h) = ph_bytes h"

interpretation slots: word_codec slot_bytes "\<lambda>b. Some (ok_part (newPacketHeader b))"
    "\<lambda>x. \<forall>h. x = Some h \<longrightarrow> wf_ph h"
proof unfold_locales
  fix x :: "packetheader option" and rest
  assume wf: "\<forall>h. x = Some h \<longrightarrow> wf_ph h"
  show "length (slot_bytes x) = 4" by (cases x) auto
  show "Some (ok_part (newPacketHeader (slot_bytes x @ rest))) = Some x"
  proof (cases x)
    case None
    then show ?thesis
      by (simp add: newPacketHeader_def packetheader_decode_def)
  next
    case (Some h)
    with wf show ?thesis by (simp add: newPacketHeader_bytes)
  qed
qed

definition status_reply ::
    "u32 \<Rightarrow> u32 \<Rightarrow> u16 \<Rightarrow> byte list \<Rightarrow> packetheader option list \<Rightarrow> packetheader option list
     \<Rightarrow> byte list" where
  "status_reply mtu nbuf nextid traffic received sent =
     ph_bytes status_header @ u32_bytes BigEndian mtu @ u32_bytes BigEndian nbuf
     @ ph_bytes \<lparr>ph_version = 2, ph_pid = nextid, ph_ptype = control, ph_order = BigEndian\<rparr>
     @ traffic @ concat (map slot_bytes received) @ concat (map slot_bytes sent)"

lemma map_filter_upt_nth:
  "List.map_filter (\<lambda>i. xs ! i) [0..<length xs] = List.map_filter id xs"
proof -
  have "List.map_filter id xs = List.map_filter id (map (nth xs) [0..<length xs])"
    by (simp add: map_nth)
  then show ?thesis by (simp add: List.map_filter_def filter_map comp_def)
qed

lemma map_filter_cong':
  "(\<And>x. x \<in> set xs \<Longrightarrow> f x = g x) \<Longrightarrow> List.map_filter f xs = List.map_filter g xs"
  by (induction xs) (auto simp: List.map_filter_simps split: option.split)

lemma status_headers_slots:
  assumes wf: "\<forall>x \<in> set xs. \<forall>h. x = Some h \<longrightarrow> wf_ph h" and len: "length xs = 4"
    and data: "drop base data = concat (map slot_bytes xs) @ rest" and base: "base + 16 \<le> length data"
  shows "status_headers data base [0..<4] [] = Inr (List.map_filter id xs)"
proof -
  have nth: "ok_part (newPacketHeader (drop (base + 4 * i) data)) = xs ! i" if "i < length xs" for i
  proof -
    have "drop (base + 4 * i) data = drop (4 * i) (concat (map slot_bytes xs) @ rest)"
      using data by (metis drop_drop add.commute)
    then show ?thesis using slots.dec_stream_nth [OF wf that, of rest] by simp
  qed
  have "status_headers data base [0..<4] [] =
      Inr (List.map_filter (\<lambda>i. ok_part (newPacketHeader (drop (base + 4 * i) data))) [0..<4])"
    using base by (subst status_headers_total) auto
  also have "List.map_filter (\<lambda>i. ok_part (newPacketHeader (drop (base + 4 * i) data))) [0..<4]
      = List.map_filter (\<lambda>i. xs ! i) [0..<length xs]"
    unfolding len using nth len by (intro map_filter_cong') auto
  finally show ?thesis by (simp add: map_filter_upt_nth)
qed

lemma bit_version [simp]: "bit (536870912 :: int) n \<longleftrightarrow> n = 29"
proof -
  have "(536870912 :: int) = push_bit 29 1" by (simp add: push_bit_eq_mult)
  then show ?thesis by (simp only: bit_push_bit_iff bit_1_iff possible_bit_def) auto
qed

lemma pid_field:
  "ucast (drop_bit 8 ((ucast c OR push_bit 8 (ucast (ucast (i AND 0x00ff) :: byte))
      OR push_bit 16 (ucast (ucast (drop_bit 8 (i AND 0xff00)) :: byte))
      OR push_bit 24 32) AND 0x00ffff00 :: u32)) = (i :: u16)" for c :: byte
proof (rule bit_word_eqI)
  fix n assume n: "n < LENGTH(16)"
  show "bit (ucast (drop_bit 8 ((ucast c OR push_bit 8 (ucast (ucast (i AND 0x00ff) :: byte))
      OR push_bit 16 (ucast (ucast (drop_bit 8 (i AND 0xff00)) :: byte))
      OR push_bit 24 32) AND 0x00ffff00 :: u32)) :: u16) n = bit i n"
    using n
    by (cases "n < 8")
      (auto simp: bit_simps masks dest: bitDs)
qed

lemma nextid_mask:
  assumes "order_Uint32 BigEndian (ph_bytes \<lparr>ph_version = 2, ph_pid = i, ph_ptype = control,
       ph_order = BigEndian\<rparr> @ rest) = Inr w"
  shows "ucast (drop_bit 8 (w AND 0x00ffff00)) = i"
proof -
  have w: "w = ucast (0xf0 OR control) OR push_bit 8 (ucast (ucast (i AND 0x00ff) :: byte))
      OR push_bit 16 (ucast (ucast (drop_bit 8 (i AND 0xff00)) :: byte)) OR push_bit 24 32"
    using assms by (simp add: order_Uint32.simps ph_bytes_def packetheader_encode_def)
  show ?thesis unfolding w by (rule pid_field)
qed

subsection \<open>Properties\<close>

text \<open>C26: What a target's status reply says is what \<open>parseStatus\<close> reads: the MTU, the number of
  response buffers, the next identifier, and the headers in the used slots of its lists of
  received and sent packets, in order.\<close>

theorem parseStatus_reply:
  assumes traffic: "length traffic = 16"
    and received: "length received = 4" "\<forall>x \<in> set received. \<forall>h. x = Some h \<longrightarrow> wf_ph h"
    and sent: "length sent = 4" "\<forall>x \<in> set sent. \<forall>h. x = Some h \<longrightarrow> wf_ph h"
  shows "parseStatus (status_reply mtu nbuf nextid traffic received sent @ rest) =
    Inr (\<lparr>ts_mtu = mtu, ts_nresponsebuffer = nbuf, ts_nextid = nextid,
          ts_received = List.map_filter id received, ts_sent = List.map_filter id sent\<rparr>, None)"
proof -
  let ?d = "status_reply mtu nbuf nextid traffic received sent @ rest"
  let ?h = "\<lparr>ph_version = 2, ph_pid = nextid, ph_ptype = control, ph_order = BigEndian\<rparr>"
  let ?r = "concat (map slot_bytes received)" and ?s = "concat (map slot_bytes sent)"
  have lr: "length ?r = 16" "length ?s = 16"
    using slots.stream_length received sent by simp_all
  have d4: "order_Uint32 BigEndian (drop 4 ?d) = Inr mtu"
   and d8: "order_Uint32 BigEndian (drop 8 ?d) = Inr nbuf"
    by (simp_all add: status_reply_def order_Uint32_bytes)
  obtain w where w: "order_Uint32 BigEndian (ph_bytes ?h @ traffic @ ?r @ ?s @ rest) = Inr w"
    using order_Uint32_inverse [of "ph_bytes ?h @ traffic @ ?r @ ?s @ rest" BigEndian] by auto
  have d12: "order_Uint32 BigEndian (drop 12 ?d) = Inr w"
    using w by (simp add: status_reply_def)
  note id = nextid_mask [OF w]
  have len: "64 \<le> length ?d" using traffic lr by (simp add: status_reply_def)
  have r: "status_headers ?d 32 [0..<4] [] = Inr (List.map_filter id received)"
    using traffic lr len
    by (intro status_headers_slots [where rest = "?s @ rest"] received)
      (simp_all add: status_reply_def)
  have s: "status_headers ?d 48 [0..<4] [] = Inr (List.map_filter id sent)"
    using traffic lr len
    by (intro status_headers_slots [where rest = rest] sent) (simp_all add: status_reply_def)
  show ?thesis
    using slice_u32 [of 4 ?d] slice_u32 [of 8 ?d] slice_u32 [of 12 ?d] len d4 d8 d12 r s id
    by (simp add: parseStatus_def del: obind_eq_Inr)
qed

theorem parseStatus_reply_witness:
  "\<exists>st. parseStatus (status_reply 1500 4 7 (replicate 16 0) (replicate 3 None @ [Some (resend_header 6)])
      (replicate 4 None) @ []) = Inr (st, None) \<and> ts_nextid st = 7 \<and> ts_received st = [resend_header 6]"
  by (subst parseStatus_reply) (auto simp: List.map_filter_simps numeral_eq_Suc)

text \<open>The two requests to the target are packet headers that decode as such: a status
  request with identifier 0, followed by 60 zero bytes, and a resend request of exactly four
  bytes with the identifier asked for.\<close>

theorem target_requests_decode:
  "newPacketHeader newStatusPacket
     = (\<lparr>ph_version = 2, ph_pid = 0, ph_ptype = status, ph_order = BigEndian\<rparr>, None) \<and>
   length newStatusPacket = 64 \<and> drop 4 newStatusPacket = replicate 60 0 \<and>
   newPacketHeader (newResendPacket i)
     = (\<lparr>ph_version = 2, ph_pid = i, ph_ptype = resend, ph_order = BigEndian\<rparr>, None) \<and>
   length (newResendPacket i) = 4"
proof -
  have "newPacketHeader (ph_bytes status_header @ replicate 60 0) = (status_header, None)"
    by (rule newPacketHeader_bytes) simp
  moreover have "newPacketHeader (ph_bytes (resend_header i) @ []) = (resend_header i, None)"
    by (rule newPacketHeader_bytes) simp
  ultimately show ?thesis
    by (simp add: newStatusPacket_bytes newResendPacket_bytes status_header_def resend_header_def)
qed

end
