(* ===== verification/Packetlog.thy ===== *)
theory Packetlog
  imports Packets "HOL-Library.AList"
begin

text \<open>
  The packet log of \<open>hw_stuff.go\<close>: a map from packet identifiers to packets, owned by a
  goroutine (\<open>run\<close>) that serves the messages of \<open>add\<close>, \<open>get\<close>, \<open>getall\<close> and \<open>remove\<close> one at a
  time.  The hardware interface keeps three of them.

  The Go map is an association list with distinct keys.  The order in which \<open>range\<close> walks
  the map is unspecified in Go: \<open>getall\<close> takes the order as an argument.

  The locale \<open>packet_store\<close> states what the hardware interface relies on; it is interpreted
  on the message-passing operations.
\<close>

record packetlog =
  pl_packets :: "(u16 \<times> packet) list"

definition newpacketlog :: packetlog where
  "newpacketlog = \<lparr>pl_packets = []\<rparr>"

text \<open>The messages on the four channels, and what goes back on the reply channel.\<close>

datatype log_msg = AddMsg u16 packet | GetMsg u16 | GetAllMsg "u16 list" | RemoveMsg u16

datatype log_reply = NoReply | Found "packet option" | Stream "(u16 \<times> packet) list"

text \<open>One round of \<open>run\<close>.  \<open>GetAllMsg order\<close> carries the order in which \<open>range\<close> happens to
  walk the map.\<close>

fun packetlog_run :: "packetlog \<Rightarrow> log_msg \<Rightarrow> packetlog \<times> log_reply" where
  "packetlog_run p (AddMsg i pack) = (p\<lparr>pl_packets := AList.update i pack (pl_packets p)\<rparr>, NoReply)"
| "packetlog_run p (GetMsg i) = (p, Found (map_of (pl_packets p) i))"
| "packetlog_run p (GetAllMsg order) =
     (p, Stream (List.map_filter (\<lambda>i. map_option (Pair i) (map_of (pl_packets p) i)) order))"
| "packetlog_run p (RemoveMsg i) = (p\<lparr>pl_packets := AList.delete i (pl_packets p)\<rparr>, NoReply)"

definition packetlog_add :: "packetlog \<Rightarrow> u16 \<Rightarrow> packet \<Rightarrow> packetlog" where
  "packetlog_add p i pack = fst (packetlog_run p (AddMsg i pack))"

definition packetlog_get :: "packetlog \<Rightarrow> u16 \<Rightarrow> packet option" where
  "packetlog_get p i = (case snd (packetlog_run p (GetMsg i)) of Found r \<Rightarrow> r | _ \<Rightarrow> None)"

text \<open>\<open>getall\<close> stores every packet it receives in a fresh map.\<close>

fun collect :: "(u16 \<times> packet) list \<Rightarrow> (u16 \<times> packet) list \<Rightarrow> (u16 \<times> packet) list" where
  "collect [] m = m"
| "collect ((i, pack) # rest) m = collect rest (AList.update i pack m)"

definition packetlog_getall :: "packetlog \<Rightarrow> u16 list \<Rightarrow> (u16 \<times> packet) list" where
  "packetlog_getall p order =
    (case snd (packetlog_run p (GetAllMsg order)) of Stream xs \<Rightarrow> collect xs [] | _ \<Rightarrow> [])"

definition packetlog_remove :: "packetlog \<Rightarrow> u16 \<Rightarrow> packetlog" where
  "packetlog_remove p i = fst (packetlog_run p (RemoveMsg i))"

subsection \<open>The store interface\<close>

locale packet_store =
  fixes add :: "'s \<Rightarrow> u16 \<Rightarrow> 'p \<Rightarrow> 's"
    and get :: "'s \<Rightarrow> u16 \<Rightarrow> 'p option"
    and remove :: "'s \<Rightarrow> u16 \<Rightarrow> 's"
    and ids :: "'s \<Rightarrow> u16 set"
    and size_of :: "'s \<Rightarrow> nat"
    and inv :: "'s \<Rightarrow> bool"
  assumes get_add: "inv s \<Longrightarrow> get (add s i p) j = (if j = i then Some p else get s j)"
    and get_remove: "inv s \<Longrightarrow> get (remove s i) j = (if j = i then None else get s j)"
    and inv_add: "inv s \<Longrightarrow> inv (add s i p)"
    and inv_remove: "inv s \<Longrightarrow> inv (remove s i)"
    and ids_def: "ids s = {i. get s i \<noteq> None}"
    and size_ids: "inv s \<Longrightarrow> size_of s = card (ids s)"
begin

lemma finite_ids [simp]: "finite (ids s)"
  by simp

lemma ids_add: "inv s \<Longrightarrow> ids (add s i p) = insert i (ids s)"
  by (auto simp: ids_def get_add)

lemma ids_remove: "inv s \<Longrightarrow> ids (remove s i) = ids s - {i}"
  by (auto simp: ids_def get_remove)

lemma get_None: "get s i = None \<longleftrightarrow> i \<notin> ids s"
  by (simp add: ids_def)

lemma get_Some: "get s i = Some p \<Longrightarrow> i \<in> ids s"
  by (simp add: ids_def)

lemma size_add_new: "inv s \<Longrightarrow> i \<notin> ids s \<Longrightarrow> size_of (add s i p) = Suc (size_of s)"
  by (simp add: size_ids inv_add ids_add)

lemma size_add_old: "inv s \<Longrightarrow> i \<in> ids s \<Longrightarrow> size_of (add s i p) = size_of s"
  by (simp add: size_ids inv_add ids_add insert_absorb)

lemma size_remove: "inv s \<Longrightarrow> i \<in> ids s \<Longrightarrow> Suc (size_of (remove s i)) = size_of s"
  using card_Suc_Diff1 [of "ids s" i] by (simp add: size_ids inv_remove ids_remove)

lemma size_remove_other: "inv s \<Longrightarrow> i \<notin> ids s \<Longrightarrow> size_of (remove s i) = size_of s"
  by (simp add: size_ids inv_remove ids_remove)

end

subsection \<open>The packet log is such a store\<close>

definition packetlog_inv :: "packetlog \<Rightarrow> bool" where
  "packetlog_inv p \<longleftrightarrow> distinct (map fst (pl_packets p))"

definition packetlog_ids :: "packetlog \<Rightarrow> u16 set" where
  "packetlog_ids p = {i. packetlog_get p i \<noteq> None}"

definition packetlog_len :: "packetlog \<Rightarrow> nat" where
  "packetlog_len p = length (pl_packets p)"

lemma packetlog_inv_new [simp]: "packetlog_inv newpacketlog" "packetlog_get newpacketlog i = None"
  by (simp_all add: packetlog_inv_def newpacketlog_def packetlog_get_def)

interpretation plog: packet_store packetlog_add packetlog_get packetlog_remove packetlog_ids
    packetlog_len packetlog_inv
proof unfold_locales
  fix s :: packetlog and i j :: u16 and p :: packet
  show "packetlog_ids s = {i. packetlog_get s i \<noteq> None}" by (rule packetlog_ids_def)
  assume inv: "packetlog_inv s"
  show "packetlog_get (packetlog_add s i p) j = (if j = i then Some p else packetlog_get s j)"
    by (simp add: packetlog_get_def packetlog_add_def update_conv')
  show "packetlog_get (packetlog_remove s i) j = (if j = i then None else packetlog_get s j)"
    by (simp add: packetlog_get_def packetlog_remove_def delete_conv')
  show "packetlog_inv (packetlog_add s i p)"
    using inv by (simp add: packetlog_inv_def packetlog_add_def distinct_update)
  show "packetlog_inv (packetlog_remove s i)"
    using inv by (simp add: packetlog_inv_def packetlog_remove_def distinct_delete)
  have "packetlog_ids s = fst ` set (pl_packets s)"
    by (simp add: packetlog_ids_def packetlog_get_def dom_map_of_conv_image_fst [symmetric] dom_def)
  moreover have "card (fst ` set (pl_packets s)) = length (pl_packets s)"
    using inv distinct_card [of "map fst (pl_packets s)"] by (simp add: packetlog_inv_def)
  ultimately show "packetlog_len s = card (packetlog_ids s)" by (simp add: packetlog_len_def)
qed

lemma map_of_collect:
  "distinct (map fst xs) \<Longrightarrow> map_of (collect xs m) = map_of m ++ map_of xs"
proof (induction xs m rule: collect.induct)
  case (2 i pack rest m)
  have "map_of rest i = None" using "2.prems" by (simp add: map_of_eq_None_iff)
  with 2 show ?case by (auto simp: update_conv' fun_eq_iff map_add_def split: option.split)
qed simp

lemma stream_keys:
  "map fst (List.map_filter (\<lambda>i. map_option (Pair i) (map_of kvs i)) order)
     = filter (\<lambda>i. map_of kvs i \<noteq> None) order"
  by (induction order) (auto simp: List.map_filter_simps split: option.split)

lemma map_of_stream:
  "map_of (List.map_filter (\<lambda>i. map_option (Pair i) (map_of kvs i)) order) j
     = (if j \<in> set order then map_of kvs j else None)"
  by (induction order) (auto simp: List.map_filter_simps split: option.split)

text \<open>Whatever the order of \<open>range\<close>, \<open>getall\<close> returns the packets of the log.\<close>

lemma packetlog_getall_get:
  assumes "distinct order" "packetlog_ids p \<subseteq> set order"
  shows "map_of (packetlog_getall p order) = packetlog_get p"
proof
  fix j
  have "distinct (map fst (List.map_filter (\<lambda>i. map_option (Pair i) (map_of (pl_packets p) i)) order))"
    using assms(1) by (simp add: stream_keys)
  then have "map_of (packetlog_getall p order) j = (if j \<in> set order then map_of (pl_packets p) j else None)"
    by (simp add: packetlog_getall_def map_of_collect map_of_stream)
  moreover have "map_of (pl_packets p) j = packetlog_get p j" by (simp add: packetlog_get_def)
  ultimately show "map_of (packetlog_getall p order) j = packetlog_get p j"
    using assms(2) plog.get_None [of p j] by (cases "j \<in> set order") auto
qed

end
