(* ===== verification/Hw.thy ===== *)
theory Hw
  imports Packetlog Idlog Status
begin

text \<open>
  The hardware interface (\<open>hw.go\<close>): it numbers the packets it is given, keeps at most four
  of them in flight, matches the replies, returns them to the clients in the order of the
  packets, and recovers a lost packet with the target's status.

  The state is the struct \<open>hw\<close> with a history of what it did.  The connection is a
  parameter: \<open>conn_write\<close> gives the result of \<open>conn.Write\<close> from the history and the bytes.
  A handler takes the time at which it runs.  \<open>handlelost\<close> and \<open>ConfigDevice\<close> run in
  goroutines of their own and wait for a status: they are two handlers each, before and
  after the wait.  Handlers are atomic; the unsynchronised accesses of the goroutines to the
  struct's fields between two of their statements are not modelled.

  Packets are passed by value: each pointer is held by one log at a time.  The ticker is the
  interval at which it fires, or \<open>None\<close> once stopped.  Counters of bytes and packets are
  floats in the code and exact there; they are natural numbers here.
\<close>

subsection \<open>State\<close>

text \<open>The history: the identifiers given to incoming packets, the datagrams written, the
  replies returned, and the closing of the connection.\<close>

datatype hw_event = Accepted u16 | Wrote "byte list" | Returned u16 "chan_event list" | ConnClosed

record hw =
  h_waittime :: int
  h_configured :: bool
  h_statuses :: "targetstatus list"
  h_nextID :: u16
  h_timeoutid :: u16
  h_mtu :: u32
  h_inflight :: int
  h_maxflight :: int
  h_tosend :: packetlog
  h_flying :: packetlog
  h_replied :: packetlog
  h_queuedids :: idlog
  h_flyingids :: idlog
  h_timedout :: "int option"
  h_nverbose :: int
  h_bytessent :: nat
  h_bytesreceived :: nat
  h_packssent :: nat
  h_packsreceived :: nat
  h_returnedids :: "u16 list"
  h_returnedindex :: nat
  h_returnedsize :: nat
  h_stopped :: bool
  h_sentout :: tracker
  h_received :: tracker
  h_returned :: tracker
  h_resent :: u16
  h_handlinglost :: bool
  h_log :: "hw_event list"

text \<open>\<open>init\<close> makes the logs, the trackers and a ticker of 10000 seconds.\<close>

definition hw_init :: "hw \<Rightarrow> hw" where
  [simp]: "hw_init h =
    h\<lparr>h_statuses := [], h_tosend := newpacketlog, h_flying := newpacketlog,
      h_replied := newpacketlog, h_queuedids := newIDLog 256, h_flyingids := newIDLog 32,
      h_timedout := Some 10000000000000, h_returnedsize := 32, h_returnedindex := 31,
      h_returnedids := replicate 32 0, h_sentout := newTracker 16, h_received := newTracker 16,
      h_returned := newTracker 16\<rparr>"

text \<open>The fields that the composite literal of \<open>newhw\<close> leaves out have Go's zero values; the
  three logs are nil until \<open>init\<close>, for which an empty log stands here.\<close>

definition newhw :: "int \<Rightarrow> hw" where
  "newhw dt = hw_init
    \<lparr>h_waittime = dt, h_configured = False, h_statuses = [], h_nextID = 1, h_timeoutid = 0,
     h_mtu = 0, h_inflight = 0, h_maxflight = 4, h_tosend = newpacketlog,
     h_flying = newpacketlog, h_replied = newpacketlog,
     h_queuedids = \<lparr>il_ids = [], il_first = 0, il_n = 0, il_max = 0\<rparr>,
     h_flyingids = \<lparr>il_ids = [], il_first = 0, il_n = 0, il_max = 0\<rparr>,
     h_timedout = None, h_nverbose = 0,
     h_bytessent = 0, h_bytesreceived = 0, h_packssent = 0, h_packsreceived = 0,
     h_returnedids = [], h_returnedindex = 0, h_returnedsize = 0, h_stopped = False,
     h_sentout = newTracker 0, h_received = newTracker 0, h_returned = newTracker 0,
     h_resent = 0, h_handlinglost = False, h_log = []\<rparr>"

type_synonym conn_write = "hw_event list \<Rightarrow> byte list \<Rightarrow> nat \<times> go_error option"

definition conn_Write :: "conn_write \<Rightarrow> hw \<Rightarrow> byte list \<Rightarrow> hw \<times> nat \<times> go_error option" where
  "conn_Write cw h data =
    (let (n, err) = cw (h_log h) data in (h\<lparr>h_log := h_log h @ [Wrote data]\<rparr>, n, err))"

subsection \<open>Identifiers, timeout, sending\<close>

definition nextid :: "hw \<Rightarrow> u16 \<times> hw" where
  "nextid h =
    (h_nextID h, h\<lparr>h_nextID := if h_nextID h = 65535 then 1 else h_nextID h + 1\<rparr>)"

text \<open>\<open>time.NewTicker\<close> panics unless the interval is positive.\<close>

definition newTicker :: "int \<Rightarrow> hw \<Rightarrow> hw outcome" where
  "newTicker dt h = (if dt \<le> 0 then Inl NonPositiveInterval else Inr (h\<lparr>h_timedout := Some dt\<rparr>))"

definition updatetimeout :: "int \<Rightarrow> hw \<Rightarrow> hw outcome" where
  "updatetimeout now h =
    (if h_inflight h > 0 then
       obind (idlog_secondoldest (h_flyingids h))
         (\<lambda>(first, ok).
            if ok then
              let dt = h_waittime h;
                  dt = (case packetlog_get (h_flying h) first of
                          Some firstpack \<Rightarrow> dt - (now - pk_sent firstpack)
                        | None \<Rightarrow> dt);
                  dt = (if dt < 0 then 1000 else dt)
              in obind (newTicker dt h) (\<lambda>h. Inr (h\<lparr>h_timeoutid := first\<rparr>))
            else Inr h)
     else Inr (h\<lparr>h_timedout := None\<rparr>))"

definition SetVerbose :: "int \<Rightarrow> hw \<Rightarrow> hw" where
  "SetVerbose n h = h\<lparr>h_nverbose := n\<rparr>"

definition sendpack :: "conn_write \<Rightarrow> hw \<Rightarrow> packet \<Rightarrow> (hw \<times> go_error option) outcome" where
  "sendpack cw h pack =
    obind (tracker_add (h_sentout h) (pk_id pack))
      (\<lambda>t. let (h, n, err) = conn_Write cw (h\<lparr>h_sentout := t\<rparr>) (pk_request pack);
               h = h\<lparr>h_bytessent := h_bytessent h + n, h_packssent := h_packssent h + 1\<rparr>
           in Inr (h, map_option (SendFailed n) err))"

definition sendstatusrequest :: "conn_write \<Rightarrow> hw \<Rightarrow> hw \<times> go_error option" where
  "sendstatusrequest cw h =
    (let (h, n, err) = conn_Write cw h newStatusPacket;
         h = h\<lparr>h_bytessent := h_bytessent h + n, h_packssent := h_packssent h + 1\<rparr>
     in (h, map_option (StatusRequestFailed n) err))"

definition sendresendrequest :: "conn_write \<Rightarrow> hw \<Rightarrow> u16 \<Rightarrow> hw \<times> go_error option" where
  "sendresendrequest cw h i =
    (let (h, n, err) = conn_Write cw h (newResendPacket i);
         h = h\<lparr>h_bytessent := h_bytessent h + n, h_packssent := h_packssent h + 1, h_resent := i\<rparr>
     in (h, map_option (ResendRequestFailed n) err))"

text \<open>What \<open>sendnext\<close> does once a packet is written; the error of \<open>flyingids.add\<close> is
  ignored.\<close>

definition launch :: "int \<Rightarrow> hw \<Rightarrow> u16 \<Rightarrow> packet \<Rightarrow> hw outcome" where
  "launch now h first pack =
    obind (idlog_add (h_flyingids h) first)
      (\<lambda>(fl, err).
         let h = h\<lparr>h_flying := packetlog_add (h_flying h) first (pack\<lparr>pk_sent := now\<rparr>),
                   h_flyingids := fl, h_inflight := h_inflight h + 1\<rparr>
         in if h_inflight h = 1
            then obind (newTicker (h_waittime h) h) (\<lambda>h. Inr (h\<lparr>h_timeoutid := first\<rparr>))
            else Inr h)"

text \<open>
  The loop of \<open>sendnext\<close>.  A round that goes on raises \<open>inflight\<close> by one, so that
  \<open>maxflight - inflight\<close> rounds are enough fuel.  A missing packet is a nil pointer, which
  \<open>sendpack\<close> dereferences.
\<close>

fun sendnext_loop :: "conn_write \<Rightarrow> int \<Rightarrow> nat \<Rightarrow> hw \<Rightarrow> (hw \<times> go_error option) outcome" where
  "sendnext_loop cw now 0 h = Inr (h, None)"
| "sendnext_loop cw now (Suc k) h =
    (if h_inflight h < h_maxflight h then
       obind (idlog_oldest (h_queuedids h))
         (\<lambda>(first, ok).
            if \<not> ok then Inr (h, Some NoQueuedID)
            else obind (idlog_remove (h_queuedids h))
              (\<lambda>(q, _).
                 case packetlog_get (h_tosend h) first of
                   None \<Rightarrow> Inl NilDereference
                 | Some pack \<Rightarrow>
                     obind (sendpack cw (h\<lparr>h_queuedids := q,
                              h_tosend := packetlog_remove (h_tosend h) first\<rparr>) pack)
                       (\<lambda>(h, err).
                          case err of
                            Some e \<Rightarrow> Inr (h, Some e)
                          | None \<Rightarrow> obind (launch now h first pack) (sendnext_loop cw now k))))
     else Inr (h, None))"

text \<open>The number of packets to send is read once, before the loop.\<close>

definition sendnext :: "conn_write \<Rightarrow> int \<Rightarrow> hw \<Rightarrow> (hw \<times> go_error option) outcome" where
  "sendnext cw now h =
    (if h_handlinglost h then Inr (h, None)
     else
       let tosend = packetlog_getall (h_tosend h) (map fst (pl_packets (h_tosend h)))
       in if length tosend > 0
          then sendnext_loop cw now (nat (h_maxflight h - h_inflight h)) h
          else Inr (h, None))"

subsection \<open>Returning replies\<close>

text \<open>Each round removes an identifier from \<open>flyingids\<close>: as many rounds as it has are
  enough.\<close>

fun returnreply_loop :: "nat \<Rightarrow> hw \<Rightarrow> hw outcome" where
  "returnreply_loop 0 h = Inr h"
| "returnreply_loop (Suc k) h =
    obind (idlog_oldest (h_flyingids h))
      (\<lambda>(first, ok).
         if \<not> ok then Inr h
         else case packetlog_get (h_replied h) first of
                None \<Rightarrow> Inr h
              | Some p \<Rightarrow>
                  obind (idlog_remove (h_flyingids h)) (\<lambda>(fl, _).
                  obind (tracker_add (h_returned h) first) (\<lambda>t.
                  obind (packet_send p) (\<lambda>evs.
                    if h_returnedsize h = 0 then Inl DivideByZero
                    else
                      let index = (h_returnedindex h + 1) mod h_returnedsize h in
                      if length (h_returnedids h) \<le> index then Inl IndexOutOfRange
                      else returnreply_loop k
                        (h\<lparr>h_flyingids := fl,
                           h_replied := packetlog_remove (h_replied h) first,
                           h_returned := t, h_returnedindex := index,
                           h_returnedids := (h_returnedids h)[index := first],
                           h_log := h_log h @ [Returned first evs]\<rparr>)))))"

definition returnreply :: "hw \<Rightarrow> hw outcome" where
  "returnreply h = returnreply_loop (il_n (h_flyingids h)) h"

subsection \<open>The cases of \<open>Run\<close>\<close>

definition run_incoming :: "conn_write \<Rightarrow> int \<Rightarrow> hw \<Rightarrow> packet \<Rightarrow> hw outcome" where
  "run_incoming cw now h pack =
    (let (i, h) = nextid h;
         (pack, _) = packet_writeheader pack i;
         h = h\<lparr>h_tosend := packetlog_add (h_tosend h) (pk_id pack) pack,
               h_log := h_log h @ [Accepted (pk_id pack)]\<rparr>
     in obind (idlog_add (h_queuedids h) (pk_id pack))
          (\<lambda>(q, err).
             case err of
               Some e \<Rightarrow> Inl (PanicError e)
             | None \<Rightarrow> obind (sendnext cw now (h\<lparr>h_queuedids := q\<rparr>)) (\<lambda>(h, _). Inr h)))"

text \<open>A reply with identifier 0, or one whose header does not decode, is taken for a status.
  The datagram was read into a fresh buffer of 1500 bytes.  The channel of statuses holds
  ten: \<open>Run\<close> blocks (\<open>None\<close>) on an eleventh.\<close>

definition run_status :: "hw \<Rightarrow> byte list \<Rightarrow> hw outcome option" where
  "run_status h data =
    (case parseStatus (data @ replicate (1500 - length data) 0) of
       Inl e \<Rightarrow> Some (Inl e)
     | Inr (st, _) \<Rightarrow>
         if length (h_statuses h) \<ge> 10 then None
         else Some (Inr (h\<lparr>h_statuses := h_statuses h @ [st]\<rparr>)))"

text \<open>The reply to a packet in flight, up to the parsing.\<close>

definition run_matched :: "conn_write \<Rightarrow> int \<Rightarrow> hw \<Rightarrow> u16 \<Rightarrow> hw outcome" where
  "run_matched cw now h i =
    (let h = h\<lparr>h_inflight := h_inflight h - 1\<rparr> in
     obind (idlog_oldest (h_flyingids h)) (\<lambda>(oldest, _).
     obind (if i = oldest then updatetimeout now (h\<lparr>h_timedout := None\<rparr>) else Inr h) (\<lambda>h.
     obind (sendnext cw now (h\<lparr>h_flying := packetlog_remove (h_flying h) i\<rparr>))
       (\<lambda>(h, _). Inr h))))"

definition run_reply :: "conn_write \<Rightarrow> int \<Rightarrow> hw \<Rightarrow> byte list \<Rightarrow> hw outcome option" where
  "run_reply cw now h data =
    (let (header, _) = newPacketHeader data; i = ph_pid header in
     case tracker_add (h_received h) i of
       Inl e \<Rightarrow> Some (Inl e)
     | Inr t \<Rightarrow>
         let h = h\<lparr>h_received := t,
                   h_nverbose := if h_nverbose h > 0 then h_nverbose h - 1 else h_nverbose h\<rparr>
         in
         if i = 0 then run_status h data
         else case packetlog_get (h_flying h) i of
                None \<Rightarrow>
                  if i = h_resent h then Some (Inr h)
                  else Some (Inl (PanicError (UnmatchedReply i)))
              | Some req \<Rightarrow>
                  (case run_matched cw now h i of
                     Inl e \<Rightarrow> Some (Inl e)
                   | Inr h \<Rightarrow>
                       (case packet_parse req data of
                          None \<Rightarrow> None
                        | Some (Inl e) \<Rightarrow> Some (Inl e)
                        | Some (Inr (req, _)) \<Rightarrow>
                            Some (returnreply (h\<lparr>h_replied := packetlog_add (h_replied h) i req\<rparr>)))))"

definition run_stop :: "hw \<Rightarrow> hw" where
  "run_stop h = h\<lparr>h_log := h_log h @ [ConnClosed]\<rparr>"

definition run_report :: "hw \<Rightarrow> hw" where
  "run_report h =
    h\<lparr>h_bytessent := 0, h_bytesreceived := 0, h_packssent := 0, h_packsreceived := 0\<rparr>"

subsection \<open>Configuration\<close>

definition ConfigDevice_begin :: "conn_write \<Rightarrow> hw \<Rightarrow> hw outcome" where
  "ConfigDevice_begin cw h =
    (case sendstatusrequest cw h of (h, Some e) \<Rightarrow> Inl (PanicError e) | (h, None) \<Rightarrow> Inr h)"

definition ConfigDevice_finish :: "hw \<Rightarrow> targetstatus \<Rightarrow> hw" where
  "ConfigDevice_finish h statusreply =
    h\<lparr>h_mtu := ts_mtu statusreply, h_nextID := ts_nextid statusreply, h_configured := True\<rparr>"

subsection \<open>Lost packets\<close>

definition handlelost_begin :: "conn_write \<Rightarrow> hw \<Rightarrow> hw outcome" where
  "handlelost_begin cw h =
    (case sendstatusrequest cw (h\<lparr>h_nverbose := 5, h_timedout := None, h_handlinglost := True\<rparr>) of
       (h, Some e) \<Rightarrow> Inl (PanicError e)
     | (h, None) \<Rightarrow> Inr h)"

text \<open>The loop that writes the timed out packet and the consecutive ones in flight again.
  Identifiers run through at most 65536 values, so without end after that many rounds it
  never ends.\<close>

fun resend_loop ::
    "conn_write \<Rightarrow> int \<Rightarrow> nat \<Rightarrow> hw \<Rightarrow> u16 \<Rightarrow> bool \<Rightarrow> (hw \<times> bool) outcome option" where
  "resend_loop cw now 0 h resendid resentpack = None"
| "resend_loop cw now (Suc k) h resendid resentpack =
    (case packetlog_get (h_flying h) resendid of
       None \<Rightarrow> Some (Inr (h, resentpack))
     | Some pack \<Rightarrow>
         (case conn_Write cw h (pk_request pack) of
            (h, n, Some e) \<Rightarrow> Some (Inl (PanicError e))
          | (h, n, None) \<Rightarrow>
              if n \<noteq> length (pk_request pack)
              then Some (Inl (PanicError (ShortResend n (length (pk_request pack)))))
              else
                let h = h\<lparr>h_flying := packetlog_add (h_flying h) resendid (pack\<lparr>pk_sent := now\<rparr>)\<rparr>;
                    resendid = resendid + 1;
                    resendid = (if resendid = 0 then 1 else resendid)
                in resend_loop cw now k h resendid True))"

definition handlelost_recover ::
    "conn_write \<Rightarrow> int \<Rightarrow> hw \<Rightarrow> targetstatus \<Rightarrow> hw outcome option" where
  "handlelost_recover cw now h statusreply =
    (let packetreceived = list_ex (\<lambda>rh. ph_pid rh = h_timeoutid h) (ts_received statusreply);
         packetsent = list_ex (\<lambda>sh. ph_pid sh = h_timeoutid h) (ts_sent statusreply)
     in
     if packetsent then
       (case sendresendrequest cw h (h_timeoutid h) of
          (h, Some e) \<Rightarrow> Some (Inl (PanicError e))
        | (h, None) \<Rightarrow> Some (updatetimeout now (h\<lparr>h_nverbose := 5\<rparr>)))
     else if \<not> packetreceived then
       (case resend_loop cw now 65537 h (h_timeoutid h) False of
          None \<Rightarrow> None
        | Some (Inl e) \<Rightarrow> Some (Inl e)
        | Some (Inr (h, resentpack)) \<Rightarrow>
            Some (if resentpack then updatetimeout now h else Inr h))
     else Some (Inl (PanicError ReceivedNotSent)))"

definition handlelost_finish ::
    "conn_write \<Rightarrow> int \<Rightarrow> hw \<Rightarrow> targetstatus \<Rightarrow> hw outcome option" where
  "handlelost_finish cw now h statusreply =
    (case handlelost_recover cw now h statusreply of
       None \<Rightarrow> None
     | Some (Inl e) \<Rightarrow> Some (Inl e)
     | Some (Inr h) \<Rightarrow>
         Some (obind (sendnext cw now (h\<lparr>h_handlinglost := False\<rparr>)) (\<lambda>(h, _). Inr h)))"

subsection \<open>Clients and the connection\<close>

definition hw_Send :: "hw \<Rightarrow> go_error option" where
  "hw_Send h = (if h_stopped h then Some HwStopped else None)"

text \<open>What \<open>receive\<close> does with the result of \<open>conn.Read\<close> into a buffer of 1500 bytes: the
  datagram it puts on the channel of replies, if any.\<close>

definition hw_receive :: "hw \<Rightarrow> nat \<times> go_error option \<Rightarrow> byte list \<Rightarrow> hw \<times> byte list option" where
  "hw_receive h r buf =
    (let (n, err) = r;
         h = h\<lparr>h_bytesreceived := h_bytesreceived h + n, h_packsreceived := h_packsreceived h + 1\<rparr>
     in if err \<noteq> None then (h, None) else (h, Some (take n buf)))"

end
