(* ===== verification/Hw_System.thy ===== *)
theory Hw_System
  imports Hw
begin

text \<open>
  The goroutines of a hardware interface together: \<open>Run\<close> with the cases of its \<open>select\<close>,
  \<open>ConfigDevice\<close> that it starts, and the \<open>handlelost\<close> that each tick of the timeout starts.
  A step is one case of the \<open>select\<close>, or one of the two halves of the other goroutines.  The
  relation \<open>hw_step\<close> allows every interleaving of them.
\<close>

text \<open>How far \<open>ConfigDevice\<close> has come, in this order.\<close>

datatype config_state = ConfigReady | ConfigWaiting | ConfigDone

fun config_rank :: "config_state \<Rightarrow> nat" where
  "config_rank ConfigReady = 0"
| "config_rank ConfigWaiting = 1"
| "config_rank ConfigDone = 2"

instantiation config_state :: linorder
begin

definition less_eq_config_state :: "config_state \<Rightarrow> config_state \<Rightarrow> bool" where
  "c \<le> d \<longleftrightarrow> config_rank c \<le> config_rank d"

definition less_config_state :: "config_state \<Rightarrow> config_state \<Rightarrow> bool" where
  "c < d \<longleftrightarrow> config_rank c < config_rank d"

instance
proof
  fix c d :: config_state
  show "c \<le> d \<Longrightarrow> d \<le> c \<Longrightarrow> c = d"
    by (cases c; cases d) (simp_all add: less_eq_config_state_def)
qed (auto simp: less_eq_config_state_def less_config_state_def)

end

record system =
  s_hw :: hw
  s_running :: bool
  s_config :: config_state
  s_lost_ready :: nat
  s_lost_waiting :: nat

definition Run_init :: "hw \<Rightarrow> system" where
  "Run_init h =
    \<lparr>s_hw = h, s_running = True, s_config = ConfigReady, s_lost_ready = 0, s_lost_waiting = 0\<rparr>"

text \<open>The cases of the \<open>select\<close>, then the halves of the other goroutines.\<close>

datatype hw_input =
    StopRun
  | Incoming packet
  | Reply "byte list"
  | TimedOut
  | ReportTick
  | ConfigStart
  | ConfigStatus
  | LostStart
  | LostStatus

fun enabled :: "system \<Rightarrow> hw_input \<Rightarrow> bool" where
  "enabled s StopRun = s_running s"
| "enabled s (Incoming pack) = s_running s"
| "enabled s (Reply data) = (s_running s \<and> length data \<le> 1500)"
| "enabled s TimedOut = (s_running s \<and> h_timedout (s_hw s) \<noteq> None)"
| "enabled s ReportTick = s_running s"
| "enabled s ConfigStart = (s_config s = ConfigReady)"
| "enabled s ConfigStatus = (s_config s = ConfigWaiting \<and> h_statuses (s_hw s) \<noteq> [])"
| "enabled s LostStart = (s_lost_ready s > 0)"
| "enabled s LostStatus = (s_lost_waiting s > 0 \<and> h_statuses (s_hw s) \<noteq> [])"

definition with_hw :: "system \<Rightarrow> hw outcome option \<Rightarrow> system outcome option" where
  "with_hw s r = map_option (map_sum id (\<lambda>h. s\<lparr>s_hw := h\<rparr>)) r"

text \<open>One step at time \<open>now\<close>: \<open>None\<close> is a goroutine that blocks or loops for ever, \<open>Inl\<close> a
  panic, which ends the program.\<close>

fun hw_exec :: "conn_write \<Rightarrow> int \<Rightarrow> system \<Rightarrow> hw_input \<Rightarrow> system outcome option" where
  "hw_exec cw now s StopRun = with_hw (s\<lparr>s_running := False\<rparr>) (Some (Inr (run_stop (s_hw s))))"
| "hw_exec cw now s (Incoming pack) = with_hw s (Some (run_incoming cw now (s_hw s) pack))"
| "hw_exec cw now s (Reply data) = with_hw s (run_reply cw now (s_hw s) data)"
| "hw_exec cw now s TimedOut = Some (Inr (s\<lparr>s_lost_ready := s_lost_ready s + 1\<rparr>))"
| "hw_exec cw now s ReportTick = with_hw s (Some (Inr (run_report (s_hw s))))"
| "hw_exec cw now s ConfigStart =
     with_hw (s\<lparr>s_config := ConfigWaiting\<rparr>) (Some (ConfigDevice_begin cw (s_hw s)))"
| "hw_exec cw now s ConfigStatus =
     (let h = s_hw s in
      with_hw (s\<lparr>s_config := ConfigDone\<rparr>)
        (Some (Inr (ConfigDevice_finish (h\<lparr>h_statuses := tl (h_statuses h)\<rparr>) (hd (h_statuses h))))))"
| "hw_exec cw now s LostStart =
     with_hw (s\<lparr>s_lost_ready := s_lost_ready s - 1, s_lost_waiting := s_lost_waiting s + 1\<rparr>)
       (Some (handlelost_begin cw (s_hw s)))"
| "hw_exec cw now s LostStatus =
     (let h = s_hw s in
      with_hw (s\<lparr>s_lost_waiting := s_lost_waiting s - 1\<rparr>)
        (handlelost_finish cw now (h\<lparr>h_statuses := tl (h_statuses h)\<rparr>) (hd (h_statuses h))))"

inductive hw_step :: "conn_write \<Rightarrow> system \<Rightarrow> system \<Rightarrow> bool" for cw where
  step: "enabled s i \<Longrightarrow> hw_exec cw now s i = Some (Inr s') \<Longrightarrow> hw_step cw s s'"

inductive hw_reachable :: "conn_write \<Rightarrow> int \<Rightarrow> system \<Rightarrow> bool" for cw dt where
  start: "hw_reachable cw dt (Run_init (newhw dt))"
| next_step: "hw_reachable cw dt s \<Longrightarrow> hw_step cw s s' \<Longrightarrow> hw_reachable cw dt s'"

inductive_cases hw_stepE: "hw_step cw s s'"

lemma with_hw_Inr [simp]:
  "with_hw s r = Some (Inr s') \<longleftrightarrow> (\<exists>h. r = Some (Inr h) \<and> s' = s\<lparr>s_hw := h\<rparr>)"
proof (cases r)
  case (Some x)
  then show ?thesis by (cases x) (auto simp: with_hw_def)
qed (simp add: with_hw_def)

text \<open>\<open>Run\<close> does not start again, and \<open>ConfigDevice\<close> does not go back.\<close>

lemma hw_step_progress:
  assumes "hw_step cw s s'"
  shows "s_running s' \<longrightarrow> s_running s" "s_config s \<le> s_config s'"
proof -
  obtain i now where i: "enabled s i" "hw_exec cw now s i = Some (Inr s')"
    using assms by (rule hw_stepE)
  show "s_running s' \<longrightarrow> s_running s" using i by (cases i) (auto simp: Let_def)
  show "s_config s \<le> s_config s'"
    using i by (cases i) (auto simp: Let_def less_eq_config_state_def)
qed

end
