(* ===== verification/Hw_Invariant.thy ===== *)
theory Hw_Invariant
  imports Hw_System
begin

text \<open>
  Invariants of the hardware interface.  First what each operation changes and an induction
  rule for each loop; then the shape of the state, which holds in every reachable state
  whatever the connection does, and from which the bound on the packets in flight follows.
\<close>

subsection \<open>What each operation changes\<close>

lemma hw_same_timer: "h\<lparr>h_timedout := h_timedout h, h_timeoutid := h_timeoutid h\<rparr> = (h :: hw)"
  by (cases h) simp

lemma updatetimeout_Inr:
  assumes "updatetimeout now h = Inr h'"
  shows "\<exists>t i. h' = h\<lparr>h_timedout := t, h_timeoutid := i\<rparr>"
proof -
  have "h' = h \<or> h' = h\<lparr>h_timedout := h_timedout h', h_timeoutid := h_timeoutid h\<rparr>
      \<or> h' = h\<lparr>h_timedout := h_timedout h', h_timeoutid := h_timeoutid h'\<rparr>"
    using assms hw_same_timer [of h]
    by (cases h) (auto simp: updatetimeout_def newTicker_def Let_def split: if_splits)
  then show ?thesis using hw_same_timer [of h] by metis
qed

lemma sendpack_Inr:
  assumes "sendpack cw h pack = Inr (h', err)"
  shows "\<exists>t n. tracker_add (h_sentout h) (pk_id pack) = Inr t \<and>
    h' = h\<lparr>h_sentout := t, h_log := h_log h @ [Wrote (pk_request pack)],
           h_bytessent := h_bytessent h + n, h_packssent := h_packssent h + 1\<rparr>
    \<and> err = map_option (SendFailed n) (snd (cw (h_log h) (pk_request pack)))"
  using assms
  by (cases "cw (h_log h) (pk_request pack)") (auto simp: sendpack_def conn_Write_def Let_def)

lemma launch_Inr:
  assumes "launch now h first pack = Inr h'"
  shows "\<exists>fl e t i. idlog_add (h_flyingids h) first = Inr (fl, e) \<and>
    h' = h\<lparr>h_flying := packetlog_add (h_flying h) first (pack\<lparr>pk_sent := now\<rparr>),
           h_flyingids := fl, h_inflight := h_inflight h + 1, h_timedout := t, h_timeoutid := i\<rparr>"
proof -
  obtain fl e where fl: "idlog_add (h_flyingids h) first = Inr (fl, e)"
    using assms by (auto simp: launch_def)
  let ?h = "h\<lparr>h_flying := packetlog_add (h_flying h) first (pack\<lparr>pk_sent := now\<rparr>),
           h_flyingids := fl, h_inflight := h_inflight h + 1\<rparr>"
  have "h' = ?h \<or> h' = ?h\<lparr>h_timedout := h_timedout h', h_timeoutid := h_timeoutid h'\<rparr>"
    using assms by (auto simp: launch_def fl newTicker_def Let_def split: if_splits)
  then show ?thesis using fl hw_same_timer [of ?h] by metis
qed

text \<open>A round takes the oldest queued packet and writes it.\<close>

definition taken :: "conn_write \<Rightarrow> hw \<Rightarrow> u16 \<Rightarrow> packet \<Rightarrow> hw \<Rightarrow> go_error option \<Rightarrow> bool" where
  "taken cw h first pack h1 err \<longleftrightarrow>
     h_inflight h < h_maxflight h \<and> idlog_oldest (h_queuedids h) = Inr (first, True)
   \<and> packetlog_get (h_tosend h) first = Some pack
   \<and> (\<exists>q e. idlog_remove (h_queuedids h) = Inr (q, e)
        \<and> sendpack cw (h\<lparr>h_queuedids := q, h_tosend := packetlog_remove (h_tosend h) first\<rparr>) pack
            = Inr (h1, err))"

lemma sendnext_loop_cases:
  assumes "sendnext_loop cw now (Suc k) h = Inr (h', e)"
  obtains (stop) "h' = h"
    | (failed) first pack e' where "taken cw h first pack h' (Some e')"
    | (launched) first pack h1 h2 where "taken cw h first pack h1 None"
        "launch now h1 first pack = Inr h2" "sendnext_loop cw now k h2 = Inr (h', e)"
proof (cases "h_inflight h < h_maxflight h")
  case False
  with assms stop show thesis by simp
next
  case True
  obtain first ok where first: "idlog_oldest (h_queuedids h) = Inr (first, ok)"
    using assms True by auto
  show thesis
  proof (cases ok)
    case False
    with assms True first stop show thesis by simp
  next
    case ok: True
    obtain q e1 where q: "idlog_remove (h_queuedids h) = Inr (q, e1)"
      using assms True first ok by auto
    obtain pack where pack: "packetlog_get (h_tosend h) first = Some pack"
      using assms True first ok q by (cases "packetlog_get (h_tosend h) first") auto
    obtain h1 err where h1: "sendpack cw (h\<lparr>h_queuedids := q,
          h_tosend := packetlog_remove (h_tosend h) first\<rparr>) pack = Inr (h1, err)"
      using assms True first ok q pack by auto
    have tk: "taken cw h first pack h1 err"
      using True first ok q pack h1 by (auto simp: taken_def)
    show thesis
    proof (cases err)
      case (Some e')
      with assms True first ok q pack h1 have "h' = h1" by simp
      with failed tk Some show thesis by blast
    next
      case None
      with assms True first ok q pack h1 obtain h2 where
        "launch now h1 first pack = Inr h2" "sendnext_loop cw now k h2 = Inr (h', e)"
        by auto
      with launched tk None show thesis by blast
    qed
  qed
qed

text \<open>What a launch and a failed write keep, \<open>sendnext\<close> keeps.\<close>

lemma sendnext_loop_invariant:
  assumes loop: "sendnext_loop cw now k h = Inr (h', e)" and start: "P h"
    and launched: "\<And>h first pack h1 h2. P h \<Longrightarrow> taken cw h first pack h1 None \<Longrightarrow>
      launch now h1 first pack = Inr h2 \<Longrightarrow> P h2"
    and failed: "\<And>h first pack h1 e. P h \<Longrightarrow> taken cw h first pack h1 (Some e) \<Longrightarrow> P h1"
  shows "P h'"
  using loop start
proof (induction k arbitrary: h)
  case 0
  then show ?case by simp
next
  case (Suc k)
  from Suc.prems(1) show ?case
  proof (cases rule: sendnext_loop_cases)
    case stop
    with Suc.prems(2) show ?thesis by simp
  next
    case (failed first pack e')
    with assms(4) Suc.prems(2) show ?thesis by blast
  next
    case (launched first pack h1 h2)
    with assms(3) Suc show ?thesis by blast
  qed
qed

lemma sendnext_invariant:
  assumes "sendnext cw now h = Inr (h', e)" "P h"
    and "\<And>h first pack h1 h2. P h \<Longrightarrow> taken cw h first pack h1 None \<Longrightarrow>
      launch now h1 first pack = Inr h2 \<Longrightarrow> P h2"
    and "\<And>h first pack h1 e. P h \<Longrightarrow> taken cw h first pack h1 (Some e) \<Longrightarrow> P h1"
  shows "P h'"
proof (cases "\<exists>k. sendnext_loop cw now k h = Inr (h', e)")
  case True
  then obtain k where k: "sendnext_loop cw now k h = Inr (h', e)" ..
  show ?thesis by (rule sendnext_loop_invariant [where P = P, OF k]) (fact assms)+
next
  case False
  with assms(1,2) show ?thesis by (auto simp: sendnext_def Let_def split: if_splits)
qed

text \<open>Induction over the rounds of \<open>returnreply\<close>.\<close>

definition return_one :: "hw \<Rightarrow> u16 \<Rightarrow> idlog \<Rightarrow> tracker \<Rightarrow> chan_event list \<Rightarrow> hw" where
  "return_one h first fl t evs =
    (let index = (h_returnedindex h + 1) mod h_returnedsize h in
     h\<lparr>h_flyingids := fl, h_replied := packetlog_remove (h_replied h) first, h_returned := t,
       h_returnedindex := index, h_returnedids := (h_returnedids h)[index := first],
       h_log := h_log h @ [Returned first evs]\<rparr>)"

lemma returnreply_loop_invariant:
  assumes loop: "returnreply_loop k h = Inr h'" and start: "P h"
    and step: "\<And>h first p fl e t evs. P h \<Longrightarrow> idlog_oldest (h_flyingids h) = Inr (first, True) \<Longrightarrow>
      packetlog_get (h_replied h) first = Some p \<Longrightarrow> idlog_remove (h_flyingids h) = Inr (fl, e) \<Longrightarrow>
      tracker_add (h_returned h) first = Inr t \<Longrightarrow> packet_send p = Inr evs \<Longrightarrow>
      P (return_one h first fl t evs)"
  shows "P h'"
  using loop start
proof (induction k arbitrary: h)
  case 0
  then show ?case by simp
next
  case (Suc k)
  obtain first ok where first: "idlog_oldest (h_flyingids h) = Inr (first, ok)"
    using Suc.prems(1) by auto
  show ?case
  proof (cases "ok \<and> packetlog_get (h_replied h) first \<noteq> None")
    case False
    with Suc.prems first show ?thesis by (auto split: if_splits)
  next
    case True
    then obtain p where p: "packetlog_get (h_replied h) first = Some p" by auto
    from Suc.prems(1) first True p obtain fl e t evs where
      "idlog_remove (h_flyingids h) = Inr (fl, e)" "tracker_add (h_returned h) first = Inr t"
      "packet_send p = Inr evs" "returnreply_loop k (return_one h first fl t evs) = Inr h'"
      by (auto simp: return_one_def Let_def split: if_splits)
    moreover from this have "P (return_one h first fl t evs)"
      using first True p by (intro step [OF Suc.prems(2)]) auto
    ultimately show ?thesis using Suc.IH by blast
  qed
qed

subsection \<open>What each handler does\<close>

lemma pk_id_writeheader [simp]: "pk_id (fst (packet_writeheader p i)) = i"
  by (simp add: packet_writeheader_def Let_def case_prod_beta)

definition incoming_state :: "hw \<Rightarrow> packet \<Rightarrow> idlog \<Rightarrow> hw" where
  "incoming_state h pack q =
    h\<lparr>h_nextID := if h_nextID h = 65535 then 1 else h_nextID h + 1,
      h_tosend := packetlog_add (h_tosend h) (h_nextID h) (fst (packet_writeheader pack (h_nextID h))),
      h_log := h_log h @ [Accepted (h_nextID h)], h_queuedids := q\<rparr>"

lemma incoming_Inr:
  assumes "run_incoming cw now h pack = Inr h'"
  obtains q e where "idlog_add (h_queuedids h) (h_nextID h) = Inr (q, None)"
    "sendnext cw now (incoming_state h pack q) = Inr (h', e)"
  using assms
  by (auto simp: run_incoming_def nextid_def Let_def case_prod_beta incoming_state_def
      split: option.split_asm)

definition matched_state :: "hw \<Rightarrow> u16 \<Rightarrow> int option \<Rightarrow> u16 \<Rightarrow> hw" where
  "matched_state h i t j =
    h\<lparr>h_inflight := h_inflight h - 1, h_flying := packetlog_remove (h_flying h) i,
      h_timedout := t, h_timeoutid := j\<rparr>"

lemma matched_Inr:
  assumes run: "run_matched cw now h i = Inr h'"
  obtains t j e where "sendnext cw now (matched_state h i t j) = Inr (h', e)"
proof -
  let ?h = "h\<lparr>h_inflight := h_inflight h - 1\<rparr>"
  obtain oldest ok where o: "idlog_oldest (h_flyingids h) = Inr (oldest, ok)"
    using run by (auto simp: run_matched_def Let_def)
  obtain h1 where h1: "(if i = oldest then updatetimeout now (?h\<lparr>h_timedout := None\<rparr>) else Inr ?h) = Inr h1"
    using run o by (auto simp: run_matched_def Let_def)
  obtain e where send: "sendnext cw now (h1\<lparr>h_flying := packetlog_remove (h_flying h1) i\<rparr>) = Inr (h', e)"
    using run o h1 by (auto simp: run_matched_def Let_def)
  have "\<exists>t j. h1 = ?h\<lparr>h_timedout := t, h_timeoutid := j\<rparr>"
  proof (cases "i = oldest")
    case True
    with h1 updatetimeout_Inr [of now "?h\<lparr>h_timedout := None\<rparr>" h1] show ?thesis by auto
  next
    case False
    with h1 have "h1 = ?h\<lparr>h_timedout := h_timedout ?h, h_timeoutid := h_timeoutid ?h\<rparr>"
      by (simp add: hw_same_timer)
    then show ?thesis by blast
  qed
  then obtain t j where h1: "h1 = ?h\<lparr>h_timedout := t, h_timeoutid := j\<rparr>" by blast
  have "h1\<lparr>h_flying := packetlog_remove (h_flying h1) i\<rparr> = matched_state h i t j"
    by (simp add: h1 matched_state_def)
  with send that show thesis by simp
qed

definition reply_state :: "hw \<Rightarrow> tracker \<Rightarrow> hw" where
  "reply_state h t =
    h\<lparr>h_received := t, h_nverbose := if h_nverbose h > 0 then h_nverbose h - 1 else h_nverbose h\<rparr>"

lemma reply_Inr:
  assumes run: "run_reply cw now h data = Some (Inr h')"
  obtains (status) t st where "tracker_add (h_received h) (ph_pid (fst (newPacketHeader data))) = Inr t"
      "h' = (reply_state h t)\<lparr>h_statuses := h_statuses h @ [st]\<rparr>"
    | (again) t where "tracker_add (h_received h) (ph_pid (fst (newPacketHeader data))) = Inr t"
      "h' = reply_state h t"
    | (matched) t i req h1 req' e where
      "tracker_add (h_received h) i = Inr t" "ph_pid (fst (newPacketHeader data)) = i" "i \<noteq> 0"
      "packetlog_get (h_flying h) i = Some req" "run_matched cw now (reply_state h t) i = Inr h1"
      "packet_parse req data = Some (Inr (req', e))"
      "returnreply (h1\<lparr>h_replied := packetlog_add (h_replied h1) i req'\<rparr>) = Inr h'"
proof -
  let ?i = "ph_pid (fst (newPacketHeader data))"
  obtain t where t: "tracker_add (h_received h) ?i = Inr t"
    using run by (auto simp: run_reply_def Let_def case_prod_beta split: sum.split_asm)
  have eq: "run_reply cw now h data =
     (if ?i = 0 then run_status (reply_state h t) data
      else case packetlog_get (h_flying (reply_state h t)) ?i of
                None \<Rightarrow>
                  if ?i = h_resent (reply_state h t) then Some (Inr (reply_state h t))
                  else Some (Inl (PanicError (UnmatchedReply ?i)))
              | Some req \<Rightarrow>
                  (case run_matched cw now (reply_state h t) ?i of
                     Inl e \<Rightarrow> Some (Inl e)
                   | Inr h \<Rightarrow>
                       (case packet_parse req data of
                          None \<Rightarrow> None
                        | Some (Inl e) \<Rightarrow> Some (Inl e)
                        | Some (Inr (req, _)) \<Rightarrow>
                            Some (returnreply (h\<lparr>h_replied := packetlog_add (h_replied h) ?i req\<rparr>)))))"
    by (simp only: run_reply_def Let_def case_prod_beta t sum.case reply_state_def)
  show thesis
  proof (cases "?i = 0")
    case True
    then have "run_status (reply_state h t) data = Some (Inr h')" using run eq by simp
    then obtain st where "h' = (reply_state h t)\<lparr>h_statuses := h_statuses (reply_state h t) @ [st]\<rparr>"
      by (auto simp: run_status_def split: sum.split_asm if_split_asm)
    then show thesis by (intro status [OF t]) (simp add: reply_state_def)
  next
    case i: False
    show thesis
    proof (cases "packetlog_get (h_flying h) ?i")
      case None
      with run eq i show thesis
        by (intro again [OF t]) (auto simp: reply_state_def split: if_split_asm)
    next
      case (Some req)
      then have get: "packetlog_get (h_flying (reply_state h t)) ?i = Some req"
        by (simp add: reply_state_def)
      obtain h1 where h1: "run_matched cw now (reply_state h t) ?i = Inr h1"
        using run eq i get by (auto split: sum.split_asm)
      obtain req' e where "packet_parse req data = Some (Inr (req', e))"
        using run eq i get h1 by (auto split: option.split_asm sum.split_asm)
      with matched [OF t refl i Some h1] run eq i get h1 show thesis by simp
    qed
  qed
qed

text \<open>What a recovery changes before it calls \<open>sendnext\<close>: the packets in flight keep their
  identifiers, and only writes are added to the history.\<close>

definition recovered :: "hw \<Rightarrow> hw \<Rightarrow> bool" where
  "recovered h h' \<longleftrightarrow> (\<exists>f bs t j n m r v.
     h' = h\<lparr>h_flying := f, h_log := h_log h @ map Wrote bs, h_timedout := t, h_timeoutid := j,
            h_bytessent := n, h_packssent := m, h_resent := r, h_nverbose := v\<rparr>
   \<and> packetlog_inv f \<and> packetlog_ids f = packetlog_ids (h_flying h))"

lemma recoveredI:
  assumes "h' = h\<lparr>h_flying := f, h_log := h_log h @ map Wrote bs, h_timedout := t, h_timeoutid := j,
            h_bytessent := n, h_packssent := m, h_resent := r, h_nverbose := v\<rparr>"
    "packetlog_inv f" "packetlog_ids f = packetlog_ids (h_flying h)"
  shows "recovered h h'"
  unfolding recovered_def using assms by blast

lemma recovered_refl: "packetlog_inv (h_flying h) \<Longrightarrow> recovered h h"
  by (rule recoveredI [where f = "h_flying h" and bs = "[]" and t = "h_timedout h"
        and j = "h_timeoutid h" and n = "h_bytessent h" and m = "h_packssent h" and r = "h_resent h"
        and v = "h_nverbose h"])
    (cases h, auto)

lemma recovered_inv: "recovered h h' \<Longrightarrow> packetlog_inv (h_flying h')"
  by (auto simp: recovered_def)

lemma recovered_trans:
  assumes "recovered h h1" "recovered h1 h2"
  shows "recovered h h2"
proof -
  obtain f bs t j n m r v where 1:
    "h1 = h\<lparr>h_flying := f, h_log := h_log h @ map Wrote bs, h_timedout := t, h_timeoutid := j,
            h_bytessent := n, h_packssent := m, h_resent := r, h_nverbose := v\<rparr>"
    "packetlog_inv f" "packetlog_ids f = packetlog_ids (h_flying h)"
    using assms(1) unfolding recovered_def by blast
  obtain f' bs' t' j' n' m' r' v' where 2:
    "h2 = h1\<lparr>h_flying := f', h_log := h_log h1 @ map Wrote bs', h_timedout := t', h_timeoutid := j',
            h_bytessent := n', h_packssent := m', h_resent := r', h_nverbose := v'\<rparr>"
    "packetlog_inv f'" "packetlog_ids f' = packetlog_ids (h_flying h1)"
    using assms(2) unfolding recovered_def by blast
  show ?thesis
    by (rule recoveredI [where f = f' and bs = "bs @ bs'" and t = t' and j = j' and n = n' and m = m'
          and r = r' and v = v']) (use 1 2 in simp_all)
qed

lemma recovered_updatetimeout:
  assumes "updatetimeout now h = Inr h'" "packetlog_inv (h_flying h)"
  shows "recovered h h'"
proof -
  obtain t i where "h' = h\<lparr>h_timedout := t, h_timeoutid := i\<rparr>"
    using updatetimeout_Inr [OF assms(1)] by blast
  with assms(2) show ?thesis
    by (intro recoveredI [where f = "h_flying h" and bs = "[]" and t = t and j = i
          and n = "h_bytessent h" and m = "h_packssent h" and r = "h_resent h" and v = "h_nverbose h"]) (cases h, simp_all)
qed

lemma recovered_resend_loop:
  "resend_loop cw now k h i b = Some (Inr (h', b')) \<Longrightarrow> packetlog_inv (h_flying h) \<Longrightarrow> recovered h h'"
proof (induction k arbitrary: h i b)
  case 0
  then show ?case by simp
next
  case (Suc k)
  show ?case
  proof (cases "packetlog_get (h_flying h) i")
    case None
    with Suc.prems recovered_refl show ?thesis by auto
  next
    case (Some pack)
    let ?h = "h\<lparr>h_log := h_log h @ [Wrote (pk_request pack)],
                h_flying := packetlog_add (h_flying h) i (pack\<lparr>pk_sent := now\<rparr>)\<rparr>"
    obtain n where "cw (h_log h) (pk_request pack) = (n, None)"
        and rec: "\<exists>i'. resend_loop cw now k ?h i' True = Some (Inr (h', b'))"
      using Suc.prems(1) Some
      by (cases "cw (h_log h) (pk_request pack)")
        (auto simp: conn_Write_def Let_def split: option.split_asm if_split_asm)
    have inv: "packetlog_inv (h_flying ?h)" using Suc.prems(2) by (simp add: plog.inv_add)
    have "recovered h ?h"
      using Suc.prems(2) plog.get_Some [OF Some]
      by (intro recoveredI [where f = "h_flying ?h" and bs = "[pk_request pack]" and t = "h_timedout h"
          and j = "h_timeoutid h" and n = "h_bytessent h" and m = "h_packssent h" and r = "h_resent h"
          and v = "h_nverbose h"])
        (cases h, auto simp: plog.inv_add plog.ids_add)
    moreover have "recovered ?h h'" using rec Suc.IH inv by blast
    ultimately show ?thesis by (rule recovered_trans)
  qed
qed

lemma recovered_resendrequest:
  "packetlog_inv (h_flying h) \<Longrightarrow> recovered h (fst (sendresendrequest cw h i))"
  by (rule recoveredI [where f = "h_flying h" and bs = "[newResendPacket i]" and t = "h_timedout h"
        and j = "h_timeoutid h" and n = "h_bytessent h + fst (cw (h_log h) (newResendPacket i))"
        and m = "Suc (h_packssent h)" and r = i and v = "h_nverbose h"])
    (cases h, auto simp: sendresendrequest_def conn_Write_def Let_def case_prod_beta)

lemma recovered_verbose: "packetlog_inv (h_flying h) \<Longrightarrow> recovered h (h\<lparr>h_nverbose := v\<rparr>)"
  by (rule recoveredI [where f = "h_flying h" and bs = "[]" and t = "h_timedout h"
        and j = "h_timeoutid h" and n = "h_bytessent h" and m = "h_packssent h" and r = "h_resent h"
        and v = v])
    (cases h, auto)

lemma recover_Inr:
  assumes run: "handlelost_recover cw now h st = Some (Inr h')" and inv: "packetlog_inv (h_flying h)"
  shows "recovered h h'"
proof (cases "list_ex (\<lambda>sh. ph_pid sh = h_timeoutid h) (ts_sent st)")
  case True
  obtain h1 e where h1: "sendresendrequest cw h (h_timeoutid h) = (h1, e)" by force
  from recovered_resendrequest [OF inv, of cw "h_timeoutid h"] h1 have r1: "recovered h h1" by simp
  have "updatetimeout now (h1\<lparr>h_nverbose := 5\<rparr>) = Inr h'"
    using run True h1 by (auto simp: handlelost_recover_def split: option.split_asm)
  with recovered_updatetimeout have "recovered (h1\<lparr>h_nverbose := 5\<rparr>) h'"
    using recovered_inv [OF r1] by auto
  with recovered_verbose [OF recovered_inv [OF r1]] r1 show ?thesis
    by (meson recovered_trans)
next
  case False
  then obtain h1 b where h1: "resend_loop cw now 65537 h (h_timeoutid h) False = Some (Inr (h1, b))"
      and h': "(if b then updatetimeout now h1 else Inr h1) = Inr h'"
    using run
    by (auto simp: handlelost_recover_def Let_def split: option.split_asm sum.split_asm if_split_asm)
  have "recovered h h1" using h1 inv by (rule recovered_resend_loop)
  moreover from recovered_inv [OF this] have "recovered h1 h'"
    using h' recovered_updatetimeout recovered_refl by (cases b) auto
  ultimately show ?thesis by (rule recovered_trans)
qed

lemma finish_Inr:
  assumes "handlelost_finish cw now h st = Some (Inr h')" "packetlog_inv (h_flying h)"
  obtains h1 e where "recovered h h1" "sendnext cw now (h1\<lparr>h_handlinglost := False\<rparr>) = Inr (h', e)"
proof -
  obtain h1 where h1: "handlelost_recover cw now h st = Some (Inr h1)"
      and "\<exists>e. sendnext cw now (h1\<lparr>h_handlinglost := False\<rparr>) = Inr (h', e)"
    using assms(1) by (auto simp: handlelost_finish_def split: option.split_asm sum.split_asm)
  with recover_Inr [OF h1 assms(2)] that show thesis by blast
qed

subsection \<open>The shape of the state\<close>

definition shape :: "hw \<Rightarrow> bool" where
  "shape h \<longleftrightarrow>
     packetlog_inv (h_tosend h) \<and> packetlog_inv (h_flying h) \<and> packetlog_inv (h_replied h)
   \<and> idlog_inv (h_queuedids h) \<and> idlog_inv (h_flyingids h)
   \<and> tracker_inv (h_sentout h) \<and> tracker_inv (h_received h) \<and> tracker_inv (h_returned h)
   \<and> h_maxflight h = 4 \<and> int (packetlog_len (h_flying h)) \<le> h_inflight h \<and> h_inflight h \<le> 4
   \<and> h_returnedsize h = 32 \<and> length (h_returnedids h) = 32"

lemma shape_newhw: "shape (newhw dt)"
  using idlog_new [of 256] idlog_new [of 32] tracker_inv_new [of 16]
  by (simp add: shape_def newhw_def) (simp add: packetlog_len_def newpacketlog_def)

lemma idlog_inv_add: "idlog_add q x = Inr (q', e) \<Longrightarrow> idlog_inv q \<Longrightarrow> idlog_inv q'"
  by (rule log.add_total [of q x]) auto

lemma idlog_inv_remove: "idlog_remove q = Inr (q', e) \<Longrightarrow> idlog_inv q \<Longrightarrow> idlog_inv q'"
  using log.remove_ok [of q] log.remove_empty [of q] by (cases "idlog_contents q = []") auto

lemma tracker_inv_add: "tracker_add t x = Inr t' \<Longrightarrow> tracker_inv t \<Longrightarrow> tracker_inv t'"
  using tracker_add_ok [of t x] by auto

lemma packetlog_len_add:
  "packetlog_inv p \<Longrightarrow> packetlog_len (packetlog_add p i pack) \<le> Suc (packetlog_len p)"
  using plog.size_add_new [of p i pack] plog.size_add_old [of p i pack]
  by (cases "i \<in> packetlog_ids p") auto

lemma shape_taken:
  assumes shape: "shape h" and taken: "taken cw h first pack h1 e"
  shows "shape h1" "h_inflight h1 < 4"
proof -
  obtain q e1 where q: "idlog_remove (h_queuedids h) = Inr (q, e1)"
    and send: "sendpack cw (h\<lparr>h_queuedids := q, h_tosend := packetlog_remove (h_tosend h) first\<rparr>) pack
            = Inr (h1, e)" and room: "h_inflight h < h_maxflight h"
    using taken by (auto simp: taken_def)
  have "idlog_inv q" using idlog_inv_remove [OF q] shape by (simp add: shape_def)
  moreover obtain t n where "tracker_add (h_sentout h) (pk_id pack) = Inr t"
      "h1 = h\<lparr>h_queuedids := q, h_tosend := packetlog_remove (h_tosend h) first, h_sentout := t,
          h_log := h_log h @ [Wrote (pk_request pack)],
           h_bytessent := h_bytessent h + n, h_packssent := h_packssent h + 1\<rparr>"
    using sendpack_Inr [OF send] by auto
  moreover from this(1) have "tracker_inv t"
    using shape by (simp add: shape_def tracker_inv_add)
  ultimately show "shape h1" "h_inflight h1 < 4"
    using shape room by (simp_all add: shape_def plog.inv_remove)
qed

lemma shape_launch:
  assumes shape: "shape h" and room: "h_inflight h < 4" and launch: "launch now h first pack = Inr h'"
  shows "shape h'"
proof -
  let ?f = "packetlog_add (h_flying h) first (pack\<lparr>pk_sent := now\<rparr>)"
  have "packetlog_len ?f \<le> Suc (packetlog_len (h_flying h))"
    using shape by (intro packetlog_len_add) (simp add: shape_def)
  then have "int (packetlog_len ?f) \<le> h_inflight h + 1"
    using shape by (simp add: shape_def)
  moreover obtain fl e t i where fl: "idlog_add (h_flyingids h) first = Inr (fl, e)"
    and "h' = h\<lparr>h_flying := ?f, h_flyingids := fl, h_inflight := h_inflight h + 1,
           h_timedout := t, h_timeoutid := i\<rparr>"
    using launch_Inr [OF launch] by blast
  moreover have "idlog_inv fl" using idlog_inv_add [OF fl] shape by (simp add: shape_def)
  ultimately show ?thesis using shape room by (simp add: shape_def plog.inv_add)
qed

lemma shape_sendnext:
  assumes "sendnext cw now h = Inr (h', e)" "shape h"
  shows "shape h'"
proof (rule sendnext_invariant [where P = shape, OF assms])
  show "shape h \<Longrightarrow> taken cw h first pack h1 None \<Longrightarrow> launch now h1 first pack = Inr h2 \<Longrightarrow> shape h2"
    for h first pack h1 h2
    using shape_taken shape_launch by blast
  show "shape h \<Longrightarrow> taken cw h first pack h1 (Some e) \<Longrightarrow> shape h1" for h first pack h1 e
    using shape_taken by blast
qed

lemma shape_returnreply:
  assumes "returnreply h = Inr h'" "shape h"
  shows "shape h'"
proof (rule returnreply_loop_invariant [where P = shape, OF assms(1) [unfolded returnreply_def] assms(2)])
  fix h first p fl e t evs
  assume shape: "shape h" and fl: "idlog_remove (h_flyingids h) = Inr (fl, e)"
    and t: "tracker_add (h_returned h) first = Inr t"
  have "idlog_inv fl" "tracker_inv t"
    using idlog_inv_remove [OF fl] tracker_inv_add [OF t] shape by (simp_all add: shape_def)
  with shape show "shape (return_one h first fl t evs)"
    by (simp add: shape_def return_one_def Let_def plog.inv_remove)
qed

lemma shape_incoming:
  assumes "run_incoming cw now h pack = Inr h'" "shape h"
  shows "shape h'"
proof -
  obtain q e where q: "idlog_add (h_queuedids h) (h_nextID h) = Inr (q, None)"
    "sendnext cw now (incoming_state h pack q) = Inr (h', e)"
    using assms(1) by (rule incoming_Inr)
  have "idlog_inv q" using idlog_inv_add [OF q(1)] assms(2) by (simp add: shape_def)
  with assms(2) have "shape (incoming_state h pack q)"
    by (simp add: shape_def incoming_state_def plog.inv_add)
  with q(2) show ?thesis by (rule shape_sendnext)
qed

lemma shape_matched_state:
  assumes shape: "shape h" and i: "packetlog_get (h_flying h) i = Some req"
  shows "shape (matched_state h i t j)"
proof -
  have "Suc (packetlog_len (packetlog_remove (h_flying h) i)) = packetlog_len (h_flying h)"
    using shape plog.get_Some [OF i] by (intro plog.size_remove) (auto simp: shape_def)
  with shape show ?thesis by (simp add: shape_def matched_state_def plog.inv_remove)
qed

lemma shape_matched:
  assumes run: "run_matched cw now h i = Inr h'" and shape: "shape h"
    and i: "packetlog_get (h_flying h) i = Some req"
  shows "shape h'"
proof -
  obtain t j e where send: "sendnext cw now (matched_state h i t j) = Inr (h', e)"
    using run by (rule matched_Inr)
  then show ?thesis using shape_matched_state [OF shape i] by (rule shape_sendnext)
qed

lemma shape_reply_state:
  assumes "tracker_add (h_received h) i = Inr t" "shape h"
  shows "shape (reply_state h t)"
  using tracker_inv_add [OF assms(1)] assms(2) by (simp add: shape_def reply_state_def)

lemma shape_reply:
  assumes run: "run_reply cw now h data = Some (Inr h')" and shape: "shape h"
  shows "shape h'"
  using run
proof (cases rule: reply_Inr)
  case (status t st)
  with shape_reply_state [OF status(1) shape] show ?thesis by (simp add: shape_def)
next
  case (again t)
  with shape_reply_state [OF again(1) shape] show ?thesis by simp
next
  case (matched t i req h1 req' e)
  have "packetlog_get (h_flying (reply_state h t)) i = Some req"
    using matched(4) by (simp add: reply_state_def)
  with matched(5) shape_reply_state [OF matched(1) shape] have "shape h1"
    by (rule shape_matched)
  then have "shape (h1\<lparr>h_replied := packetlog_add (h_replied h1) i req'\<rparr>)"
    by (simp add: shape_def plog.inv_add)
  with matched(7) show ?thesis by (rule shape_returnreply)
qed

lemma shape_recovered:
  assumes rec: "recovered h h'" and shape: "shape h"
  shows "shape h'"
proof -
  obtain f where f: "packetlog_inv f" "packetlog_ids f = packetlog_ids (h_flying h)" "h_flying h' = f"
      and h': "h_tosend h' = h_tosend h" "h_replied h' = h_replied h" "h_queuedids h' = h_queuedids h"
        "h_flyingids h' = h_flyingids h" "h_sentout h' = h_sentout h" "h_received h' = h_received h"
        "h_returned h' = h_returned h" "h_maxflight h' = h_maxflight h" "h_inflight h' = h_inflight h"
        "h_returnedsize h' = h_returnedsize h" "h_returnedids h' = h_returnedids h"
    using rec by (auto simp: recovered_def)
  have "packetlog_len f = packetlog_len (h_flying h)"
    using shape f(1,2) by (simp add: plog.size_ids shape_def)
  with shape f(1,3) h' show ?thesis by (simp add: shape_def)
qed

lemma shape_statusrequest: "shape (fst (sendstatusrequest cw h)) = shape h"
  by (simp add: sendstatusrequest_def conn_Write_def shape_def Let_def case_prod_beta)

lemma shape_step:
  assumes "hw_step cw s s'" "shape (s_hw s)"
  shows "shape (s_hw s')"
proof -
  obtain i now where 1: "enabled s i" "hw_exec cw now s i = Some (Inr s')"
    using assms(1) by (elim hw_stepE)
  show ?thesis
  proof (cases i)
    case (Incoming pack)
    with 1 assms(2) shape_incoming show ?thesis by auto
  next
    case (Reply data)
    with 1 assms(2) shape_reply show ?thesis by auto
  next
    case ReportTick
    with 1 assms(2) show ?thesis by (auto simp: run_report_def shape_def)
  next
    case StopRun
    with 1 assms(2) show ?thesis by (auto simp: run_stop_def shape_def)
  next
    case ConfigStart
    with 1 assms(2) shape_statusrequest [of cw "s_hw s"] show ?thesis
      by (auto simp: ConfigDevice_begin_def split: prod.split_asm option.split_asm)
  next
    case ConfigStatus
    with 1 assms(2) show ?thesis by (auto simp: ConfigDevice_finish_def shape_def Let_def)
  next
    case LostStart
    have "shape ((s_hw s)\<lparr>h_nverbose := 5, h_timedout := None, h_handlinglost := True\<rparr>)"
      using assms(2) by (simp add: shape_def)
    with 1 LostStart shape_statusrequest
      [of cw "(s_hw s)\<lparr>h_nverbose := 5, h_timedout := None, h_handlinglost := True\<rparr>"]
    show ?thesis by (auto simp: handlelost_begin_def split: prod.split_asm option.split_asm)
  next
    case LostStatus
    let ?h = "(s_hw s)\<lparr>h_statuses := tl (h_statuses (s_hw s))\<rparr>"
    have shape: "shape ?h" "packetlog_inv (h_flying ?h)" using assms(2) by (simp_all add: shape_def)
    obtain h' where fin: "handlelost_finish cw now ?h (hd (h_statuses (s_hw s))) = Some (Inr h')"
        "s_hw s' = h'"
      using 1 LostStatus by (auto simp: Let_def)
    obtain h1 e where h1: "recovered ?h h1" "sendnext cw now (h1\<lparr>h_handlinglost := False\<rparr>) = Inr (h', e)"
      using finish_Inr [OF fin(1) shape(2)] .
    have "shape (h1\<lparr>h_handlinglost := False\<rparr>)"
      using shape_recovered [OF h1(1) shape(1)] by (simp add: shape_def)
    with h1(2) fin(2) show ?thesis by (auto dest: shape_sendnext)
  qed (use 1 assms(2) in auto)
qed

lemma shape_reachable: "hw_reachable cw dt s \<Longrightarrow> shape (s_hw s)"
proof (induction rule: hw_reachable.induct)
  case start
  then show ?case by (simp add: Run_init_def shape_newhw)
next
  case (next_step s s')
  then show ?case using shape_step by blast
qed

subsection \<open>The pipeline of identifiers\<close>

fun accepted_ids :: "hw_event list \<Rightarrow> u16 list" where
  "accepted_ids [] = []"
| "accepted_ids (Accepted i # evs) = i # accepted_ids evs"
| "accepted_ids (Wrote b # evs) = accepted_ids evs"
| "accepted_ids (Returned i r # evs) = accepted_ids evs"
| "accepted_ids (ConnClosed # evs) = accepted_ids evs"

fun returned_ids :: "hw_event list \<Rightarrow> u16 list" where
  "returned_ids [] = []"
| "returned_ids (Accepted i # evs) = returned_ids evs"
| "returned_ids (Wrote b # evs) = returned_ids evs"
| "returned_ids (Returned i r # evs) = i # returned_ids evs"
| "returned_ids (ConnClosed # evs) = returned_ids evs"

lemma accepted_append [simp]: "accepted_ids (xs @ ys) = accepted_ids xs @ accepted_ids ys"
  by (induction xs rule: accepted_ids.induct) auto

lemma returned_append [simp]: "returned_ids (xs @ ys) = returned_ids xs @ returned_ids ys"
  by (induction xs rule: returned_ids.induct) auto

lemma ids_of_writes [simp]: "accepted_ids (map Wrote bs) = []" "returned_ids (map Wrote bs) = []"
  by (induction bs) auto

text \<open>Every accepted identifier has been returned, or is in flight (or awaits its turn to be
  returned), or is queued: in this order.\<close>

definition pipeline :: "hw \<Rightarrow> bool" where
  "pipeline h \<longleftrightarrow>
     accepted_ids (h_log h) = returned_ids (h_log h)
       @ idlog_contents (h_flyingids h) @ idlog_contents (h_queuedids h)
   \<and> 0 \<notin> set (idlog_contents (h_queuedids h))"

text \<open>A connection whose writes succeed.\<close>

definition reliable :: "conn_write \<Rightarrow> bool" where
  "reliable cw \<longleftrightarrow> (\<forall>evs b. cw evs b = (length b, None))"

lemma reliable_taken: "reliable cw \<Longrightarrow> \<not> taken cw h first pack h1 (Some e)"
  using sendpack_Inr [of cw _ pack h1 "Some e"] by (auto simp: taken_def reliable_def)

text \<open>Room in \<open>flyingids\<close> for all that may be sent before the next reply.\<close>

definition roomy :: "hw \<Rightarrow> bool" where
  "roomy h \<longleftrightarrow> 4 \<le> int (idlog_room (h_flyingids h)) + h_inflight h"

lemma queue_removed:
  assumes "idlog_inv q" "idlog_oldest q = Inr (first, True)" "idlog_remove q = Inr (q', e)"
  shows "idlog_contents q = first # idlog_contents q'" "idlog_room q' = Suc (idlog_room q)"
proof -
  have ne: "idlog_contents q \<noteq> []" "first = hd (idlog_contents q)"
    using log.oldest_ok [OF assms(1)] assms(2) by auto
  with log.remove_ok [OF assms(1)] assms(3)
  show "idlog_contents q = first # idlog_contents q'" "idlog_room q' = Suc (idlog_room q)"
    by auto
qed

lemma taken_first:
  assumes "taken cw h first pack h1 e" "shape h"
  shows "\<exists>rest. idlog_contents (h_queuedids h) = first # rest"
  using assms queue_removed(1) [of "h_queuedids h" first] by (auto simp: taken_def shape_def)

text \<open>A launch moves the oldest queued packet to the packets in flight.\<close>

lemma launched_state:
  assumes taken: "taken cw h first pack h1 None" and launch: "launch now h1 first pack = Inr h2"
    and shape: "shape h" and room: "roomy h" and nz: "first \<noteq> 0"
  obtains q fl where
    "idlog_contents (h_queuedids h) = first # idlog_contents q"
    "idlog_room q = Suc (idlog_room (h_queuedids h))"
    "idlog_contents fl = idlog_contents (h_flyingids h) @ [first]"
    "Suc (idlog_room fl) = idlog_room (h_flyingids h)"
    "h_queuedids h2 = q" "h_flyingids h2 = fl"
    "h_tosend h2 = packetlog_remove (h_tosend h) first"
    "h_flying h2 = packetlog_add (h_flying h) first (pack\<lparr>pk_sent := now\<rparr>)"
    "h_replied h2 = h_replied h" "h_inflight h2 = h_inflight h + 1"
    "h_log h2 = h_log h @ [Wrote (pk_request pack)]" "h_nextID h2 = h_nextID h"
    "h_waittime h2 = h_waittime h"
proof -
  obtain q e1 where q: "idlog_remove (h_queuedids h) = Inr (q, e1)"
      "idlog_oldest (h_queuedids h) = Inr (first, True)"
    and send: "sendpack cw (h\<lparr>h_queuedids := q, h_tosend := packetlog_remove (h_tosend h) first\<rparr>) pack
            = Inr (h1, None)" and inflight: "h_inflight h < 4"
    using taken shape by (auto simp: taken_def shape_def)
  obtain t n where h1: "h1 = h\<lparr>h_queuedids := q, h_tosend := packetlog_remove (h_tosend h) first,
        h_sentout := t, h_log := h_log h @ [Wrote (pk_request pack)],
           h_bytessent := h_bytessent h + n, h_packssent := h_packssent h + 1\<rparr>"
    using sendpack_Inr [OF send] by auto
  obtain fl e t i where fl: "idlog_add (h_flyingids h1) first = Inr (fl, e)"
    and h2: "h2 = h1\<lparr>h_flying := packetlog_add (h_flying h1) first (pack\<lparr>pk_sent := now\<rparr>),
           h_flyingids := fl, h_inflight := h_inflight h1 + 1,
           h_timedout := t, h_timeoutid := i\<rparr>"
    using launch_Inr [OF launch] by blast
  have inv: "idlog_inv (h_queuedids h)" "idlog_inv (h_flyingids h)" using shape by (auto simp: shape_def)
  note contents = queue_removed [OF inv(1) q(2,1)]
  have "0 < idlog_room (h_flyingids h)" using room inflight by (simp add: roomy_def)
  then have "idlog_contents fl = idlog_contents (h_flyingids h) @ [first]"
      "Suc (idlog_room fl) = idlog_room (h_flyingids h)"
    using log.add_ok [OF inv(2) nz] fl by (auto simp: h1)
  with contents show thesis by (intro that [of q fl]) (simp_all add: h1 h2)
qed

lemma pipeline_launched:
  assumes taken: "taken cw h first pack h1 None" and launch: "launch now h1 first pack = Inr h2"
    and shape: "shape h" and pipe: "pipeline h" and room: "roomy h"
  shows "pipeline h2 \<and> roomy h2"
proof -
  have "first \<noteq> 0" using taken_first [OF taken shape] pipe by (auto simp: pipeline_def)
  then show ?thesis
    by (rule launched_state [OF taken launch shape room])
      (use pipe room in \<open>auto simp: pipeline_def roomy_def\<close>)
qed

lemma pipeline_sendnext:
  assumes rel: "reliable cw" and send: "sendnext cw now h = Inr (h', e)"
    and start: "shape h" "pipeline h" "roomy h"
  shows "pipeline h'"
proof -
  have "shape h' \<and> pipeline h' \<and> roomy h'"
  proof (rule sendnext_invariant [where P = "\<lambda>h. shape h \<and> pipeline h \<and> roomy h", OF send])
    show "shape h \<and> pipeline h \<and> roomy h" using start by simp
    show "shape h2 \<and> pipeline h2 \<and> roomy h2"
      if "shape h \<and> pipeline h \<and> roomy h" "taken cw h first pack h1 None"
        "launch now h1 first pack = Inr h2" for h first pack h1 h2
    proof -
      from that have shape: "shape h" and pr: "pipeline h" "roomy h" by simp_all
      show ?thesis
        using pipeline_launched [OF that(2,3) shape pr]
          shape_launch [OF shape_taken [OF shape that(2)] that(3)] by simp
    qed
  qed (use reliable_taken [OF rel] in blast)
  then show ?thesis by blast
qed

lemma pipeline_returnreply:
  assumes "returnreply h = Inr h'" "shape h" "pipeline h"
  shows "pipeline h'"
proof -
  have "shape h' \<and> pipeline h'"
  proof (rule returnreply_loop_invariant [where P = "\<lambda>h. shape h \<and> pipeline h",
        OF assms(1) [unfolded returnreply_def]])
    show "shape h \<and> pipeline h" using assms by simp
    fix h first p fl e t evs
    assume P: "shape h \<and> pipeline h" and o: "idlog_oldest (h_flyingids h) = Inr (first, True)"
      and fl: "idlog_remove (h_flyingids h) = Inr (fl, e)" and t: "tracker_add (h_returned h) first = Inr t"
    have "idlog_inv (h_flyingids h)" using P by (simp add: shape_def)
    note contents = queue_removed [OF this o fl]
    have "shape (return_one h first fl t evs)"
      using P idlog_inv_remove [OF fl] tracker_inv_add [OF t]
      by (simp add: shape_def return_one_def Let_def plog.inv_remove)
    moreover have "pipeline (return_one h first fl t evs)"
      using P contents by (simp add: pipeline_def return_one_def Let_def)
    ultimately show "shape (return_one h first fl t evs) \<and> pipeline (return_one h first fl t evs)"
      by simp
  qed
  then show ?thesis by blast
qed

lemma roomy_calm: "shape h \<Longrightarrow> 4 \<le> idlog_room (h_flyingids h) \<Longrightarrow> roomy h"
  by (simp add: shape_def roomy_def)

lemma pipeline_incoming:
  assumes rel: "reliable cw" and run: "run_incoming cw now h pack = Inr h'"
    and h: "shape h" "pipeline h" "roomy h"
  shows "pipeline h'"
proof -
  obtain q e where q: "idlog_add (h_queuedids h) (h_nextID h) = Inr (q, None)"
    and send: "sendnext cw now (incoming_state h pack q) = Inr (h', e)"
    using run by (rule incoming_Inr)
  have inv: "idlog_inv (h_queuedids h)" using h(1) by (simp add: shape_def)
  have nz: "h_nextID h \<noteq> 0" using q log.add_zero [of "h_queuedids h"] by auto
  have "idlog_contents q = idlog_contents (h_queuedids h) @ [h_nextID h]"
    using q nz log.add_ok [OF inv, of "h_nextID h"] log.add_full [OF inv, of "h_nextID h"]
    by (cases "idlog_room (h_queuedids h) = 0") auto
  then have "pipeline (incoming_state h pack q)"
    using h(2) nz by (simp add: pipeline_def incoming_state_def)
  moreover have "shape (incoming_state h pack q)"
    using h(1) idlog_inv_add [OF q] by (simp add: shape_def incoming_state_def plog.inv_add)
  moreover have "roomy (incoming_state h pack q)"
    using h(3) by (simp add: roomy_def incoming_state_def)
  ultimately show ?thesis using pipeline_sendnext [OF rel send] by simp
qed

lemma pipeline_reply:
  assumes rel: "reliable cw" and run: "run_reply cw now h data = Some (Inr h')"
    and h: "shape h" "pipeline h" and room: "4 \<le> idlog_room (h_flyingids h)"
  shows "pipeline h'"
  using run
proof (cases rule: reply_Inr)
  case (status t st)
  with h show ?thesis by (simp add: pipeline_def reply_state_def)
next
  case (again t)
  with h show ?thesis by (simp add: pipeline_def reply_state_def)
next
  case (matched t i req h1 req' e)
  let ?h = "reply_state h t"
  have get: "packetlog_get (h_flying ?h) i = Some req" using matched(4) by (simp add: reply_state_def)
  have shape: "shape ?h" using matched(1) h(1) by (rule shape_reply_state)
  obtain t' j e' where send: "sendnext cw now (matched_state ?h i t' j) = Inr (h1, e')"
    using matched(5) by (rule matched_Inr)
  have sm: "shape (matched_state ?h i t' j)"
    using shape_matched_state [OF shape get] .
  have "idlog_room (h_flyingids (matched_state ?h i t' j)) = idlog_room (h_flyingids h)"
    by (simp add: matched_state_def reply_state_def)
  with room have "roomy (matched_state ?h i t' j)" by (intro roomy_calm [OF sm]) simp
  moreover have "pipeline (matched_state ?h i t' j)"
    using h(2) by (simp add: pipeline_def matched_state_def reply_state_def)
  ultimately have "pipeline h1" using pipeline_sendnext [OF rel send sm] by simp
  then have "pipeline (h1\<lparr>h_replied := packetlog_add (h_replied h1) i req'\<rparr>)"
    by (simp add: pipeline_def)
  moreover have "shape (h1\<lparr>h_replied := packetlog_add (h_replied h1) i req'\<rparr>)"
    using shape_sendnext [OF send sm] by (simp add: shape_def plog.inv_add)
  ultimately show ?thesis using matched(7) pipeline_returnreply by blast
qed

lemma pipeline_recovered: "recovered h h' \<Longrightarrow> pipeline h' = pipeline h \<and> roomy h' = roomy h"
  by (auto simp: recovered_def pipeline_def roomy_def)

lemma pipeline_statusrequest: "pipeline (fst (sendstatusrequest cw h)) = pipeline h"
  by (simp add: sendstatusrequest_def conn_Write_def pipeline_def Let_def case_prod_beta)

lemma pipeline_step:
  assumes rel: "reliable cw" and step: "hw_step cw s s'"
    and h: "shape (s_hw s)" "pipeline (s_hw s)" and room: "4 \<le> idlog_room (h_flyingids (s_hw s))"
  shows "pipeline (s_hw s')"
proof -
  obtain i now where 1: "enabled s i" "hw_exec cw now s i = Some (Inr s')"
    using step by (elim hw_stepE)
  show ?thesis
  proof (cases i)
    case (Incoming pack)
    with 1 pipeline_incoming [OF rel _ h roomy_calm [OF h(1) room]] show ?thesis by auto
  next
    case (Reply data)
    with 1 pipeline_reply [OF rel _ h room] show ?thesis by auto
  next
    case ReportTick
    with 1 h show ?thesis by (auto simp: run_report_def pipeline_def)
  next
    case StopRun
    with 1 h show ?thesis by (auto simp: run_stop_def pipeline_def)
  next
    case ConfigStart
    with 1 h pipeline_statusrequest [of cw "s_hw s"] show ?thesis
      by (auto simp: ConfigDevice_begin_def split: prod.split_asm option.split_asm)
  next
    case ConfigStatus
    with 1 h show ?thesis by (auto simp: ConfigDevice_finish_def pipeline_def Let_def)
  next
    case LostStart
    have "pipeline ((s_hw s)\<lparr>h_nverbose := 5, h_timedout := None, h_handlinglost := True\<rparr>)"
      using h by (simp add: pipeline_def)
    with 1 LostStart pipeline_statusrequest
      [of cw "(s_hw s)\<lparr>h_nverbose := 5, h_timedout := None, h_handlinglost := True\<rparr>"]
    show ?thesis by (auto simp: handlelost_begin_def split: prod.split_asm option.split_asm)
  next
    case LostStatus
    let ?h = "(s_hw s)\<lparr>h_statuses := tl (h_statuses (s_hw s))\<rparr>"
    have h': "shape ?h" "packetlog_inv (h_flying ?h)" "pipeline ?h" "roomy ?h"
      using h roomy_calm [OF h(1) room] by (simp_all add: shape_def pipeline_def roomy_def)
    obtain h2 where fin: "handlelost_finish cw now ?h (hd (h_statuses (s_hw s))) = Some (Inr h2)"
        "s_hw s' = h2"
      using 1 LostStatus by (auto simp: Let_def)
    obtain h1 e where h1: "recovered ?h h1" "sendnext cw now (h1\<lparr>h_handlinglost := False\<rparr>) = Inr (h2, e)"
      using finish_Inr [OF fin(1) h'(2)] .
    have "shape (h1\<lparr>h_handlinglost := False\<rparr>)" "pipeline (h1\<lparr>h_handlinglost := False\<rparr>)"
        "roomy (h1\<lparr>h_handlinglost := False\<rparr>)"
      using shape_recovered [OF h1(1) h'(1)] pipeline_recovered [OF h1(1)] h'(3,4)
      by (simp_all add: shape_def pipeline_def roomy_def)
    with pipeline_sendnext [OF rel h1(2)] fin(2) show ?thesis by simp
  qed (use 1 h in auto)
qed

text \<open>Runs in which the replies that wait for an older one leave room in \<open>flyingids\<close>: at
  most 28 of its 32 slots are taken at the start of a step.\<close>

inductive calm_reachable :: "conn_write \<Rightarrow> int \<Rightarrow> system \<Rightarrow> bool" for cw dt where
  calm_start: "calm_reachable cw dt (Run_init (newhw dt))"
| calm_step: "calm_reachable cw dt s \<Longrightarrow> 4 \<le> idlog_room (h_flyingids (s_hw s)) \<Longrightarrow>
    hw_step cw s s' \<Longrightarrow> calm_reachable cw dt s'"

lemma calm_imp_reachable: "calm_reachable cw dt s \<Longrightarrow> hw_reachable cw dt s"
  by (induction rule: calm_reachable.induct) (auto intro: hw_reachable.intros)

lemma pipeline_reachable: "calm_reachable cw dt s \<Longrightarrow> reliable cw \<Longrightarrow> pipeline (s_hw s)"
proof (induction rule: calm_reachable.induct)
  case calm_start
  then show ?case
    using idlog_new [of 256] idlog_new [of 32] by (simp add: Run_init_def newhw_def pipeline_def)
next
  case (calm_step s s')
  then show ?case using pipeline_step shape_reachable calm_imp_reachable by metis
qed

subsection \<open>Consecutive identifiers\<close>

definition succ_id :: "u16 \<Rightarrow> u16" where
  "succ_id i = (if i = 65535 then 1 else i + 1)"

fun consecutive :: "u16 list \<Rightarrow> u16 \<Rightarrow> bool" where
  "consecutive [] n \<longleftrightarrow> n \<noteq> 0"
| "consecutive (x # xs) n \<longleftrightarrow> x \<noteq> 0 \<and> succ_id x = hd (xs @ [n]) \<and> consecutive xs n"

lemma unat_u16: "unat (i :: u16) \<le> 65535"
proof -
  have "unat i < 2 ^ 16" by (rule order_less_le_trans [OF unsigned_less]) simp
  then show ?thesis by simp
qed

lemma succ_id_max: "(i :: u16) \<noteq> 65535 \<longleftrightarrow> unat i \<noteq> 65535"
  by (simp add: word_unat_eq_iff)

lemma unat_succ_id: "unat (succ_id i) = (if unat i = 65535 then 1 else unat i + 1)"
proof (cases "unat i = 65535")
  case True
  then have "i = 65535" by (simp add: word_unat_eq_iff)
  then show ?thesis by (simp add: succ_id_def)
next
  case False
  then have "unat i + 1 < 65536" using unat_u16 [of i] by simp
  moreover have "i \<noteq> 65535" using False by (simp add: succ_id_max)
  ultimately show ?thesis using False by (simp add: succ_id_def unat_word_ariths)
qed

lemma succ_id_nonzero: "succ_id i \<noteq> 0"
proof -
  have "unat (succ_id i) \<noteq> 0" by (simp add: unat_succ_id)
  then show ?thesis by (metis unat_0)
qed

lemma succ_id_mod: "unat (succ_id i) mod 65535 = (unat i + 1) mod 65535"
  by (simp add: unat_succ_id)

lemma consecutive_offset:
  "consecutive xs n \<Longrightarrow> k < length xs \<Longrightarrow> (unat (xs ! k) + (length xs - k)) mod 65535 = unat n mod 65535"
proof (induction xs arbitrary: k)
  case (Cons x xs)
  have hd: "(unat (hd (xs @ [n])) + length xs) mod 65535 = unat n mod 65535"
    using Cons.IH [of 0] Cons.prems(1) by (cases xs) auto
  show ?case
  proof (cases k)
    case 0
    have "(unat x + 1 + length xs) mod 65535 = (unat (succ_id x) + length xs) mod 65535"
      by (metis mod_add_left_eq succ_id_mod)
    with hd Cons.prems(1) 0 show ?thesis by simp
  next
    case (Suc k')
    with Cons show ?thesis by simp
  qed
qed simp

lemma offset_inj:
  fixes a :: nat
  assumes "(a + i) mod 65535 = (a + j) mod 65535" "i < 65535" "j < 65535"
  shows "i = j"
  using ring_slot_inj [OF assms] .

lemma consecutive_distinct:
  assumes "consecutive xs n" "length xs < 65535"
  shows "distinct (xs @ [n])"
proof -
  have "xs ! i \<noteq> xs ! j" if "i < j" "j < length xs" for i j
  proof
    assume "xs ! i = xs ! j"
    then have "(unat (xs ! j) + (length xs - i)) mod 65535 = (unat (xs ! j) + (length xs - j)) mod 65535"
      using consecutive_offset [OF assms(1), of i] consecutive_offset [OF assms(1), of j] that by simp
    then have "length xs - i = length xs - j"
      by (rule offset_inj) (use assms(2) that in simp_all)
    with that show False by simp
  qed
  then have "distinct xs" by (metis distinct_conv_nth nat_neq_iff)
  moreover have "n \<notin> set xs"
  proof
    assume "n \<in> set xs"
    then obtain k where k: "k < length xs" "xs ! k = n" by (auto simp: in_set_conv_nth)
    then have "(unat n + (length xs - k)) mod 65535 = (unat n + 0) mod 65535"
      using consecutive_offset [OF assms(1) k(1)] by simp
    then have "length xs - k = 0"
      by (rule offset_inj) (use assms(2) k in simp_all)
    with k show False by simp
  qed
  ultimately show ?thesis by simp
qed

lemma consecutive_nonzero: "consecutive xs n \<Longrightarrow> x \<in> set xs \<Longrightarrow> x \<noteq> 0"
  by (induction xs) auto

lemma consecutive_snoc: "consecutive xs n \<Longrightarrow> consecutive (xs @ [n]) (succ_id n)"
proof (induction xs)
  case (Cons x xs)
  then show ?case by (cases xs) auto
qed (simp add: succ_id_nonzero)

subsection \<open>Every identifier in one log\<close>

text \<open>
  \<open>X\<close> is the reply being handled, if any: its packet has left \<open>flying\<close> and not yet reached
  \<open>replied\<close>.
\<close>

definition tracked :: "u16 set \<Rightarrow> hw \<Rightarrow> bool" where
  "tracked X h \<longleftrightarrow>
     set (idlog_contents (h_queuedids h)) = packetlog_ids (h_tosend h)
   \<and> set (idlog_contents (h_flyingids h)) = packetlog_ids (h_flying h) \<union> packetlog_ids (h_replied h) \<union> X
   \<and> packetlog_ids (h_flying h) \<inter> packetlog_ids (h_replied h) = {}
   \<and> X \<inter> (packetlog_ids (h_flying h) \<union> packetlog_ids (h_replied h)) = {}
   \<and> h_inflight h = int (packetlog_len (h_flying h))
   \<and> consecutive (idlog_contents (h_flyingids h) @ idlog_contents (h_queuedids h)) (h_nextID h)
   \<and> idlog_room (h_flyingids h) + length (idlog_contents (h_flyingids h)) = 32
   \<and> idlog_room (h_queuedids h) + length (idlog_contents (h_queuedids h)) = 256
   \<and> 0 < h_waittime h"

lemma tracked_distinct:
  assumes "tracked X h"
  shows "distinct (idlog_contents (h_flyingids h) @ idlog_contents (h_queuedids h) @ [h_nextID h])"
proof -
  let ?xs = "idlog_contents (h_flyingids h) @ idlog_contents (h_queuedids h)"
  have "length ?xs < 65535" using assms by (simp add: tracked_def)
  then have "distinct (?xs @ [h_nextID h])"
    using assms by (intro consecutive_distinct) (auto simp: tracked_def)
  then show ?thesis by simp
qed

lemma tracked_launched:
  assumes taken: "taken cw h first pack h1 None" and launch: "launch now h1 first pack = Inr h2"
    and shape: "shape h" and track: "tracked X h" and room: "roomy h"
  shows "tracked X h2 \<and> roomy h2"
proof -
  obtain rest where rest: "idlog_contents (h_queuedids h) = first # rest"
    using taken_first [OF taken shape] by blast
  then have "consecutive (idlog_contents (h_flyingids h) @ first # rest) (h_nextID h)"
    using track by (simp add: tracked_def)
  then have "first \<noteq> 0" by (rule consecutive_nonzero) simp
  then show ?thesis
  proof (rule launched_state [OF taken launch shape room])
    fix q fl
    assume contents: "idlog_contents (h_queuedids h) = first # idlog_contents q"
        "idlog_room q = Suc (idlog_room (h_queuedids h))"
        "idlog_contents fl = idlog_contents (h_flyingids h) @ [first]"
        "Suc (idlog_room fl) = idlog_room (h_flyingids h)"
      and h2: "h_queuedids h2 = q" "h_flyingids h2 = fl"
        "h_tosend h2 = packetlog_remove (h_tosend h) first"
        "h_flying h2 = packetlog_add (h_flying h) first (pack\<lparr>pk_sent := now\<rparr>)"
        "h_replied h2 = h_replied h" "h_inflight h2 = h_inflight h + 1"
        "h_nextID h2 = h_nextID h" "h_waittime h2 = h_waittime h"
    have dist: "distinct (idlog_contents (h_flyingids h) @ first # idlog_contents q)"
      using tracked_distinct [OF track] contents(1) by simp
    then have new: "first \<notin> packetlog_ids (h_flying h)" "first \<notin> packetlog_ids (h_replied h)" "first \<notin> X"
      using track by (auto simp: tracked_def)
    have inv: "packetlog_inv (h_tosend h)" "packetlog_inv (h_flying h)" using shape by (auto simp: shape_def)
    have "set (idlog_contents q) = packetlog_ids (h_tosend h) - {first}"
      using dist track contents(1) by (auto simp: tracked_def)
    then show ?thesis
      using track contents new inv room
      by (auto simp: tracked_def roomy_def h2 plog.ids_add plog.ids_remove plog.size_add_new)
  qed
qed

lemma tracked_sendnext:
  assumes rel: "reliable cw" and send: "sendnext cw now h = Inr (h', e)"
    and start: "shape h" "tracked X h" "roomy h" "pipeline h"
  shows "tracked X h'"
proof -
  have "shape h' \<and> tracked X h' \<and> roomy h' \<and> pipeline h'"
  proof (rule sendnext_invariant [where P = "\<lambda>h. shape h \<and> tracked X h \<and> roomy h \<and> pipeline h", OF send])
    show "shape h \<and> tracked X h \<and> roomy h \<and> pipeline h" using start by simp
    show "shape h2 \<and> tracked X h2 \<and> roomy h2 \<and> pipeline h2"
      if "shape h \<and> tracked X h \<and> roomy h \<and> pipeline h" "taken cw h first pack h1 None"
        "launch now h1 first pack = Inr h2" for h first pack h1 h2
    proof -
      from that have h: "shape h" "tracked X h" "roomy h" "pipeline h" by simp_all
      show ?thesis
        using pipeline_launched [OF that(2,3) h(1,4,3)] tracked_launched [OF that(2,3) h(1-3)]
          shape_launch [OF shape_taken [OF h(1) that(2)] that(3)] by simp
    qed
  qed (use reliable_taken [OF rel] in blast)
  then show ?thesis by blast
qed

lemma consecutive_tl: "consecutive (x # xs) n \<Longrightarrow> consecutive xs n"
  by simp

lemma tracked_returnreply:
  assumes "returnreply h = Inr h'" "shape h" "tracked {} h"
  shows "tracked {} h'"
proof -
  have "shape h' \<and> tracked {} h'"
  proof (rule returnreply_loop_invariant [where P = "\<lambda>h. shape h \<and> tracked {} h",
        OF assms(1) [unfolded returnreply_def]])
    show "shape h \<and> tracked {} h" using assms by simp
    fix h first p fl e t evs
    assume P: "shape h \<and> tracked {} h" and o: "idlog_oldest (h_flyingids h) = Inr (first, True)"
      and get: "packetlog_get (h_replied h) first = Some p"
      and fl: "idlog_remove (h_flyingids h) = Inr (fl, e)" and t: "tracker_add (h_returned h) first = Inr t"
    have inv: "idlog_inv (h_flyingids h)" "packetlog_inv (h_replied h)" using P by (auto simp: shape_def)
    note contents = queue_removed [OF inv(1) o fl]
    have track: "tracked {} h" using P by simp
    have dist: "first \<notin> set (idlog_contents fl)"
      using tracked_distinct [OF track] contents(1) by simp
    have "first \<in> packetlog_ids (h_replied h)" using plog.get_Some [OF get] .
    then have "set (idlog_contents fl) = packetlog_ids (h_flying h) \<union> (packetlog_ids (h_replied h) - {first})"
      using track dist contents(1) by (auto simp: tracked_def)
    then have "tracked {} (return_one h first fl t evs)"
      using track contents inv by (auto simp: tracked_def return_one_def Let_def plog.ids_remove)
    moreover have "shape (return_one h first fl t evs)"
      using P idlog_inv_remove [OF fl] tracker_inv_add [OF t]
      by (simp add: shape_def return_one_def Let_def plog.inv_remove)
    ultimately show "shape (return_one h first fl t evs) \<and> tracked {} (return_one h first fl t evs)"
      by simp
  qed
  then show ?thesis by blast
qed

lemma queue_added:
  assumes "idlog_inv q" "idlog_add q x = Inr (q', None)"
  shows "x \<noteq> 0" "idlog_contents q' = idlog_contents q @ [x]" "Suc (idlog_room q') = idlog_room q"
proof -
  show nz: "x \<noteq> 0" using assms(2) log.add_zero [of q] by auto
  with log.add_full [OF assms(1) nz] assms(2) have "0 < idlog_room q"
    by (cases "idlog_room q = 0") auto
  with log.add_ok [OF assms(1) nz] assms(2)
  show "idlog_contents q' = idlog_contents q @ [x]" "Suc (idlog_room q') = idlog_room q" by auto
qed

lemma tracked_incoming_state:
  assumes track: "tracked {} h" and shape: "shape h"
    and q: "idlog_add (h_queuedids h) (h_nextID h) = Inr (q, None)"
  shows "tracked {} (incoming_state h pack q)"
proof -
  have inv: "idlog_inv (h_queuedids h)" "packetlog_inv (h_tosend h)" using shape by (auto simp: shape_def)
  note added = queue_added [OF inv(1) q]
  have "consecutive ((idlog_contents (h_flyingids h) @ idlog_contents (h_queuedids h)) @ [h_nextID h])
      (succ_id (h_nextID h))"
    using track by (intro consecutive_snoc) (simp add: tracked_def)
  then show ?thesis
    using track added inv
    by (auto simp: tracked_def incoming_state_def plog.ids_add succ_id_def)
qed

lemma tracked_incoming:
  assumes rel: "reliable cw" and run: "run_incoming cw now h pack = Inr h'"
    and h: "shape h" "pipeline h" "roomy h" "tracked {} h"
  shows "tracked {} h'"
proof -
  obtain q e where q: "idlog_add (h_queuedids h) (h_nextID h) = Inr (q, None)"
    and send: "sendnext cw now (incoming_state h pack q) = Inr (h', e)"
    using run by (rule incoming_Inr)
  have "idlog_inv (h_queuedids h)" using h(1) by (simp add: shape_def)
  note added = queue_added [OF this q]
  have "pipeline (incoming_state h pack q)"
    using h(2) added by (simp add: pipeline_def incoming_state_def)
  moreover have "shape (incoming_state h pack q)"
    using h(1) idlog_inv_add [OF q] by (simp add: shape_def incoming_state_def plog.inv_add)
  moreover have "roomy (incoming_state h pack q)"
    using h(3) by (simp add: roomy_def incoming_state_def)
  ultimately show ?thesis
    using tracked_sendnext [OF rel send] tracked_incoming_state [OF h(4,1) q] by simp
qed

lemma tracked_matched_state:
  assumes track: "tracked {} h" and shape: "shape h" and get: "packetlog_get (h_flying h) i = Some req"
  shows "tracked {i} (matched_state h i t j)"
proof -
  have inv: "packetlog_inv (h_flying h)" using shape by (simp add: shape_def)
  have i: "i \<in> packetlog_ids (h_flying h)" using plog.get_Some [OF get] .
  have "Suc (packetlog_len (packetlog_remove (h_flying h) i)) = packetlog_len (h_flying h)"
    using inv i by (rule plog.size_remove)
  then show ?thesis
    using track i inv by (auto simp: tracked_def matched_state_def plog.ids_remove)
qed

lemma tracked_replied:
  "tracked {i} h \<Longrightarrow> shape h \<Longrightarrow>
     tracked {} (h\<lparr>h_replied := packetlog_add (h_replied h) i req\<rparr>)"
  by (auto simp: tracked_def shape_def plog.ids_add)

lemma tracked_reply_state: "tracked X (reply_state h t) = tracked X h"
  by (simp add: tracked_def reply_state_def)

lemma tracked_reply:
  assumes rel: "reliable cw" and run: "run_reply cw now h data = Some (Inr h')"
    and h: "shape h" "pipeline h" and room: "4 \<le> idlog_room (h_flyingids h)" and track: "tracked {} h"
  shows "tracked {} h'"
  using run
proof (cases rule: reply_Inr)
  case (status t st)
  with track show ?thesis by (simp add: tracked_def reply_state_def)
next
  case (again t)
  with track show ?thesis by (simp add: tracked_reply_state)
next
  case (matched t i req h1 req' e)
  let ?h = "reply_state h t"
  have get: "packetlog_get (h_flying ?h) i = Some req" using matched(4) by (simp add: reply_state_def)
  have shape: "shape ?h" using matched(1) h(1) by (rule shape_reply_state)
  obtain t' j e' where send: "sendnext cw now (matched_state ?h i t' j) = Inr (h1, e')"
    using matched(5) by (rule matched_Inr)
  have sm: "shape (matched_state ?h i t' j)"
    using shape_matched_state [OF shape get] .
  have "idlog_room (h_flyingids (matched_state ?h i t' j)) = idlog_room (h_flyingids h)"
    by (simp add: matched_state_def reply_state_def)
  with room have "roomy (matched_state ?h i t' j)" by (intro roomy_calm [OF sm]) simp
  moreover have "pipeline (matched_state ?h i t' j)"
    using h(2) by (simp add: pipeline_def matched_state_def reply_state_def)
  moreover have "tracked {i} (matched_state ?h i t' j)"
    using track by (intro tracked_matched_state [OF _ shape get]) (simp add: tracked_reply_state)
  ultimately have "tracked {i} h1" using tracked_sendnext [OF rel send sm] by simp
  then have "tracked {} (h1\<lparr>h_replied := packetlog_add (h_replied h1) i req'\<rparr>)"
    using shape_sendnext [OF send sm] by (rule tracked_replied)
  moreover have "shape (h1\<lparr>h_replied := packetlog_add (h_replied h1) i req'\<rparr>)"
    using shape_sendnext [OF send sm] by (simp add: shape_def plog.inv_add)
  ultimately show ?thesis using matched(7) tracked_returnreply by blast
qed

lemma tracked_recovered:
  assumes rec: "recovered h h'" and shape: "shape h"
  shows "tracked X h' = tracked X h"
proof -
  obtain f where f: "packetlog_inv f" "packetlog_ids f = packetlog_ids (h_flying h)" "h_flying h' = f"
      and h': "h_tosend h' = h_tosend h" "h_replied h' = h_replied h" "h_queuedids h' = h_queuedids h"
        "h_flyingids h' = h_flyingids h" "h_inflight h' = h_inflight h" "h_nextID h' = h_nextID h"
        "h_waittime h' = h_waittime h"
    using rec by (auto simp: recovered_def)
  have "packetlog_len f = packetlog_len (h_flying h)"
    using shape f(1,2) by (simp add: plog.size_ids shape_def)
  with f h' show ?thesis by (simp add: tracked_def)
qed

lemma tracked_statusrequest: "tracked X (fst (sendstatusrequest cw h)) = tracked X h"
  by (simp add: sendstatusrequest_def conn_Write_def tracked_def Let_def case_prod_beta)

text \<open>Calm runs in which the device's configuration arrives before the first packet and names
  an identifier.\<close>

definition config_first :: "system \<Rightarrow> system \<Rightarrow> bool" where
  "config_first s s' \<longleftrightarrow>
     (s_config s = ConfigWaiting \<and> s_config s' = ConfigDone \<longrightarrow>
        accepted_ids (h_log (s_hw s)) = [] \<and> h_nextID (s_hw s') \<noteq> 0)"

inductive steady_reachable :: "conn_write \<Rightarrow> int \<Rightarrow> system \<Rightarrow> bool" for cw dt where
  steady_start: "steady_reachable cw dt (Run_init (newhw dt))"
| steady_step: "steady_reachable cw dt s \<Longrightarrow> 4 \<le> idlog_room (h_flyingids (s_hw s)) \<Longrightarrow>
    hw_step cw s s' \<Longrightarrow> config_first s s' \<Longrightarrow> steady_reachable cw dt s'"

lemma steady_imp_calm: "steady_reachable cw dt s \<Longrightarrow> calm_reachable cw dt s"
  by (induction rule: steady_reachable.induct) (auto intro: calm_reachable.intros)

lemma tracked_step:
  assumes rel: "reliable cw" and step: "hw_step cw s s'" and config: "config_first s s'"
    and h: "shape (s_hw s)" "pipeline (s_hw s)" and room: "4 \<le> idlog_room (h_flyingids (s_hw s))"
    and track: "tracked {} (s_hw s)"
  shows "tracked {} (s_hw s')"
proof -
  obtain i now where 1: "enabled s i" "hw_exec cw now s i = Some (Inr s')"
    using step by (elim hw_stepE)
  show ?thesis
  proof (cases i)
    case (Incoming pack)
    with 1 tracked_incoming [OF rel _ h roomy_calm [OF h(1) room] track] show ?thesis by auto
  next
    case (Reply data)
    with 1 tracked_reply [OF rel _ h room track] show ?thesis by auto
  next
    case ReportTick
    with 1 track show ?thesis by (auto simp: run_report_def tracked_def)
  next
    case StopRun
    with 1 track show ?thesis by (auto simp: run_stop_def tracked_def)
  next
    case ConfigStart
    with 1 track tracked_statusrequest [of "{}" cw "s_hw s"] show ?thesis
      by (auto simp: ConfigDevice_begin_def split: prod.split_asm option.split_asm)
  next
    case ConfigStatus
    then have "accepted_ids (h_log (s_hw s)) = []" "h_nextID (s_hw s') \<noteq> 0"
      using 1 config by (auto simp: config_first_def Let_def)
    then have "idlog_contents (h_flyingids (s_hw s)) = []" "idlog_contents (h_queuedids (s_hw s)) = []"
      using h(2) by (auto simp: pipeline_def)
    with 1 ConfigStatus track \<open>h_nextID (s_hw s') \<noteq> 0\<close> show ?thesis
      by (auto simp: ConfigDevice_finish_def tracked_def Let_def)
  next
    case LostStart
    have "tracked {} ((s_hw s)\<lparr>h_nverbose := 5, h_timedout := None, h_handlinglost := True\<rparr>)"
      using track by (simp add: tracked_def)
    with 1 LostStart tracked_statusrequest
      [of "{}" cw "(s_hw s)\<lparr>h_nverbose := 5, h_timedout := None, h_handlinglost := True\<rparr>"]
    show ?thesis by (auto simp: handlelost_begin_def split: prod.split_asm option.split_asm)
  next
    case LostStatus
    let ?h = "(s_hw s)\<lparr>h_statuses := tl (h_statuses (s_hw s))\<rparr>"
    have h': "shape ?h" "packetlog_inv (h_flying ?h)" "pipeline ?h" "roomy ?h" "tracked {} ?h"
      using h track roomy_calm [OF h(1) room]
      by (simp_all add: shape_def pipeline_def roomy_def tracked_def)
    obtain h2 where fin: "handlelost_finish cw now ?h (hd (h_statuses (s_hw s))) = Some (Inr h2)"
        "s_hw s' = h2"
      using 1 LostStatus by (auto simp: Let_def)
    obtain h1 e where h1: "recovered ?h h1" "sendnext cw now (h1\<lparr>h_handlinglost := False\<rparr>) = Inr (h2, e)"
      using finish_Inr [OF fin(1) h'(2)] .
    have "shape (h1\<lparr>h_handlinglost := False\<rparr>)" "pipeline (h1\<lparr>h_handlinglost := False\<rparr>)"
        "roomy (h1\<lparr>h_handlinglost := False\<rparr>)"
      using shape_recovered [OF h1(1) h'(1)] pipeline_recovered [OF h1(1)] h'(3,4)
      by (simp_all add: shape_def pipeline_def roomy_def)
    moreover have "tracked {} h1" using tracked_recovered [OF h1(1) h'(1)] h'(5) by simp
    then have "tracked {} (h1\<lparr>h_handlinglost := False\<rparr>)" by (simp add: tracked_def)
    ultimately show ?thesis using tracked_sendnext [OF rel h1(2)] fin(2) by simp
  qed (use 1 track in auto)
qed

lemma tracked_reachable:
  "steady_reachable cw dt s \<Longrightarrow> reliable cw \<Longrightarrow> 0 < dt \<Longrightarrow> tracked {} (s_hw s)"
proof (induction rule: steady_reachable.induct)
  case steady_start
  have "packetlog_ids newpacketlog = {}" by (simp add: packetlog_ids_def)
  with steady_start show ?case
    using idlog_new [of 256] idlog_new [of 32]
    by (simp add: Run_init_def newhw_def tracked_def packetlog_len_def) (simp add: newpacketlog_def)
next
  case (steady_step s s')
  have calm: "calm_reachable cw dt s" using steady_step.hyps(1) by (rule steady_imp_calm)
  note inv = shape_reachable [OF calm_imp_reachable [OF calm]]
    pipeline_reachable [OF calm steady_step.prems(1)]
  from tracked_step [OF steady_step.prems(1) steady_step.hyps(3,4) inv steady_step.hyps(2)
      steady_step.IH [OF steady_step.prems]]
  show ?case .
qed

end
