(* ===== verification/Hw_Properties.thy ===== *)
theory Hw_Properties
  imports Hw_Invariant
begin

text \<open>
  The properties of the hardware interface: what holds in every reachable state, what the
  recovery of a lost packet does, and where the handlers panic, block or lose track.
\<close>

subsection \<open>Sending does not panic\<close>

lemma launch_total:
  assumes "idlog_inv (h_flyingids h)" "0 < h_waittime h"
  shows "\<exists>h'. launch now h first pack = Inr h'"
proof -
  obtain fl e where "idlog_add (h_flyingids h) first = Inr (fl, e)"
    using assms(1) by (rule log.add_total)
  with assms(2) show ?thesis by (simp add: launch_def newTicker_def Let_def)
qed

lemma sendpack_total: "tracker_inv (h_sentout h) \<Longrightarrow> \<exists>h' e. sendpack cw h pack = Inr (h', e)"
  using tracker_add_ok [of "h_sentout h" "pk_id pack"]
  by (auto simp: sendpack_def conn_Write_def case_prod_beta Let_def)

lemma sendnext_loop_total:
  assumes rel: "reliable cw"
  shows "shape h \<Longrightarrow> tracked X h \<Longrightarrow> roomy h \<Longrightarrow> \<exists>r. sendnext_loop cw now k h = Inr r"
proof (induction k arbitrary: h)
  case 0
  then show ?case by simp
next
  case (Suc k)
  have inv: "idlog_inv (h_queuedids h)" "tracker_inv (h_sentout h)"
    using Suc.prems(1) by (auto simp: shape_def)
  show ?case
  proof (cases "h_inflight h < h_maxflight h \<and> idlog_contents (h_queuedids h) \<noteq> []")
    case False
    with log.oldest_Nil [OF inv(1)] show ?thesis by auto
  next
    case True
    then obtain first rest where c: "idlog_contents (h_queuedids h) = first # rest"
      by (cases "idlog_contents (h_queuedids h)") auto
    note oldest = log.oldest_Cons [OF inv(1) c]
    obtain q where q: "idlog_remove (h_queuedids h) = Inr (q, None)"
      using log.remove_Cons [OF inv(1) c] by blast
    have "first \<in> packetlog_ids (h_tosend h)" using Suc.prems(2) c by (auto simp: tracked_def)
    then obtain pack where pack: "packetlog_get (h_tosend h) first = Some pack"
      by (auto simp: packetlog_ids_def)
    let ?h = "h\<lparr>h_queuedids := q, h_tosend := packetlog_remove (h_tosend h) first\<rparr>"
    obtain h1 e where h1: "sendpack cw ?h pack = Inr (h1, e)"
      using sendpack_total [of ?h cw pack] inv(2) by auto
    have tk: "taken cw h first pack h1 e"
      using True oldest q pack h1 by (auto simp: taken_def)
    then have e: "e = None" using reliable_taken [OF rel] by (cases e) auto
    obtain t n where h1': "h1 = ?h\<lparr>h_sentout := t, h_log := h_log h @ [Wrote (pk_request pack)],
           h_bytessent := h_bytessent h + n, h_packssent := h_packssent h + 1\<rparr>"
      using sendpack_Inr [OF h1] by auto
    have "idlog_inv (h_flyingids h)" using Suc.prems(1) by (simp add: shape_def)
    moreover have "0 < h_waittime h" using Suc.prems(2) unfolding tracked_def by blast
    ultimately obtain h2 where h2: "launch now h1 first pack = Inr h2"
      using launch_total [of h1 now first pack] by (auto simp: h1')
    have "shape h2" using shape_launch [OF shape_taken [OF Suc.prems(1) tk] h2] .
    moreover have "tracked X h2 \<and> roomy h2"
      using tracked_launched [OF tk [unfolded e] h2 Suc.prems] .
    ultimately obtain r where "sendnext_loop cw now k h2 = Inr r" using Suc.IH by blast
    with True oldest q pack h1 e h2 show ?thesis by simp
  qed
qed

lemma sendnext_total:
  assumes "reliable cw" "shape h" "tracked X h" "roomy h"
  shows "\<exists>r. sendnext cw now h = Inr r"
  using sendnext_loop_total [OF assms] by (auto simp: sendnext_def Let_def)

subsection \<open>Properties\<close>

text \<open>C10: In every reachable state, whatever the connection, the clients, the clock and the
  target do, at most four packets are in flight, and the counter \<open>inflight\<close> is at least the
  number of packets in the log \<open>flying\<close>.\<close>

theorem at_most_four_in_flight:
  assumes "hw_reachable cw dt s"
  shows "int (packetlog_len (h_flying (s_hw s))) \<le> h_inflight (s_hw s) \<and> h_inflight (s_hw s) \<le> 4"
  using shape_reachable [OF assms] by (simp add: shape_def)

definition perfect_write :: conn_write where
  "perfect_write evs b = (length b, None)"

lemma reliable_perfect: "reliable perfect_write"
  by (simp add: reliable_def perfect_write_def)

lemma first_incoming:
  "\<exists>h'. run_incoming perfect_write 0 (newhw 3) p = Inr h'"
proof -
  let ?h = "newhw 3"
  have shape: "shape ?h" by (rule shape_newhw)
  have track: "tracked {} ?h"
    using tracked_reachable [OF steady_start reliable_perfect, of 3] by (simp add: Run_init_def)
  have room: "roomy ?h"
    using shape idlog_new [of 32] by (intro roomy_calm) (simp_all add: newhw_def)
  have inv: "idlog_inv (h_queuedids ?h)" "0 < idlog_room (h_queuedids ?h)" "h_nextID ?h \<noteq> 0"
    using idlog_new [of 256] by (simp_all add: newhw_def)
  obtain q where q: "idlog_add (h_queuedids ?h) (h_nextID ?h) = Inr (q, None)"
    using log.add_ok [OF inv(1,3,2)] by blast
  let ?i = "incoming_state ?h p q"
  have "shape ?i"
    using shape idlog_inv_add [OF q inv(1)] by (simp add: shape_def incoming_state_def plog.inv_add)
  moreover have "tracked {} ?i" using tracked_incoming_state [OF track shape q] .
  moreover have "roomy ?i" using room by (simp add: roomy_def incoming_state_def)
  ultimately obtain r where "sendnext perfect_write 0 ?i = Inr r"
    using sendnext_total [OF reliable_perfect] by blast
  with q show ?thesis
    by (cases r) (simp add: run_incoming_def nextid_def Let_def case_prod_beta incoming_state_def)
qed

definition demo_system :: system where
  "demo_system = (Run_init (newhw 3))
     \<lparr>s_hw := (case run_incoming perfect_write 0 (newhw 3) demo_packet of Inr h \<Rightarrow> h | Inl e \<Rightarrow> newhw 3)\<rparr>"

lemma demo_steady: "steady_reachable perfect_write 3 demo_system"
proof -
  obtain h' where h': "run_incoming perfect_write 0 (newhw 3) demo_packet = Inr h'"
    using first_incoming by blast
  let ?s = "Run_init (newhw 3)"
  have "hw_exec perfect_write 0 ?s (Incoming demo_packet) = Some (Inr demo_system)"
    using h' by (simp add: Run_init_def with_hw_def demo_system_def)
  moreover have "enabled ?s (Incoming demo_packet)" by (simp add: Run_init_def)
  ultimately have "hw_step perfect_write ?s demo_system" by (intro hw_step.step)
  moreover have "config_first ?s demo_system" by (simp add: config_first_def Run_init_def)
  moreover have "4 \<le> idlog_room (h_flyingids (s_hw ?s))"
    using idlog_new [of 32] by (simp add: Run_init_def newhw_def)
  ultimately show ?thesis by (intro steady_step [OF steady_start])
qed



theorem at_most_four_in_flight_witness:
  "h_inflight (s_hw demo_system) \<le> 4"
  using at_most_four_in_flight [OF calm_imp_reachable [OF steady_imp_calm [OF demo_steady]]] by simp



text \<open>C11: In a steady run (the connection's writes succeed, the timeout period is positive,
  the device's configuration is complete before the first packet comes in, and four slots of
  \<open>flyingids\<close> are free before each step), every identifier in \<open>queuedids\<close> has its packet in
  \<open>tosend\<close>, every one in \<open>flyingids\<close> has it either in \<open>flying\<close> or in \<open>replied\<close>, no identifier
  is used twice, and \<open>inflight\<close> counts the packets in \<open>flying\<close>.\<close>

theorem every_id_in_one_log:
  assumes "reliable cw" "0 < dt" "steady_reachable cw dt s"
  shows "let h = s_hw s in
      packetlog_ids (h_tosend h) = set (idlog_contents (h_queuedids h))
    \<and> packetlog_ids (h_flying h) \<union> packetlog_ids (h_replied h) = set (idlog_contents (h_flyingids h))
    \<and> packetlog_ids (h_flying h) \<inter> packetlog_ids (h_replied h) = {}
    \<and> distinct (idlog_contents (h_flyingids h) @ idlog_contents (h_queuedids h) @ [h_nextID h])
    \<and> h_inflight h = int (packetlog_len (h_flying h))"
proof -
  have "tracked {} (s_hw s)" using tracked_reachable [OF assms(3,1,2)] .
  with tracked_distinct [OF this] show ?thesis by (simp add: tracked_def Let_def)
qed

theorem every_id_in_one_log_witness:
  "h_inflight (s_hw demo_system) = int (packetlog_len (h_flying (s_hw demo_system)))"
  using every_id_in_one_log [OF reliable_perfect _ demo_steady] by (simp add: Let_def)



text \<open>C29: A reply whose identifier is not 0, not in flight and not the last one asked again
  panics: a datagram that the network duplicates ends the program when its copy arrives after
  the reply was handled.\<close>

theorem unmatched_reply_panics:
  assumes "shape h" "newPacketHeader data = (hdr, None)" "ph_pid hdr \<noteq> 0"
    and "packetlog_get (h_flying h) (ph_pid hdr) = None" "ph_pid hdr \<noteq> h_resent h"
  shows "run_reply cw now h data = Some (Inl (PanicError (UnmatchedReply (ph_pid hdr))))"
proof -
  obtain t where "tracker_add (h_received h) (ph_pid hdr) = Inr t"
    using assms(1) tracker_add_ok [of "h_received h" "ph_pid hdr"] by (auto simp: shape_def)
  with assms show ?thesis by (simp add: run_reply_def Let_def)
qed

theorem unmatched_reply_panics_witness:
  "run_reply perfect_write 0 (newhw 3) [0x20, 0, 7, 0xf0] = Some (Inl (PanicError (UnmatchedReply 7)))"
proof -
  have hd: "newPacketHeader [0x20, 0, 7, 0xf0]
      = (\<lparr>ph_version = 2, ph_pid = 7, ph_ptype = 0, ph_order = BigEndian\<rparr>, None)"
    by (simp add: newPacketHeader_def packetheader_decode_def)
  from unmatched_reply_panics [OF shape_newhw hd] show ?thesis
    by (simp add: newhw_def)
qed

text \<open>C30: A datagram whose header does not decode is taken for a status reply and queued for
  the goroutines that wait for one; when ten statuses are queued, \<open>Run\<close> blocks for ever.\<close>

theorem undecodable_taken_for_status:
  assumes "shape h" "newPacketHeader data = (hdr, Some err)" "length data \<le> 1500"
  shows "if length (h_statuses h) \<ge> 10 then run_reply cw now h data = None
    else \<exists>h' st. run_reply cw now h data = Some (Inr h') \<and> h_statuses h' = h_statuses h @ [st]"
proof -
  have hd: "ph_pid hdr = 0"
    using newPacketHeader_error [OF assms(2)] by (simp add: zero_packetheader_def)
  obtain t where t: "tracker_add (h_received h) 0 = Inr t"
    using assms(1) tracker_add_ok [of "h_received h" 0] by (auto simp: shape_def)
  obtain st where st: "parseStatus (data @ replicate (1500 - length data) 0) = Inr (st, None)"
    using parseStatus_total [of "data @ replicate (1500 - length data) 0"] assms(3) by auto
  show ?thesis
    using t st assms(2) by (simp add: run_reply_def run_status_def Let_def hd)
qed

theorem undecodable_taken_for_status_witness:
  "\<exists>h' st. run_reply perfect_write 0 (newhw 3) [1, 2] = Some (Inr h') \<and> h_statuses h' = [st]"
proof -
  have hd: "newPacketHeader [1, 2] = (zero_packetheader, Some PacketHeaderTooShort)"
    by (simp add: newPacketHeader_def packetheader_decode_def)
  from undecodable_taken_for_status [OF shape_newhw hd] show ?thesis
    by (simp add: newhw_def)
qed

subsection \<open>Lost packets\<close>








text \<open>C32: \<open>updatetimeout\<close> times the second oldest packet that awaits its return, even one
  whose reply has already arrived (it then waits the whole period for it); an interval that
  has run out gives a microsecond, and one that ends at this very nanosecond panics.\<close>

theorem updatetimeout_second_oldest:
  assumes "shape h" "0 < h_inflight h" "0 < h_waittime h"
    and "idlog_contents (h_flyingids h) = first # second # rest"
  shows "updatetimeout now h =
    (case packetlog_get (h_flying h) second of
       None \<Rightarrow> Inr (h\<lparr>h_timedout := Some (h_waittime h), h_timeoutid := second\<rparr>)
     | Some p \<Rightarrow>
         let left = pk_sent p + h_waittime h - now in
         if left = 0 then Inl NonPositiveInterval
         else Inr (h\<lparr>h_timedout := Some (if left < 0 then 1000 else left), h_timeoutid := second\<rparr>))"
proof -
  have "idlog_inv (h_flyingids h)" using assms(1) by (simp add: shape_def)
  from log.secondoldest_Cons [OF this assms(4)]
  have "idlog_secondoldest (h_flyingids h) = Inr (second, True)" .
  with assms(2,3) show ?thesis
    by (auto simp: updatetimeout_def newTicker_def Let_def split: option.split)
qed

theorem updatetimeout_second_oldest_witness:
  "updatetimeout 9 ((newhw 3)\<lparr>h_flyingids := \<lparr>il_ids = [7, 8], il_first = 0, il_n = 2, il_max = 2\<rparr>,
      h_inflight := 1\<rparr>)
    = Inr ((newhw 3)\<lparr>h_flyingids := \<lparr>il_ids = [7, 8], il_first = 0, il_n = 2, il_max = 2\<rparr>,
      h_inflight := 1, h_timedout := Some 3, h_timeoutid := 8\<rparr>)"
proof -
  let ?h = "(newhw 3)\<lparr>h_flyingids := \<lparr>il_ids = [7, 8], il_first = 0, il_n = 2, il_max = 2\<rparr>,
      h_inflight := 1\<rparr>"
  have "shape ?h" using shape_newhw [of 3] 
    by (simp add: shape_def idlog_inv_def) (simp add: newhw_def newpacketlog_def packetlog_len_def)
  moreover have "idlog_contents (h_flyingids ?h) = [7, 8]"
    by (simp add: idlog_contents_def upt_rec)
  ultimately show ?thesis
    using updatetimeout_second_oldest [of ?h 7 8 "[]" 9] by (simp add: newhw_def)
qed

text \<open>C33: When \<open>flyingids\<close> is full (32 packets wait for an older one) a packet is still sent
  and put into \<open>flying\<close>, but its identifier is not kept: no later round of \<open>returnreply\<close>
  finds it, so that its reply is never returned.\<close>

theorem full_flyingids_loses_packet:
  assumes "shape h" "idlog_room (h_flyingids h) = 0" "first \<noteq> 0" "launch now h first pack = Inr h'"
  shows "first \<in> packetlog_ids (h_flying h') \<and> idlog_contents (h_flyingids h') = idlog_contents (h_flyingids h)"
proof -
  have inv: "idlog_inv (h_flyingids h)" "packetlog_inv (h_flying h)"
    using assms(1) by (auto simp: shape_def)
  have "idlog_add (h_flyingids h) first = Inr (h_flyingids h, Some (LogFull first))"
    using log.add_full [OF inv(1) assms(3,2)] .
  with launch_Inr [OF assms(4)] inv(2) show ?thesis by (auto simp: plog.ids_add)
qed

theorem full_flyingids_loses_packet_witness:
  "\<exists>h'. launch 0 ((newhw 3)\<lparr>h_flyingids := \<lparr>il_ids = [7], il_first = 0, il_n = 1, il_max = 1\<rparr>\<rparr>) 8 demo_packet
      = Inr h' \<and> 8 \<in> packetlog_ids (h_flying h') \<and> idlog_contents (h_flyingids h') = [7]"
proof -
  let ?h = "(newhw 3)\<lparr>h_flyingids := \<lparr>il_ids = [7], il_first = 0, il_n = 1, il_max = 1\<rparr>\<rparr>"
  have shape: "shape ?h" using shape_newhw [of 3] by (simp add: shape_def idlog_inv_def)
  obtain h' where h': "launch 0 ?h 8 demo_packet = Inr h'"
    using launch_total [of ?h 0 8 demo_packet] by (auto simp: idlog_inv_def newhw_def)
  have "idlog_room (h_flyingids ?h) = 0" "idlog_contents (h_flyingids ?h) = [7]"
    by (simp_all add: idlog_room_def idlog_contents_def)
  with full_flyingids_loses_packet [OF shape _ _ h'] h' show ?thesis by simp
qed

subsection \<open>Writing lost packets again\<close>

lemma succ_id_power:
  "i \<noteq> 0 \<Longrightarrow> unat ((succ_id ^^ n) i) = (unat i - 1 + n) mod 65535 + 1"
proof (induction n)
  case 0
  have "0 < unat i" using 0 by (simp add: unat_gt_0)
  moreover have "unat i < 2 ^ 16" by (rule order_less_le_trans [OF unsigned_less]) simp
  ultimately show ?case by simp
next
  case (Suc n)
  then show ?case by (simp add: unat_succ_id mod_Suc)
qed

lemma succ_id_power_nonzero: "0 < n \<Longrightarrow> (succ_id ^^ n) i \<noteq> 0"
  by (cases n) (simp_all add: succ_id_nonzero)

lemma mod_shift_inj:
  assumes "(c + a) mod N = (c + b) mod N" "a < N" "b < (N :: nat)"
  shows "a = b"
proof -
  have le: "x = y" if "x \<le> y" "(c + y) mod N = (c + x) mod N" "y < N" for x y
  proof -
    have "N dvd (c + y) - (c + x)" using that(1,2) by (subst mod_eq_dvd_iff_nat [symmetric]) simp_all
    then have "N dvd y - x" by simp
    then have "y - x = 0" using that(3) dvd_imp_le [of N "y - x"] by (cases "y - x = 0") simp_all
    with that(1) show ?thesis by simp
  qed
  show ?thesis using assms le [of a b] le [of b a] by (cases "a \<le> b") simp_all
qed

text \<open>Consecutive identifiers do not repeat before the whole cycle of 65535.\<close>

lemma succ_id_inj: "inj_on (\<lambda>n. (succ_id ^^ n) i) {..< 65535}"
proof -
  have main: "inj_on (\<lambda>n. (succ_id ^^ n) i) {..< 65535}" if "i \<noteq> 0" for i
  proof (rule inj_onI)
    fix a b assume "a \<in> {..< 65535 :: nat}" "b \<in> {..< 65535 :: nat}" "(succ_id ^^ a) i = (succ_id ^^ b) i"
    then have "(unat i - 1 + a) mod 65535 = (unat i - 1 + b) mod 65535"
        "a < 65535" "b < 65535"
      using succ_id_power [OF \<open>i \<noteq> 0\<close>, of a] succ_id_power [OF \<open>i \<noteq> 0\<close>, of b] by simp_all
    then show "a = b" by (rule mod_shift_inj)
  qed
  show ?thesis
  proof (cases "i = 0")
    case True
    have 1: "succ_id 0 = 1" by (simp add: succ_id_def)
    show ?thesis
    proof (rule inj_onI)
      fix a b assume ab: "a \<in> {..< 65535 :: nat}" "b \<in> {..< 65535 :: nat}" "(succ_id ^^ a) i = (succ_id ^^ b) i"
      show "a = b"
      proof (cases "a = 0 \<or> b = 0")
        case True
        with ab(3) \<open>i = 0\<close> show ?thesis
          using succ_id_power_nonzero [of a 0] succ_id_power_nonzero [of b 0] by (cases "a = 0"; cases "b = 0") auto
      next
        case False
        then obtain c d where "a = Suc c" "b = Suc d" by (metis not0_implies_Suc)
        with ab(3) \<open>i = 0\<close> 1 have "(succ_id ^^ c) 1 = (succ_id ^^ d) 1" "c < 65535" "d < 65535"
          using ab(1,2) by (simp_all add: funpow_Suc_right del: funpow.simps)
        with main [of 1] \<open>a = Suc c\<close> \<open>b = Suc d\<close> show ?thesis by (auto dest!: inj_onD)
      qed
    qed
  qed (rule main)
qed

lemma first_missing_id:
  assumes "finite S" "card S < 65535"
  shows "\<exists>m \<le> card S. (\<forall>j < m. (succ_id ^^ j) i \<in> S) \<and> (succ_id ^^ m) i \<notin> S"
proof -
  have "inj_on (\<lambda>n. (succ_id ^^ n) i) {.. card S}"
    using succ_id_inj by (rule inj_on_subset) (use assms(2) in auto)
  then have "card ((\<lambda>n. (succ_id ^^ n) i) ` {.. card S}) = Suc (card S)"
    by (simp add: card_image)
  then have "\<not> (\<lambda>n. (succ_id ^^ n) i) ` {.. card S} \<subseteq> S"
    using card_mono [OF assms(1), of "(\<lambda>n. (succ_id ^^ n) i) ` {.. card S}"] by auto
  then obtain n where n: "n \<le> card S" "(succ_id ^^ n) i \<notin> S" by (auto simp: image_subset_iff)
  define m where "m = (LEAST n. (succ_id ^^ n) i \<notin> S)"
  have "(succ_id ^^ m) i \<notin> S" unfolding m_def using n(2) by (rule LeastI)
  moreover have "m \<le> n" unfolding m_def using n(2) by (rule Least_le)
  moreover have "\<forall>j < m. (succ_id ^^ j) i \<in> S" unfolding m_def using not_less_Least by blast
  ultimately show ?thesis using n(1) by (intro exI [of _ m]) simp
qed

definition flying_request :: "hw \<Rightarrow> u16 \<Rightarrow> byte list" where
  "flying_request h i = (case packetlog_get (h_flying h) i of Some p \<Rightarrow> pk_request p | None \<Rightarrow> [])"

lemma resend_next: "(let r = i + 1 in if r = 0 then 1 else r) = succ_id i" for i :: u16
proof -
  have "i + 1 = 0 \<longleftrightarrow> i = 65535" using succ_id_max [of i] by (auto simp: eq_neg_iff_add_eq_0 [symmetric])
  then show ?thesis by (simp add: succ_id_def Let_def)
qed

lemma resend_loop_chain:
  assumes rel: "reliable cw"
  shows "packetlog_inv (h_flying h) \<Longrightarrow> m < k \<Longrightarrow> m < 65535 \<Longrightarrow>
    \<forall>j < m. (succ_id ^^ j) i \<in> packetlog_ids (h_flying h) \<Longrightarrow> (succ_id ^^ m) i \<notin> packetlog_ids (h_flying h) \<Longrightarrow>
    \<exists>h'. resend_loop cw now k h i b = Some (Inr (h', b \<or> 0 < m))
      \<and> h_log h' = h_log h @ map (\<lambda>j. Wrote (flying_request h ((succ_id ^^ j) i))) [0 ..< m]
      \<and> (\<forall>x. packetlog_get (h_flying h') x =
           (if x \<in> (\<lambda>j. (succ_id ^^ j) i) ` {..< m}
            then map_option (\<lambda>p. p\<lparr>pk_sent := now\<rparr>) (packetlog_get (h_flying h) x)
            else packetlog_get (h_flying h) x))"
proof (induction m arbitrary: k h i b)
  case 0
  then obtain k' where "k = Suc k'" by (cases k) auto
  with 0 show ?case by (simp add: plog.get_None [symmetric])
next
  case (Suc m)
  obtain k' where k: "k = Suc k'" using Suc.prems(2) by (cases k) auto
  have "(succ_id ^^ 0) i \<in> packetlog_ids (h_flying h)" using Suc.prems(4) by blast
  then obtain p where p: "packetlog_get (h_flying h) i = Some p" by (auto simp: packetlog_ids_def)
  let ?h = "h\<lparr>h_log := h_log h @ [Wrote (pk_request p)],
                h_flying := packetlog_add (h_flying h) i (p\<lparr>pk_sent := now\<rparr>)\<rparr>"
  let ?i = "succ_id i"
  have shift: "(succ_id ^^ j) ?i = (succ_id ^^ Suc j) i" for j
    by (simp add: funpow_Suc_right del: funpow.simps)
  have step: "resend_loop cw now k h i b = resend_loop cw now k' ?h ?i True"
    using rel p resend_next [of i] by (simp add: k reliable_def conn_Write_def Let_def)
  have ids: "packetlog_ids (h_flying ?h) = packetlog_ids (h_flying h)"
    using Suc.prems(1) plog.get_Some [OF p] by (simp add: plog.ids_add insert_absorb)
  have inv: "packetlog_inv (h_flying ?h)" using Suc.prems(1) by (simp add: plog.inv_add)
  have m: "m < k'" "m < 65535" using Suc.prems(2,3) k by simp_all
  have c1: "\<forall>j < m. (succ_id ^^ j) ?i \<in> packetlog_ids (h_flying ?h)"
    unfolding ids shift using Suc.prems(4) by (metis Suc_less_eq)
  have c2: "(succ_id ^^ m) ?i \<notin> packetlog_ids (h_flying ?h)"
    unfolding ids shift using Suc.prems(5) .
  obtain h' where h': "resend_loop cw now k' ?h ?i True = Some (Inr (h', True))"
      "h_log h' = h_log ?h @ map (\<lambda>j. Wrote (flying_request ?h ((succ_id ^^ j) ?i))) [0 ..< m]"
      "\<And>x. packetlog_get (h_flying h') x =
           (if x \<in> (\<lambda>j. (succ_id ^^ j) ?i) ` {..< m}
            then map_option (\<lambda>p. p\<lparr>pk_sent := now\<rparr>) (packetlog_get (h_flying ?h) x)
            else packetlog_get (h_flying ?h) x)"
    using Suc.IH [OF inv m c1 c2, of True] by auto
  have req: "flying_request ?h x = flying_request h x" for x
    using Suc.prems(1) p by (simp add: flying_request_def plog.get_add)
  have "h_log h' = h_log h @ map (\<lambda>j. Wrote (flying_request h ((succ_id ^^ j) i))) [0 ..< Suc m]"
    unfolding upt_conv_Cons [OF zero_less_Suc] map_Suc_upt [symmetric]
    by (simp add: h'(2) req shift p flying_request_def [of h i] del: funpow.simps)
  moreover have "packetlog_get (h_flying h') x =
           (if x \<in> (\<lambda>j. (succ_id ^^ j) i) ` {..< Suc m}
            then map_option (\<lambda>p. p\<lparr>pk_sent := now\<rparr>) (packetlog_get (h_flying h) x)
            else packetlog_get (h_flying h) x)" for x
  proof -
    have img: "(\<lambda>j. (succ_id ^^ j) i) ` {..< Suc m} = insert i ((\<lambda>j. (succ_id ^^ j) ?i) ` {..< m})"
      unfolding shift lessThan_Suc_eq_insert_0 image_insert image_image by simp
    show ?thesis
      using h'(3) [of x] Suc.prems(1) p unfolding img by (simp add: plog.get_add option.map_comp comp_def)
  qed
  ultimately show ?case using step h'(1) by auto
qed

text \<open>The timed out packet and those with the consecutive identifiers after it, up to the first
  that is not in flight: their number and the writes of them.\<close>

definition in_a_row :: "hw \<Rightarrow> nat \<Rightarrow> bool" where
  "in_a_row h m \<longleftrightarrow>
     (\<forall>j < m. (succ_id ^^ j) (h_timeoutid h) \<in> packetlog_ids (h_flying h))
   \<and> (succ_id ^^ m) (h_timeoutid h) \<notin> packetlog_ids (h_flying h)"

definition lost_writes :: "hw \<Rightarrow> nat \<Rightarrow> hw_event list" where
  "lost_writes h m = map (\<lambda>j. Wrote (flying_request h ((succ_id ^^ j) (h_timeoutid h)))) [0 ..< m]"

text \<open>Packets in flight with the given time of sending.\<close>

definition sent_at :: "int \<Rightarrow> hw \<Rightarrow> u16 \<Rightarrow> bool" where
  "sent_at now h i \<longleftrightarrow> (\<exists>p. packetlog_get (h_flying h) i = Some p \<and> pk_sent p = now)"

lemma resend_loop_writes:
  assumes shape: "shape h" and rel: "reliable cw"
  obtains m h' where "m \<le> 4" "in_a_row h m"
    "resend_loop cw now 65537 h (h_timeoutid h) False = Some (Inr (h', 0 < m))"
    "h_log h' = h_log h @ lost_writes h m"
    "\<forall>j < m. sent_at now h' ((succ_id ^^ j) (h_timeoutid h))"
proof -
  let ?ids = "packetlog_ids (h_flying h)" and ?i = "h_timeoutid h"
  have inv: "packetlog_inv (h_flying h)" and "packetlog_len (h_flying h) \<le> 4"
    using shape by (auto simp: shape_def)
  then have "card ?ids \<le> 4" by (simp add: plog.size_ids)
  moreover obtain m where "m \<le> card ?ids" "\<forall>j < m. (succ_id ^^ j) ?i \<in> ?ids" "(succ_id ^^ m) ?i \<notin> ?ids"
    using first_missing_id [of ?ids ?i] calculation by auto
  ultimately have m: "m \<le> 4" "\<forall>j < m. (succ_id ^^ j) ?i \<in> ?ids" "(succ_id ^^ m) ?i \<notin> ?ids" by simp_all
  have "m < 65537" "m < 65535" using m(1) by simp_all
  from resend_loop_chain [OF rel inv this m(2,3), of now False] obtain h' where h':
    "resend_loop cw now 65537 h ?i False = Some (Inr (h', 0 < m))" "h_log h' = h_log h @ lost_writes h m"
    "\<And>x. packetlog_get (h_flying h') x =
           (if x \<in> (\<lambda>j. (succ_id ^^ j) ?i) ` {..< m}
            then map_option (\<lambda>p. p\<lparr>pk_sent := now\<rparr>) (packetlog_get (h_flying h) x)
            else packetlog_get (h_flying h) x)"
    by (auto simp: lost_writes_def)
  have "sent_at now h' ((succ_id ^^ j) ?i)" if j: "j < m" for j
  proof -
    obtain p where "packetlog_get (h_flying h) ((succ_id ^^ j) ?i) = Some p"
      using m(2) j by (auto simp: packetlog_ids_def)
    then show ?thesis using j by (auto simp: sent_at_def h'(3))
  qed
  with that m h' show thesis by (simp add: in_a_row_def)
qed

text \<open>\<open>updatetimeout\<close> panics only for an interval that is exactly over.\<close>

lemma updatetimeout_panic:
  assumes "shape h" "updatetimeout now h = Inl e"
  shows "e = NonPositiveInterval"
proof -
  have "idlog_inv (h_flyingids h)" using assms(1) by (simp add: shape_def)
  then obtain v where "idlog_secondoldest (h_flyingids h) = Inr (v, 1 < length (idlog_contents (h_flyingids h)))"
    using log.secondoldest_ok by blast
  with assms(2) show ?thesis
    by (auto simp: updatetimeout_def newTicker_def Let_def obind_eq_Inl split: if_splits)
qed

text \<open>What \<open>handlelost_recover\<close> does, by the lists of the status.\<close>

definition listed :: "packetheader list \<Rightarrow> u16 \<Rightarrow> bool" where
  "listed hs i \<longleftrightarrow> list_ex (\<lambda>h. ph_pid h = i) hs"

text \<open>The new state, or a panic of the ticker, which may come after the writes.\<close>

definition recovers :: "int \<Rightarrow> hw \<Rightarrow> hw_event list \<Rightarrow> nat \<Rightarrow> hw outcome \<Rightarrow> bool" where
  "recovers now h es m r = (case r of
     Inl e \<Rightarrow> e = NonPositiveInterval
   | Inr h' \<Rightarrow> h_log h' = h_log h @ es \<and> (\<forall>j < m. sent_at now h' ((succ_id ^^ j) (h_timeoutid h))))"

lemma recovers_updatetimeout:
  assumes "h_log h1 = h_log h @ es" "\<forall>j < m. sent_at now h1 ((succ_id ^^ j) (h_timeoutid h))" "shape h1"
  shows "recovers now h es m (updatetimeout now h1)"
proof (cases "updatetimeout now h1")
  case (Inl e)
  with assms(3) updatetimeout_panic show ?thesis by (simp add: recovers_def)
next
  case (Inr h')
  then obtain t i where "h' = h1\<lparr>h_timedout := t, h_timeoutid := i\<rparr>" using updatetimeout_Inr by blast
  with assms Inr show ?thesis by (simp add: recovers_def sent_at_def)
qed

lemma recover_cases:
  assumes shape: "shape h" and rel: "reliable cw"
  shows "\<exists>r. handlelost_recover cw now h st = Some r \<and>
    (if listed (ts_sent st) (h_timeoutid h) then recovers now h [Wrote (newResendPacket (h_timeoutid h))] 0 r
     else if listed (ts_received st) (h_timeoutid h) then r = Inl (PanicError ReceivedNotSent)
     else \<exists>m \<le> 4. in_a_row h m \<and> recovers now h (lost_writes h m) m r)"
proof -
  let ?i = "h_timeoutid h"
  have inv: "packetlog_inv (h_flying h)" using shape by (simp add: shape_def)
  consider (sent) "listed (ts_sent st) ?i" | (received) "\<not> listed (ts_sent st) ?i" "listed (ts_received st) ?i"
    | (lost) "\<not> listed (ts_sent st) ?i" "\<not> listed (ts_received st) ?i" by blast
  then show ?thesis
  proof cases
    case sent
    obtain h1 where h1: "sendresendrequest cw h ?i = (h1, None)" "h_log h1 = h_log h @ [Wrote (newResendPacket ?i)]"
      using rel by (simp add: sendresendrequest_def conn_Write_def reliable_def Let_def)
    have "recovered h h1" using recovered_resendrequest [OF inv, of cw ?i] h1(1) by simp
    with shape have "shape (h1\<lparr>h_nverbose := 5\<rparr>)" using shape_recovered by (simp add: shape_def)
    with h1 recovers_updatetimeout [of "h1\<lparr>h_nverbose := 5\<rparr>" h _ 0]
    show ?thesis using sent by (simp add: handlelost_recover_def listed_def)
  next
    case received
    then show ?thesis by (simp add: handlelost_recover_def listed_def)
  next
    case lost
    obtain m h1 where m: "m \<le> 4" "in_a_row h m" and
      h1: "resend_loop cw now 65537 h ?i False = Some (Inr (h1, 0 < m))"
        "h_log h1 = h_log h @ lost_writes h m" "\<forall>j < m. sent_at now h1 ((succ_id ^^ j) ?i)"
      using resend_loop_writes [OF shape rel] by blast
    have "shape h1" using shape_recovered [OF recovered_resend_loop [OF h1(1) inv] shape] .
    from recovers_updatetimeout [OF h1(2,3) this] h1(2,3)
    have "recovers now h (lost_writes h m) m (if 0 < m then updatetimeout now h1 else Inr h1)"
      by (simp add: recovers_def)
    with lost m h1(1) show ?thesis by (auto simp: handlelost_recover_def listed_def)
  qed
qed

end
