(* ===== verification/Hw_Delivery.thy ===== *)
theory Hw_Delivery
  imports Hw_Properties
begin

text \<open>
  What the hardware interface delivers.  Sending and recovering move packets between the logs
  but change no packet except its time of sending; from this it follows that the responses
  returned to a client come from a reply to the client's own packet, and, when the target
  answers truthfully, that they are the truthful responses in the order of the packets.
\<close>

subsection \<open>Requests on the wire\<close>

definition waiting :: "hw \<Rightarrow> u16 \<Rightarrow> packet \<Rightarrow> bool" where
  "waiting h i p \<longleftrightarrow> packetlog_get (h_tosend h) i = Some p \<or> packetlog_get (h_flying h) i = Some p"

text \<open>A datagram that carries requests under an identifier, and the last such datagram that was
  written.\<close>

definition carries :: "u16 \<Rightarrow> byte list \<Rightarrow> bool" where
  "carries i b \<longleftrightarrow>
     snd (newPacketHeader b) = None \<and> ph_ptype (fst (newPacketHeader b)) = control
   \<and> ph_pid (fst (newPacketHeader b)) = i"

fun datagrams :: "hw_event list \<Rightarrow> byte list list" where
  "datagrams [] = []"
| "datagrams (Wrote b # es) = b # datagrams es"
| "datagrams (_ # es) = datagrams es"

definition last_request :: "hw_event list \<Rightarrow> u16 \<Rightarrow> byte list option" where
  "last_request es i =
    (let bs = filter (carries i) (datagrams es) in if bs = [] then None else Some (last bs))"

lemma datagrams_append [simp]: "datagrams (xs @ ys) = datagrams xs @ datagrams ys"
  by (induction xs rule: datagrams.induct) auto

lemma last_request_simps [simp]:
  "last_request [] i = None"
  "last_request (es @ [Wrote b]) i = (if carries i b then Some b else last_request es i)"
  by (simp_all add: last_request_def Let_def)

lemma carries_unique: "carries i b \<Longrightarrow> carries j b \<longleftrightarrow> j = i"
  by (auto simp: carries_def)

text \<open>Events that neither reply to a client nor carry requests.\<close>

definition no_reply_event :: "hw_event \<Rightarrow> bool" where
  "no_reply_event e = (case e of Wrote b \<Rightarrow> True | ConnClosed \<Rightarrow> True | _ \<Rightarrow> False)"

definition quiet :: "hw_event \<Rightarrow> bool" where
  "quiet e = (case e of Wrote b \<Rightarrow> \<forall>i. \<not> carries i b | ConnClosed \<Rightarrow> True | _ \<Rightarrow> False)"

lemma quiet_no_reply: "list_all quiet es \<Longrightarrow> list_all no_reply_event es"
  by (induction es) (auto simp: quiet_def no_reply_event_def split: hw_event.splits)

lemma last_request_unrelated:
  "filter (carries i) (datagrams es) = [] \<Longrightarrow> last_request (log @ es) i = last_request log i"
  by (simp add: last_request_def)

lemma last_request_quiet: "list_all quiet es \<Longrightarrow> last_request (log @ es) i = last_request log i"
proof (rule last_request_unrelated)
  show "list_all quiet es \<Longrightarrow> filter (carries i) (datagrams es) = []"
    by (induction es rule: datagrams.induct) (auto simp: quiet_def)
qed

lemma quiet_simps [simp]:
  "quiet ConnClosed" "quiet (Wrote newStatusPacket)" "quiet (Wrote (newResendPacket i))"
  using target_requests_decode [of i] by (simp_all add: quiet_def carries_def ptype_defs)

text \<open>Every packet in flight was written; on a connection whose writes succeed, it was the
  last one under its identifier.\<close>

definition written_out :: "hw \<Rightarrow> bool" where
  "written_out h \<longleftrightarrow>
     (\<forall>i p. packetlog_get (h_flying h) i = Some p \<longrightarrow> Wrote (pk_request p) \<in> set (h_log h))"

definition on_wire :: "hw \<Rightarrow> bool" where
  "on_wire h \<longleftrightarrow>
     (\<forall>i p. waiting h i p \<longrightarrow> carries i (pk_request p))
   \<and> (\<forall>i p. packetlog_get (h_flying h) i = Some p \<longrightarrow> last_request (h_log h) i = Some (pk_request p))"

subsection \<open>Packets are kept\<close>

text \<open>From \<open>h\<close> to \<open>h'\<close> no packet is added, the waiting ones change at most their time of
  sending, nothing but writes (and a closed connection) is added to the history, and packets
  are written before they fly.\<close>

definition keeps_packets :: "conn_write \<Rightarrow> hw \<Rightarrow> hw \<Rightarrow> bool" where
  "keeps_packets cw h h' \<longleftrightarrow>
     (\<forall>i p'. waiting h' i p' \<longrightarrow> (\<exists>p t. waiting h i p \<and> p' = p\<lparr>pk_sent := t\<rparr>))
   \<and> h_replied h' = h_replied h
   \<and> (\<exists>es. h_log h' = h_log h @ es \<and> list_all no_reply_event es)
   \<and> (written_out h \<longrightarrow> written_out h')
   \<and> (reliable cw \<longrightarrow> on_wire h \<longrightarrow> on_wire h')"

lemma keeps_packetsI:
  assumes "\<And>i p'. waiting h' i p' \<Longrightarrow> \<exists>p t. waiting h i p \<and> p' = p\<lparr>pk_sent := t\<rparr>"
    "h_replied h' = h_replied h" "h_log h' = h_log h @ es" "list_all no_reply_event es"
    "written_out h \<Longrightarrow> written_out h'" "reliable cw \<Longrightarrow> on_wire h \<Longrightarrow> on_wire h'"
  shows "keeps_packets cw h h'"
  using assms by (auto simp: keeps_packets_def)

lemma keeps_packets_fewer:
  assumes wait: "\<And>i p. waiting h' i p \<Longrightarrow> waiting h i p"
    and fly: "\<And>i p. packetlog_get (h_flying h') i = Some p \<Longrightarrow> packetlog_get (h_flying h) i = Some p"
    and h: "h_replied h' = h_replied h" "h_log h' = h_log h @ es" "list_all quiet es"
  shows "keeps_packets cw h h'"
proof (rule keeps_packetsI [OF _ h(1,2) quiet_no_reply [OF h(3)]])
  fix i p' assume "waiting h' i p'"
  with wait have "waiting h i p' \<and> p' = p'\<lparr>pk_sent := pk_sent p'\<rparr>" by simp
  then show "\<exists>p t. waiting h i p \<and> p' = p\<lparr>pk_sent := t\<rparr>" by blast
next
  show "written_out h \<Longrightarrow> written_out h'"
    unfolding written_out_def h(2) set_append using fly by blast
  show "on_wire h \<Longrightarrow> on_wire h'"
    using fly wait last_request_quiet [OF h(3)] by (simp add: on_wire_def h(2))
qed

lemma keeps_packets_same:
  assumes "h_tosend h' = h_tosend h" "h_flying h' = h_flying h" "h_replied h' = h_replied h"
    "h_log h' = h_log h @ es" "list_all quiet es"
  shows "keeps_packets cw h h'"
  using assms by (intro keeps_packets_fewer) (auto simp: waiting_def)

lemma keeps_packets_refl: "keeps_packets cw h h"
  by (rule keeps_packets_same [where es = "[]"]) simp_all

lemma keeps_packets_trans:
  assumes "keeps_packets cw h h1" "keeps_packets cw h1 h2"
  shows "keeps_packets cw h h2"
proof -
  obtain es es' where es: "h_log h1 = h_log h @ es" "h_log h2 = h_log h1 @ es'"
      "list_all no_reply_event es" "list_all no_reply_event es'"
    using assms by (auto simp: keeps_packets_def)
  show ?thesis
  proof (rule keeps_packetsI [where es = "es @ es'"])
    fix i p2 assume "waiting h2 i p2"
    then obtain p1 t1 where "waiting h1 i p1" "p2 = p1\<lparr>pk_sent := t1\<rparr>"
      using assms(2) unfolding keeps_packets_def by blast
    moreover from this obtain p t where "waiting h i p" "p1 = p\<lparr>pk_sent := t\<rparr>"
      using assms(1) unfolding keeps_packets_def by blast
    ultimately show "\<exists>p t. waiting h i p \<and> p2 = p\<lparr>pk_sent := t\<rparr>" by auto
  qed (use assms es in \<open>auto simp: keeps_packets_def\<close>)
qed

text \<open>A packet that waits goes out under its identifier and flies from then on.\<close>

lemma keeps_packets_goes_out:
  assumes pack: "waiting h i pack" and inv: "packetlog_inv (h_flying h)"
    and wait: "\<And>j p. waiting h' j p \<Longrightarrow> j = i \<and> p = pack\<lparr>pk_sent := now\<rparr> \<or> waiting h j p"
    and h: "h_flying h' = packetlog_add (h_flying h) i (pack\<lparr>pk_sent := now\<rparr>)"
      "h_replied h' = h_replied h" "h_log h' = h_log h @ [Wrote (pk_request pack)]"
  shows "keeps_packets cw h h'"
proof (rule keeps_packetsI [OF _ h(2,3)])
  fix j p' assume "waiting h' j p'"
  with wait have "j = i \<and> p' = pack\<lparr>pk_sent := now\<rparr> \<or> waiting h j p' \<and> p' = p'\<lparr>pk_sent := pk_sent p'\<rparr>"
    by simp
  with pack show "\<exists>p t. waiting h j p \<and> p' = p\<lparr>pk_sent := t\<rparr>" by blast
next
  show "written_out h \<Longrightarrow> written_out h'"
    using inv by (auto simp: written_out_def h plog.get_add split: if_splits)
  assume wire: "on_wire h"
  then have "carries i (pk_request pack)" using pack by (simp add: on_wire_def)
  note own = carries_unique [OF this]
  have "carries j (pk_request p)" if "waiting h' j p" for j p
  proof -
    from wait [OF that] show ?thesis
    proof
      assume "j = i \<and> p = pack\<lparr>pk_sent := now\<rparr>"
      with own show ?thesis by simp
    qed (use wire in \<open>simp add: on_wire_def\<close>)
  qed
  moreover have "last_request (h_log h') j = Some (pk_request p)"
    if "packetlog_get (h_flying h') j = Some p" for j p
  proof (cases "j = i")
    case True
    with that inv own show ?thesis by (auto simp: h plog.get_add)
  next
    case False
    with that inv have "packetlog_get (h_flying h) j = Some p" by (simp add: h plog.get_add)
    with wire False own show ?thesis by (simp add: on_wire_def h)
  qed
  ultimately show "on_wire h'" by (simp add: on_wire_def)
qed (simp add: no_reply_event_def)

lemma taken_cases:
  assumes "taken cw h first pack h1 e" "shape h"
  obtains q t n where "h1 = h\<lparr>h_queuedids := q, h_tosend := packetlog_remove (h_tosend h) first,
           h_sentout := t, h_log := h_log h @ [Wrote (pk_request pack)],
           h_bytessent := h_bytessent h + n, h_packssent := h_packssent h + 1\<rparr>"
    "waiting h first pack" "\<And>i p. waiting h1 i p \<Longrightarrow> waiting h i p"
    "packetlog_inv (h_flying h)"
proof -
  obtain q t n where h1: "h1 = h\<lparr>h_queuedids := q, h_tosend := packetlog_remove (h_tosend h) first,
           h_sentout := t, h_log := h_log h @ [Wrote (pk_request pack)],
           h_bytessent := h_bytessent h + n, h_packssent := h_packssent h + 1\<rparr>"
      and get: "packetlog_get (h_tosend h) first = Some pack"
    using assms(1) by (auto simp: taken_def dest!: sendpack_Inr)
  have inv: "packetlog_inv (h_tosend h)" "packetlog_inv (h_flying h)" using assms(2) by (auto simp: shape_def)
  have wait: "waiting h i p" if "waiting h1 i p" for i p
    using that inv by (auto simp: h1 waiting_def plog.get_remove split: if_splits)
  have "waiting h first pack" using get by (simp add: waiting_def)
  from that [OF h1 this wait inv(2)] show thesis .
qed

lemma keeps_packets_failed:
  assumes "taken cw h first pack h1 (Some e)" "shape h"
  shows "keeps_packets cw h h1"
  using assms
proof (rule taken_cases)
  fix q t n
  assume h1: "h1 = h\<lparr>h_queuedids := q, h_tosend := packetlog_remove (h_tosend h) first,
           h_sentout := t, h_log := h_log h @ [Wrote (pk_request pack)],
           h_bytessent := h_bytessent h + n, h_packssent := h_packssent h + 1\<rparr>"
    and wait: "\<And>i p. waiting h1 i p \<Longrightarrow> waiting h i p"
  show ?thesis
  proof (rule keeps_packetsI [where es = "[Wrote (pk_request pack)]"])
    fix i p' assume "waiting h1 i p'"
    with wait have "waiting h i p' \<and> p' = p'\<lparr>pk_sent := pk_sent p'\<rparr>" by simp
    then show "\<exists>p t. waiting h i p \<and> p' = p\<lparr>pk_sent := t\<rparr>" by blast
  next
    show "reliable cw \<Longrightarrow> on_wire h1" using assms(1) reliable_taken by blast
  qed (auto simp: h1 no_reply_event_def written_out_def)
qed

lemma keeps_packets_launched:
  assumes "taken cw h first pack h1 None" "launch now h1 first pack = Inr h2" "shape h"
  shows "keeps_packets cw h h2"
  using assms(1,3)
proof (rule taken_cases)
  fix q t n
  assume h1: "h1 = h\<lparr>h_queuedids := q, h_tosend := packetlog_remove (h_tosend h) first,
           h_sentout := t, h_log := h_log h @ [Wrote (pk_request pack)],
           h_bytessent := h_bytessent h + n, h_packssent := h_packssent h + 1\<rparr>"
    and pack: "waiting h first pack" and wait: "\<And>i p. waiting h1 i p \<Longrightarrow> waiting h i p"
    and inv: "packetlog_inv (h_flying h)"
  obtain fl t i where h2: "h2 = h1\<lparr>h_flying := packetlog_add (h_flying h1) first (pack\<lparr>pk_sent := now\<rparr>),
           h_flyingids := fl, h_inflight := h_inflight h1 + 1, h_timedout := t, h_timeoutid := i\<rparr>"
    using launch_Inr [OF assms(2)] by blast
  show ?thesis
  proof (rule keeps_packets_goes_out [OF pack inv])
    fix j p assume "waiting h2 j p"
    then have "j = first \<and> p = pack\<lparr>pk_sent := now\<rparr> \<or> waiting h1 j p"
      using inv by (auto simp: h2 h1 waiting_def plog.get_add split: if_splits)
    with wait show "j = first \<and> p = pack\<lparr>pk_sent := now\<rparr> \<or> waiting h j p" by blast
  qed (simp_all add: h2 h1)
qed

lemma keeps_packets_sendnext:
  assumes send: "sendnext cw now h = Inr (h', e)" and shape: "shape h"
  shows "keeps_packets cw h h'"
proof -
  have "shape h' \<and> keeps_packets cw h h'"
  proof (rule sendnext_invariant [where P = "\<lambda>x. shape x \<and> keeps_packets cw h x", OF send])
    show "shape h \<and> keeps_packets cw h h" using shape keeps_packets_refl by simp
    fix g first pack g1 g2 e
    assume g: "shape g \<and> keeps_packets cw h g"
    show "shape g2 \<and> keeps_packets cw h g2" if "taken cw g first pack g1 None" "launch now g1 first pack = Inr g2"
      using keeps_packets_launched [OF that] keeps_packets_trans
        shape_launch [OF shape_taken [OF _ that(1)] that(2)] g by blast
    show "shape g1 \<and> keeps_packets cw h g1" if "taken cw g first pack g1 (Some e)" for e
      using keeps_packets_failed [OF that] keeps_packets_trans shape_taken(1) [OF _ that] g by blast
  qed
  then show ?thesis ..
qed

lemma keeps_packets_resend_loop:
  "resend_loop cw now k h i b = Some (Inr (h', b')) \<Longrightarrow> packetlog_inv (h_flying h) \<Longrightarrow> keeps_packets cw h h'"
proof (induction k arbitrary: h i b)
  case 0
  then show ?case by simp
next
  case (Suc k)
  show ?case
  proof (cases "packetlog_get (h_flying h) i")
    case None
    with Suc.prems keeps_packets_refl show ?thesis by auto
  next
    case (Some pack)
    let ?h = "h\<lparr>h_log := h_log h @ [Wrote (pk_request pack)],
                h_flying := packetlog_add (h_flying h) i (pack\<lparr>pk_sent := now\<rparr>)\<rparr>"
    have rec: "\<exists>i'. resend_loop cw now k ?h i' True = Some (Inr (h', b'))"
      using Suc.prems(1) Some
      by (cases "cw (h_log h) (pk_request pack)")
        (auto simp: conn_Write_def Let_def split: option.split_asm if_split_asm)
    have inv: "packetlog_inv (h_flying ?h)" using Suc.prems(2) by (simp add: plog.inv_add)
    have "waiting h i pack" using Some by (simp add: waiting_def)
    then have "keeps_packets cw h ?h"
      using Suc.prems(2)
      by (rule keeps_packets_goes_out)
        (use Suc.prems(2) in \<open>auto simp: waiting_def plog.get_add split: if_splits\<close>)
    moreover have "keeps_packets cw ?h h'" using rec Suc.IH inv by blast
    ultimately show ?thesis by (rule keeps_packets_trans)
  qed
qed

lemma keeps_packets_updatetimeout: "updatetimeout now h = Inr h' \<Longrightarrow> keeps_packets cw h h'"
  by (rule keeps_packets_same [where es = "[]"]) (auto dest: updatetimeout_Inr)

lemma keeps_packets_recover:
  assumes run: "handlelost_recover cw now h st = Some (Inr h')" and inv: "packetlog_inv (h_flying h)"
  shows "keeps_packets cw h h'"
proof (cases "list_ex (\<lambda>sh. ph_pid sh = h_timeoutid h) (ts_sent st)")
  case True
  obtain h1 e where h1: "sendresendrequest cw h (h_timeoutid h) = (h1, e)" by force
  have upd: "updatetimeout now (h1\<lparr>h_nverbose := 5\<rparr>) = Inr h'"
    using run True h1 by (auto simp: handlelost_recover_def split: option.split_asm)
  have "h1 = fst (sendresendrequest cw h (h_timeoutid h))" using h1 by simp
  then have "keeps_packets cw h (h1\<lparr>h_nverbose := 5\<rparr>)"
    by (intro keeps_packets_same [where es = "[Wrote (newResendPacket (h_timeoutid h))]"])
      (simp_all add: sendresendrequest_def conn_Write_def Let_def case_prod_beta no_reply_event_def)
  with keeps_packets_updatetimeout [OF upd] show ?thesis by (rule keeps_packets_trans [rotated])
next
  case False
  then obtain h1 b where h1: "resend_loop cw now 65537 h (h_timeoutid h) False = Some (Inr (h1, b))"
      and h': "(if b then updatetimeout now h1 else Inr h1) = Inr h'"
    using run
    by (auto simp: handlelost_recover_def Let_def split: option.split_asm sum.split_asm if_split_asm)
  from keeps_packets_resend_loop [OF h1 inv] h' keeps_packets_updatetimeout keeps_packets_trans
  show ?thesis by (cases b) auto
qed

lemma keeps_packets_statusrequest: "keeps_packets cw h (fst (sendstatusrequest cw h))"
  by (rule keeps_packets_same [where es = "[Wrote newStatusPacket]"])
    (simp_all add: sendstatusrequest_def conn_Write_def Let_def case_prod_beta no_reply_event_def)

text \<open>The three kinds of steps.\<close>

lemma hw_exec_cases:
  assumes exec: "hw_exec cw now s i = Some (Inr s')" and shape: "shape (s_hw s)"
  obtains
    (incoming) pack q where "i = Incoming pack"
      "idlog_add (h_queuedids (s_hw s)) (h_nextID (s_hw s)) = Inr (q, None)"
      "keeps_packets cw (incoming_state (s_hw s) pack q) (s_hw s')"
  | (matched) data j req req' e h1 hm t t' k e' where "i = Reply data" "ph_pid (fst (newPacketHeader data)) = j" "j \<noteq> 0"
      "packetlog_get (h_flying (s_hw s)) j = Some req" "packet_parse req data = Some (Inr (req', e))"
      "keeps_packets cw (s_hw s) h1" "shape h1"
      "returnreply (h1\<lparr>h_replied := packetlog_add (h_replied h1) j req'\<rparr>) = Inr (s_hw s')"
      "hm = matched_state (reply_state (s_hw s) t) j t' k" "shape hm" "sendnext cw now hm = Inr (h1, e')"
  | (other) "\<And>pack. i \<noteq> Incoming pack" "keeps_packets cw (s_hw s) (s_hw s')"
proof (cases i)
  case (Incoming pack)
  let ?h = "s_hw s"
  have "run_incoming cw now ?h pack = Inr (s_hw s')" using exec Incoming by auto
  then obtain q e where q: "idlog_add (h_queuedids ?h) (h_nextID ?h) = Inr (q, None)"
    and send: "sendnext cw now (incoming_state ?h pack q) = Inr (s_hw s', e)"
    by (rule incoming_Inr)
  have "shape (incoming_state ?h pack q)"
    using shape idlog_inv_add [OF q] by (simp add: shape_def incoming_state_def plog.inv_add)
  with incoming [OF Incoming q] keeps_packets_sendnext [OF send] show thesis by blast
next
  case (Reply data)
  let ?h = "s_hw s"
  have "run_reply cw now ?h data = Some (Inr (s_hw s'))" using exec Reply by auto
  then show thesis
  proof (cases rule: reply_Inr)
    case (status t st)
    have "keeps_packets cw ?h (s_hw s')"
      by (rule keeps_packets_same [where es = "[]"]) (simp_all add: status reply_state_def)
    with other Reply show thesis by simp
  next
    case (again t)
    have "keeps_packets cw ?h (s_hw s')"
      by (rule keeps_packets_same [where es = "[]"]) (simp_all add: again reply_state_def)
    with other Reply show thesis by simp
  next
    case (matched t j req h1 req' e)
    let ?r = "reply_state ?h t"
    have get: "packetlog_get (h_flying ?r) j = Some req" using matched(4) by (simp add: reply_state_def)
    have sr: "shape ?r" using matched(1) shape by (rule shape_reply_state)
    obtain t' k e' where send: "sendnext cw now (matched_state ?r j t' k) = Inr (h1, e')"
      using matched(5) by (rule matched_Inr)
    have sm: "shape (matched_state ?r j t' k)" using shape_matched_state [OF sr get] .
    have "packetlog_inv (h_flying ?h)" using shape by (simp add: shape_def)
    then have "keeps_packets cw ?h (matched_state ?r j t' k)"
      by (intro keeps_packets_fewer [where es = "[]"])
        (auto simp: waiting_def matched_state_def reply_state_def plog.get_remove split: if_splits)
    then have "keeps_packets cw ?h h1"
      using keeps_packets_sendnext [OF send sm] by (rule keeps_packets_trans)
    from that(2) [OF Reply matched(2,3,4,6) this shape_sendnext [OF send sm] matched(7) refl sm send]
    show thesis .
  qed
next
  case StopRun
  with exec have "keeps_packets cw (s_hw s) (s_hw s')"
    by (intro keeps_packets_same [where es = "[ConnClosed]"]) (auto simp: run_stop_def no_reply_event_def)
  with other StopRun show thesis by simp
next
  case TimedOut
  with exec keeps_packets_refl have "keeps_packets cw (s_hw s) (s_hw s')" by auto
  with other TimedOut show thesis by simp
next
  case ReportTick
  with exec have "keeps_packets cw (s_hw s) (s_hw s')"
    by (intro keeps_packets_same [where es = "[]"]) (auto simp: run_report_def)
  with other ReportTick show thesis by simp
next
  case ConfigStart
  with exec keeps_packets_statusrequest [of cw "s_hw s"] have "keeps_packets cw (s_hw s) (s_hw s')"
    by (auto simp: ConfigDevice_begin_def split: prod.split_asm option.split_asm)
  with other ConfigStart show thesis by simp
next
  case ConfigStatus
  with exec have "keeps_packets cw (s_hw s) (s_hw s')"
    by (intro keeps_packets_same [where es = "[]"]) (auto simp: ConfigDevice_finish_def Let_def)
  with other ConfigStatus show thesis by simp
next
  case LostStart
  let ?h = "(s_hw s)\<lparr>h_nverbose := 5, h_timedout := None, h_handlinglost := True\<rparr>"
  have "keeps_packets cw (s_hw s) ?h" by (rule keeps_packets_same [where es = "[]"]) simp_all
  moreover have "keeps_packets cw ?h (s_hw s')"
    using LostStart exec keeps_packets_statusrequest [of cw ?h]
    by (auto simp: handlelost_begin_def split: prod.split_asm option.split_asm)
  ultimately show thesis using other LostStart keeps_packets_trans by simp
next
  case LostStatus
  let ?h = "(s_hw s)\<lparr>h_statuses := tl (h_statuses (s_hw s))\<rparr>"
  have inv: "packetlog_inv (h_flying ?h)" and sh: "shape ?h" using shape by (simp_all add: shape_def)
  obtain h1 where h1: "handlelost_recover cw now ?h (hd (h_statuses (s_hw s))) = Some (Inr h1)"
      and "\<exists>e. sendnext cw now (h1\<lparr>h_handlinglost := False\<rparr>) = Inr (s_hw s', e)"
    using exec LostStatus
    by (auto simp: Let_def handlelost_finish_def split: option.split_asm sum.split_asm)
  then obtain e where send: "sendnext cw now (h1\<lparr>h_handlinglost := False\<rparr>) = Inr (s_hw s', e)" by blast
  have "keeps_packets cw (s_hw s) ?h" by (rule keeps_packets_same [where es = "[]"]) simp_all
  moreover have "keeps_packets cw ?h h1" using h1 inv by (rule keeps_packets_recover)
  moreover have "keeps_packets cw h1 (h1\<lparr>h_handlinglost := False\<rparr>)"
    by (rule keeps_packets_same [where es = "[]"]) simp_all
  moreover have "shape (h1\<lparr>h_handlinglost := False\<rparr>)"
    using shape_recovered [OF recover_Inr [OF h1 inv] sh] by (simp add: shape_def)
  then have "keeps_packets cw (h1\<lparr>h_handlinglost := False\<rparr>) (s_hw s')"
    by (rule keeps_packets_sendnext [OF send])
  ultimately have "keeps_packets cw (s_hw s) (s_hw s')" using keeps_packets_trans by blast
  with other LostStatus show thesis by simp
qed

subsection \<open>Lost packets are written again\<close>












subsection \<open>Responses come from the client's own packet\<close>

text \<open>Runs with the inputs they handled, in order, and the packets among them.\<close>

inductive hw_run :: "conn_write \<Rightarrow> int \<Rightarrow> hw_input list \<Rightarrow> system \<Rightarrow> bool" for cw dt where
  run_start: "hw_run cw dt [] (Run_init (newhw dt))"
| run_step: "hw_run cw dt ins s \<Longrightarrow> enabled s i \<Longrightarrow> hw_exec cw now s i = Some (Inr s') \<Longrightarrow>
    hw_run cw dt (ins @ [i]) s'"

lemma hw_run_reachable: "hw_run cw dt ins s \<Longrightarrow> hw_reachable cw dt s"
  by (induction rule: hw_run.induct) (auto intro: hw_reachable.intros hw_step.intros)

fun packets_in :: "hw_input \<Rightarrow> packet list" where
  "packets_in (Incoming pack) = [pack]"
| "packets_in _ = []"

definition client_packets :: "hw_input list \<Rightarrow> packet list" where
  "client_packets ins = concat (map packets_in ins)"

lemma client_packets_simps [simp]:
  "client_packets [] = []" "client_packets (ins @ [i]) = client_packets ins @ packets_in i"
  by (simp_all add: client_packets_def)

lemma no_packets_in: "(\<And>pack. i \<noteq> Incoming pack) \<Longrightarrow> packets_in i = []"
  by (cases i) auto

text \<open>A client's packet as it goes out with an identifier, and the packets that went out: the
  packet of position \<open>k\<close> has the identifier of position \<open>k\<close>.\<close>

definition stamped :: "packet \<Rightarrow> u16 \<Rightarrow> int \<Rightarrow> packet" where
  "stamped pack i t = (fst (packet_writeheader pack i))\<lparr>pk_sent := t\<rparr>"

lemma stamped_again [simp]: "(stamped pack i t)\<lparr>pk_sent := t'\<rparr> = stamped pack i t'"
  by (simp add: stamped_def)

lemma writeheader_stamped:
  "fst (packet_writeheader pack i) = stamped pack i (pk_sent (fst (packet_writeheader pack i)))"
  by (simp add: stamped_def)

definition sent_as :: "packet list \<Rightarrow> u16 list \<Rightarrow> u16 \<Rightarrow> packet \<Rightarrow> bool" where
  "sent_as packs ids i p \<longleftrightarrow>
    (\<exists>k t. k < length packs \<and> k < length ids \<and> ids ! k = i \<and> p = stamped (packs ! k) i t)"

definition answered :: "hw_input list \<Rightarrow> hw_event list \<Rightarrow> u16 \<Rightarrow> packet \<Rightarrow> bool" where
  "answered ins es i q \<longleftrightarrow>
    (\<exists>p data e. sent_as (client_packets ins) (accepted_ids es) i p \<and> Wrote (pk_request p) \<in> set es
       \<and> Reply data \<in> set ins \<and> ph_pid (fst (newPacketHeader data)) = i
       \<and> packet_parse p data = Some (Inr (q, e)))"

definition from_reply :: "hw_input list \<Rightarrow> hw_event list \<Rightarrow> u16 \<Rightarrow> chan_event list \<Rightarrow> bool" where
  "from_reply ins es i evs \<longleftrightarrow> (\<exists>q. answered ins es i q \<and> packet_send q = Inr evs)"

definition owned :: "hw_input list \<Rightarrow> hw \<Rightarrow> bool" where
  "owned ins h \<longleftrightarrow>
     length (client_packets ins) = length (accepted_ids (h_log h)) \<and> written_out h
   \<and> (\<forall>i p. waiting h i p \<longrightarrow> sent_as (client_packets ins) (accepted_ids (h_log h)) i p)
   \<and> (\<forall>i q. packetlog_get (h_replied h) i = Some q \<longrightarrow> answered ins (h_log h) i q)
   \<and> (\<forall>i evs. Returned i evs \<in> set (h_log h) \<longrightarrow> from_reply ins (h_log h) i evs)"

lemma sent_as_resent: "sent_as packs ids i p \<Longrightarrow> sent_as packs ids i (p\<lparr>pk_sent := t\<rparr>)"
  unfolding sent_as_def by (elim exE conjE) (intro exI conjI, assumption+, simp)

lemma sent_as_more: "sent_as packs ids i p \<Longrightarrow> sent_as (packs @ packs') (ids @ ids') i p"
proof -
  assume "sent_as packs ids i p"
  then obtain k t where "k < length packs" "k < length ids" "ids ! k = i" "p = stamped (packs ! k) i t"
    by (auto simp: sent_as_def)
  then show ?thesis unfolding sent_as_def by (intro exI [of _ k] exI [of _ t]) (simp add: nth_append)
qed

lemma answered_more: "answered ins es i q \<Longrightarrow> answered (ins @ [x]) (es @ es') i q"
  unfolding answered_def
  by (elim exE conjE) (intro exI conjI, auto intro: sent_as_more)

lemma answered_later: "answered ins es i q \<Longrightarrow> answered ins (es @ es') i q"
  unfolding answered_def using sent_as_more [of _ _ _ _ "[]"]
  by (elim exE conjE) (intro exI conjI, auto)

lemma from_reply_more: "from_reply ins es i evs \<Longrightarrow> from_reply (ins @ [x]) (es @ es') i evs"
  unfolding from_reply_def using answered_more by blast

lemma from_reply_later: "from_reply ins es i evs \<Longrightarrow> from_reply ins (es @ es') i evs"
  unfolding from_reply_def using answered_later by blast

lemma owned_more: "owned ins h \<Longrightarrow> packets_in x = [] \<Longrightarrow> owned (ins @ [x]) h"
  unfolding owned_def using answered_more [of ins "h_log h" _ _ x "[]"] from_reply_more [of ins "h_log h" _ _ x "[]"] by simp

lemma no_reply_event_Returned: "list_all no_reply_event es \<Longrightarrow> Returned i evs \<notin> set es"
  by (auto simp: list_all_iff no_reply_event_def)

lemma no_reply_ids [simp]:
  "list_all no_reply_event es \<Longrightarrow> returned_ids es = []"
  "list_all no_reply_event es \<Longrightarrow> accepted_ids es = []"
proof -
  show "list_all no_reply_event es \<Longrightarrow> returned_ids es = []"
    by (induction es rule: returned_ids.induct) (auto simp: no_reply_event_def)
  show "list_all no_reply_event es \<Longrightarrow> accepted_ids es = []"
    by (induction es rule: accepted_ids.induct) (auto simp: no_reply_event_def)
qed

lemma owned_keeps:
  assumes own: "owned ins h" and keep: "keeps_packets cw h h'"
  shows "owned ins h'"
proof -
  obtain es where es: "h_log h' = h_log h @ es" "list_all no_reply_event es"
    using keep by (auto simp: keeps_packets_def)
  have "sent_as (client_packets ins) (accepted_ids (h_log h)) i p'" if w: "waiting h' i p'" for i p'
  proof -
    obtain p t where "waiting h i p" "p' = p\<lparr>pk_sent := t\<rparr>"
      using keep w unfolding keeps_packets_def by blast
    with own sent_as_resent show ?thesis unfolding owned_def by blast
  qed
  moreover have "h_replied h' = h_replied h" "written_out h'"
    using keep own by (simp_all add: keeps_packets_def owned_def)
  moreover have "Returned i evs \<in> set (h_log h') \<longleftrightarrow> Returned i evs \<in> set (h_log h)" for i evs
    using no_reply_event_Returned [OF es(2)] by (simp add: es(1))
  ultimately show ?thesis
    using own es(2) answered_later [of ins "h_log h" _ _ es] from_reply_later [of ins "h_log h" _ _ es]
    unfolding owned_def es(1) by auto
qed

lemma owned_incoming_state:
  assumes own: "owned ins h" and inv: "packetlog_inv (h_tosend h)"
  shows "owned (ins @ [Incoming pack]) (incoming_state h pack q)"
proof -
  let ?i = "h_nextID h" and ?h = "incoming_state h pack q"
  let ?p = "fst (packet_writeheader pack ?i)"
  have len: "length (client_packets ins) = length (accepted_ids (h_log h))" using own by (simp add: owned_def)
  have log: "h_log ?h = h_log h @ [Accepted ?i]" "h_replied ?h = h_replied h" "h_flying ?h = h_flying h"
    by (simp_all add: incoming_state_def)
  have "sent_as (client_packets ins @ [pack]) (accepted_ids (h_log h) @ [?i]) ?i ?p"
    unfolding sent_as_def
    by (rule exI [of _ "length (accepted_ids (h_log h))"]) (use len writeheader_stamped in \<open>auto simp: nth_append\<close>)
  moreover have "waiting ?h j p \<Longrightarrow> j = ?i \<and> p = ?p \<or> waiting h j p" for j p
    using inv by (auto simp: waiting_def incoming_state_def plog.get_add split: if_splits)
  ultimately have "sent_as (client_packets ins @ [pack]) (accepted_ids (h_log h) @ [?i]) j p"
    if "waiting ?h j p" for j p
    using that own sent_as_more unfolding owned_def by metis
  moreover have "written_out ?h" using own by (simp add: owned_def written_out_def log)
  ultimately show ?thesis
    using own answered_more [of ins "h_log h" _ _ "Incoming pack" "[Accepted ?i]"]
      from_reply_more [of ins "h_log h" _ _ "Incoming pack" "[Accepted ?i]"]
    unfolding owned_def log by auto
qed

lemma owned_return_one:
  assumes own: "owned ins h" and shape: "shape h"
    and get: "packetlog_get (h_replied h) first = Some p" and send: "packet_send p = Inr evs"
  shows "owned ins (return_one h first fl t evs)"
proof -
  let ?h = "return_one h first fl t evs"
  have inv: "packetlog_inv (h_replied h)" using shape by (simp add: shape_def)
  have h: "h_log ?h = h_log h @ [Returned first evs]" "h_replied ?h = packetlog_remove (h_replied h) first"
      "waiting ?h = waiting h" "h_flying ?h = h_flying h"
    by (simp_all add: return_one_def Let_def waiting_def fun_eq_iff)
  have "written_out ?h" using own by (simp add: owned_def written_out_def h)
  moreover have "from_reply ins (h_log h) first evs"
    using own get send unfolding owned_def from_reply_def by blast
  ultimately show ?thesis
    using own inv answered_later [of ins "h_log h" _ _ "[Returned first evs]"]
      from_reply_later [of ins "h_log h" _ _ "[Returned first evs]"]
    unfolding owned_def h by (auto simp: plog.get_remove split: if_splits)
qed

lemma owned_returnreply:
  assumes "returnreply h = Inr h'" "shape h" "owned ins h"
  shows "owned ins h'"
proof -
  have "shape h' \<and> owned ins h'"
  proof (rule returnreply_loop_invariant [where P = "\<lambda>h. shape h \<and> owned ins h",
        OF assms(1) [unfolded returnreply_def]])
    show "shape h \<and> owned ins h" using assms by simp
    fix h first p fl e t evs
    assume P: "shape h \<and> owned ins h" and get: "packetlog_get (h_replied h) first = Some p"
      and fl: "idlog_remove (h_flyingids h) = Inr (fl, e)" and t: "tracker_add (h_returned h) first = Inr t"
      and send: "packet_send p = Inr evs"
    have "owned ins (return_one h first fl t evs)" using P owned_return_one get send by blast
    moreover have "shape (return_one h first fl t evs)"
      using P idlog_inv_remove [OF fl] tracker_inv_add [OF t]
      by (simp add: shape_def return_one_def Let_def plog.inv_remove)
    ultimately show "shape (return_one h first fl t evs) \<and> owned ins (return_one h first fl t evs)"
      by simp
  qed
  then show ?thesis ..
qed

lemma owned_replied:
  assumes own: "owned ins h1" and shape: "shape h1" and ans: "answered ins (h_log h1) j q"
  shows "owned ins (h1\<lparr>h_replied := packetlog_add (h_replied h1) j q\<rparr>)"
proof -
  have "packetlog_inv (h_replied h1)" using shape by (simp add: shape_def)
  with own ans show ?thesis
    by (auto simp: owned_def waiting_def written_out_def plog.get_add split: if_splits)
qed

lemma owned_run: "hw_run cw dt ins s \<Longrightarrow> owned ins (s_hw s)"
proof (induction rule: hw_run.induct)
  case run_start
  show ?case by (simp add: Run_init_def newhw_def owned_def waiting_def written_out_def)
next
  case (run_step ins s i now s')
  have shape: "shape (s_hw s)" using shape_reachable [OF hw_run_reachable [OF run_step.hyps(1)]] .
  from run_step.hyps(3) shape show ?case
  proof (cases rule: hw_exec_cases)
    case (incoming pack q)
    have "packetlog_inv (h_tosend (s_hw s))" using shape by (simp add: shape_def)
    with owned_keeps [OF owned_incoming_state [OF run_step.IH] incoming(3)] incoming(1)
    show ?thesis by simp
  next
    case (matched data j req req' e h1)
    have own: "owned (ins @ [i]) (s_hw s)" using run_step.IH matched(1) by (intro owned_more) simp_all
    have own1: "owned (ins @ [i]) h1" using owned_keeps [OF own matched(6)] .
    obtain es where es: "h_log h1 = h_log (s_hw s) @ es" using matched(6) by (auto simp: keeps_packets_def)
    have "sent_as (client_packets (ins @ [i])) (accepted_ids (h_log (s_hw s))) j req"
        "Wrote (pk_request req) \<in> set (h_log (s_hw s))"
      using own matched(4) unfolding owned_def waiting_def written_out_def by blast+
    then have "answered (ins @ [i]) (h_log (s_hw s)) j req'"
      unfolding answered_def using matched(1,2,5) by (metis in_set_conv_decomp)
    from answered_later [OF this, of es] es
    have "answered (ins @ [i]) (h_log h1) j req'" by simp
    from owned_returnreply [OF matched(8) _ owned_replied [OF own1 matched(7) this]] matched(7)
    show ?thesis by (simp add: shape_def plog.inv_add)
  next
    case other
    with owned_keeps [OF owned_more [OF run_step.IH no_packets_in]] show ?thesis by blast
  qed
qed

text \<open>C8: Whatever the network and the connection do, each answer that is returned under an
  identifier was computed by \<open>parse\<close> and \<open>send\<close> from the packet that was given this identifier
  when a client handed it in (the \<open>k\<close>-th packet got the \<open>k\<close>-th identifier), whose request had
  been written with it, and from a datagram that arrived with the same identifier: a packet's
  channels never get responses that were parsed against another packet.\<close>

theorem responses_from_own_packet:
  assumes "hw_run cw dt ins s" "Returned i evs \<in> set (h_log (s_hw s))"
  shows "\<exists>k t data q e.
      k < length (client_packets ins) \<and> k < length (accepted_ids (h_log (s_hw s)))
    \<and> accepted_ids (h_log (s_hw s)) ! k = i
    \<and> Wrote (pk_request (stamped (client_packets ins ! k) i t)) \<in> set (h_log (s_hw s))
    \<and> Reply data \<in> set ins \<and> ph_pid (fst (newPacketHeader data)) = i
    \<and> packet_parse (stamped (client_packets ins ! k) i t) data = Some (Inr (q, e))
    \<and> packet_send q = Inr evs"
  using owned_run [OF assms(1)] assms(2) unfolding owned_def from_reply_def answered_def sent_as_def by blast

text \<open>A run of two steps: a packet comes in and its reply arrives.\<close>

definition demo_reply :: "byte list" where
  "demo_reply = [0x20, 0, 1, 0xf0, 0x20, 0, 1, 0, 0, 0, 0, 7]"

definition demo_replied :: system where
  "demo_replied = (case hw_exec perfect_write 0 demo_system (Reply demo_reply) of
     Some (Inr s) \<Rightarrow> s | _ \<Rightarrow> demo_system)"

lemma demo_incoming: "hw_exec perfect_write 0 (Run_init (newhw 3)) (Incoming demo_packet) = Some (Inr demo_system)"
proof -
  obtain h' where "run_incoming perfect_write 0 (newhw 3) demo_packet = Inr h'" using first_incoming by blast
  then show ?thesis by (simp add: Run_init_def with_hw_def demo_system_def)
qed

lemma demo_replies: "hw_exec perfect_write 0 demo_system (Reply demo_reply) = Some (Inr demo_replied)"
proof -
  have "case hw_exec perfect_write 0 demo_system (Reply demo_reply) of Some (Inr s) \<Rightarrow> True | _ \<Rightarrow> False"
    by code_simp
  from returned_Inr [OF this] obtain s where "hw_exec perfect_write 0 demo_system (Reply demo_reply) = Some (Inr s)" ..
  then show ?thesis by (simp only: demo_replied_def option.case sum.case)
qed

lemma demo_run: "hw_run perfect_write 3 [Incoming demo_packet, Reply demo_reply] demo_replied"
proof -
  have "enabled (Run_init (newhw 3)) (Incoming demo_packet)" "enabled demo_system (Reply demo_reply)"
    by (simp_all add: Run_init_def demo_system_def demo_reply_def)
  then have "hw_run perfect_write 3 (([] @ [Incoming demo_packet]) @ [Reply demo_reply]) demo_replied"
    using run_step [OF run_step [OF run_start _ demo_incoming] _ demo_replies] by blast
  then show ?thesis by simp
qed

lemma demo_returned: "\<exists>evs. Returned 1 evs \<in> set (h_log (s_hw demo_replied))"
proof -
  have "list_ex (\<lambda>e. case e of Returned i evs \<Rightarrow> i = 1 | _ \<Rightarrow> False) (h_log (s_hw demo_replied))"
    by code_simp
  then obtain e where e: "e \<in> set (h_log (s_hw demo_replied))" "case e of Returned i evs \<Rightarrow> i = 1 | _ \<Rightarrow> False"
    by (auto simp: list_ex_iff)
  show ?thesis by (rule hw_event.exhaust [of e]) (use e in auto)
qed

lemma demo_replied_log: "length (accepted_ids (h_log (s_hw demo_replied))) = 1"
  by code_simp

theorem responses_from_own_packet_witness:
  "\<exists>evs q e t. Wrote (pk_request (stamped demo_packet 1 t)) \<in> set (h_log (s_hw demo_replied))
    \<and> packet_parse (stamped demo_packet 1 t) demo_reply = Some (Inr (q, e)) \<and> packet_send q = Inr evs"
proof -
  obtain evs where "Returned 1 evs \<in> set (h_log (s_hw demo_replied))" using demo_returned ..
  from responses_from_own_packet [OF demo_run this]
  show ?thesis by (auto simp: client_packets_def demo_replied_log)
qed

subsection \<open>Responses in the order of the packets\<close>

fun returned_events :: "hw_event list \<Rightarrow> chan_event list list" where
  "returned_events [] = []"
| "returned_events (Returned i evs # es) = evs # returned_events es"
| "returned_events (_ # es) = returned_events es"

lemma returned_events_append [simp]:
  "returned_events (xs @ ys) = returned_events xs @ returned_events ys"
  by (induction xs rule: returned_events.induct) auto

lemma no_reply_events [simp]: "list_all no_reply_event es \<Longrightarrow> returned_events es = []"
  by (induction es rule: returned_events.induct) (auto simp: no_reply_event_def)

text \<open>
  What is assumed of a target: clients hand in \<open>good\<close> packets, \<open>serves b data\<close> says that the
  target answers the request datagram \<open>b\<close> with the datagram \<open>data\<close>, and \<open>ev p evs\<close> that \<open>evs\<close>
  are the responses to \<open>p\<close> in such an answer.
\<close>

locale truthful_target =
  fixes good :: "packet \<Rightarrow> bool"
    and serves :: "byte list \<Rightarrow> byte list \<Rightarrow> bool"
    and ev :: "packet \<Rightarrow> chan_event list \<Rightarrow> bool"
  assumes good_carries: "good p \<Longrightarrow> carries i (pk_request (stamped p i t))"
    and answer_events: "good p \<Longrightarrow> serves (pk_request (stamped p i t)) data \<Longrightarrow>
      packet_parse (stamped p i t) data = Some (Inr (q, e)) \<Longrightarrow> \<exists>evs. packet_send q = Inr evs \<and> ev p evs"

text \<open>A datagram that arrives with an identifier other than 0 answers the last request that was
  written with it; the identifier 0 is that of status replies, which may be anything.\<close>

fun honest_input ::
    "(packet \<Rightarrow> bool) \<Rightarrow> (byte list \<Rightarrow> byte list \<Rightarrow> bool) \<Rightarrow> system \<Rightarrow> hw_input \<Rightarrow> bool" where
  "honest_input good serves s (Incoming pack) = good pack"
| "honest_input good serves s (Reply data) =
     (let i = ph_pid (fst (newPacketHeader data)) in
      i = 0 \<or> (case last_request (h_log (s_hw s)) i of None \<Rightarrow> False | Some b \<Rightarrow> serves b data))"
| "honest_input good serves s _ = True"

text \<open>Steady runs with a truthful target, and the packets that came in.  The network may
  delay, reorder, repeat and lose datagrams.\<close>

inductive honest_run ::
    "conn_write \<Rightarrow> int \<Rightarrow> (packet \<Rightarrow> bool) \<Rightarrow> (byte list \<Rightarrow> byte list \<Rightarrow> bool) \<Rightarrow>
      packet list \<Rightarrow> system \<Rightarrow> bool"
    for cw dt good serves where
  honest_start: "honest_run cw dt good serves [] (Run_init (newhw dt))"
| honest_step: "honest_run cw dt good serves packs s \<Longrightarrow> enabled s i \<Longrightarrow>
    hw_exec cw now s i = Some (Inr s') \<Longrightarrow> 4 \<le> idlog_room (h_flyingids (s_hw s)) \<Longrightarrow>
    config_first s s' \<Longrightarrow> honest_input good serves s i \<Longrightarrow>
    honest_run cw dt good serves (packs @ packets_in i) s'"

lemma honest_steady: "honest_run cw dt good serves packs s \<Longrightarrow> steady_reachable cw dt s"
  by (induction rule: honest_run.induct) (auto intro: steady_reachable.intros hw_step.intros)

lemma good_run: "honest_run cw dt good serves packs s \<Longrightarrow> \<forall>p \<in> set packs. good p"
proof (induction rule: honest_run.induct)
  case (honest_step packs s i now s')
  then show ?case by (cases i) auto
qed simp

text \<open>The packet of position \<open>k\<close> waits under the identifier of position \<open>k\<close>, and what is
  replied under it gives its responses.\<close>

definition paired :: "(packet \<Rightarrow> chan_event list \<Rightarrow> bool) \<Rightarrow> packet list \<Rightarrow> hw \<Rightarrow> bool" where
  "paired ev packs h \<longleftrightarrow>
     length packs = length (accepted_ids (h_log h))
   \<and> list_all2 ev (take (length (returned_ids (h_log h))) packs) (returned_events (h_log h))
   \<and> (\<forall>k. length (returned_ids (h_log h)) \<le> k \<longrightarrow> k < length packs \<longrightarrow>
        (\<forall>p. waiting h (accepted_ids (h_log h) ! k) p \<longrightarrow>
            (\<exists>t. p = stamped (packs ! k) (accepted_ids (h_log h) ! k) t))
      \<and> (\<forall>q. packetlog_get (h_replied h) (accepted_ids (h_log h) ! k) = Some q \<longrightarrow>
            (\<exists>evs. packet_send q = Inr evs \<and> ev (packs ! k) evs)))"

lemma paired_keeps:
  assumes "paired ev packs h" "keeps_packets cw h h'"
  shows "paired ev packs h'"
proof -
  obtain es where es: "h_log h' = h_log h @ es" "list_all no_reply_event es"
    using assms(2) by (auto simp: keeps_packets_def)
  have rep: "h_replied h' = h_replied h" using assms(2) by (simp add: keeps_packets_def)
  have wait: "\<exists>t. p' = stamped x i t" if "waiting h' i p'" "\<And>p. waiting h i p \<Longrightarrow> \<exists>t. p = stamped x i t" for i p' x
  proof -
    have "\<exists>p t. waiting h i p \<and> p' = p\<lparr>pk_sent := t\<rparr>"
      using assms(2) that(1) by (simp add: keeps_packets_def)
    with that(2) show ?thesis by fastforce
  qed
  show ?thesis
    using assms(1) wait es(2) unfolding paired_def by (simp add: es(1) rep)
qed

lemma paired_incoming_state:
  assumes pair: "paired ev packs h" and track: "tracked {} h" and shape: "shape h" and pipe: "pipeline h"
  shows "paired ev (packs @ [pack]) (incoming_state h pack q)"
proof -
  let ?i = "h_nextID h" and ?h = "incoming_state h pack q"
  let ?acc = "accepted_ids (h_log h)" and ?n = "length (returned_ids (h_log h))"
  have inv: "packetlog_inv (h_tosend h)" using shape by (simp add: shape_def)
  have len: "length packs = length ?acc" using pair by (simp add: paired_def)
  have new: "?i \<notin> set (idlog_contents (h_flyingids h) @ idlog_contents (h_queuedids h))"
    using tracked_distinct [OF track] by auto
  then have none: "packetlog_get (h_flying h) ?i = None" "packetlog_get (h_replied h) ?i = None"
    using track by (auto simp: tracked_def plog.get_None)
  have old: "?acc ! k \<noteq> ?i" if "?n \<le> k" "k < length packs" for k
  proof -
    have "?acc ! k = (idlog_contents (h_flyingids h) @ idlog_contents (h_queuedids h)) ! (k - ?n)"
      using pipe that(1) by (simp add: pipeline_def nth_append)
    moreover have "k - ?n < length (idlog_contents (h_flyingids h) @ idlog_contents (h_queuedids h))"
      using pipe that len by (simp add: pipeline_def)
    ultimately show ?thesis using new nth_mem by metis
  qed
  have le: "?n \<le> length ?acc" using pipe by (simp add: pipeline_def)
  have log: "accepted_ids (h_log ?h) = ?acc @ [?i]" "returned_ids (h_log ?h) = returned_ids (h_log h)"
      "returned_events (h_log ?h) = returned_events (h_log h)" "h_replied ?h = h_replied h"
    by (simp_all add: incoming_state_def)
  have wait: "waiting ?h j p \<longleftrightarrow>
      (if j = ?i then p = fst (packet_writeheader pack ?i) \<or> packetlog_get (h_flying h) j = Some p
       else waiting h j p)" for j p
    using inv by (auto simp: waiting_def incoming_state_def plog.get_add)
  have "(\<forall>p. waiting ?h (accepted_ids (h_log ?h) ! k) p \<longrightarrow>
          (\<exists>t. p = stamped ((packs @ [pack]) ! k) (accepted_ids (h_log ?h) ! k) t))
      \<and> (\<forall>q. packetlog_get (h_replied ?h) (accepted_ids (h_log ?h) ! k) = Some q \<longrightarrow>
            (\<exists>evs. packet_send q = Inr evs \<and> ev ((packs @ [pack]) ! k) evs))"
    if k: "?n \<le> k" "k < length (packs @ [pack])" for k
  proof (cases "k = length packs")
    case True
    with none len show ?thesis by (auto simp: log wait nth_append intro: writeheader_stamped)
  next
    case False
    with k have "k < length packs" by simp
    with old [OF k(1) this] k(1) pair len show ?thesis
      unfolding paired_def by (simp add: log wait nth_append)
  qed
  moreover have "take ?n (packs @ [pack]) = take ?n packs" using le len by simp
  ultimately show ?thesis using pair len unfolding paired_def by (simp add: log)
qed

lemma paired_return_one:
  assumes pair: "paired ev packs h" and pipe: "pipeline h" and shape: "shape h"
    and first: "idlog_oldest (h_flyingids h) = Inr (first, True)" "idlog_remove (h_flyingids h) = Inr (fl, e)"
    and p: "packetlog_get (h_replied h) first = Some p" "packet_send p = Inr evs"
  shows "paired ev packs (return_one h first fl t evs)"
proof -
  let ?h = "return_one h first fl t evs"
  let ?acc = "accepted_ids (h_log h)" and ?n = "length (returned_ids (h_log h))"
  have inv: "idlog_inv (h_flyingids h)" "packetlog_inv (h_replied h)" using shape by (auto simp: shape_def)
  have "idlog_contents (h_flyingids h) = first # idlog_contents fl"
    using queue_removed(1) [OF inv(1) first] .
  then have acc: "?acc ! ?n = first" "?n < length ?acc"
    using pipe by (simp_all add: pipeline_def)
  have len: "length packs = length ?acc" using pair by (simp add: paired_def)
  have "\<exists>evs. packet_send p = Inr evs \<and> ev (packs ! ?n) evs"
    using pair p(1) acc len unfolding paired_def by (metis order_refl)
  then have evs: "ev (packs ! ?n) evs" using p(2) by simp
  have log: "accepted_ids (h_log ?h) = ?acc" "returned_ids (h_log ?h) = returned_ids (h_log h) @ [first]"
      "returned_events (h_log ?h) = returned_events (h_log h) @ [evs]"
      "h_replied ?h = packetlog_remove (h_replied h) first" "waiting ?h = waiting h"
    by (simp_all add: return_one_def Let_def waiting_def fun_eq_iff)
  have "take (Suc ?n) packs = take ?n packs @ [packs ! ?n]"
    using acc(2) len by (simp add: take_Suc_conv_app_nth)
  moreover have "list_all2 ev (take ?n packs) (returned_events (h_log h))" using pair by (simp add: paired_def)
  ultimately have "list_all2 ev (take (Suc ?n) packs) (returned_events (h_log h) @ [evs])"
    using evs by (simp add: list_all2_appendI)
  then show ?thesis
    using pair inv(2) unfolding paired_def by (simp add: log plog.get_remove)
qed

lemma paired_returnreply:
  assumes "returnreply h = Inr h'" "shape h" "pipeline h" "paired ev packs h"
  shows "paired ev packs h'"
proof -
  have "shape h' \<and> pipeline h' \<and> paired ev packs h'"
  proof (rule returnreply_loop_invariant [where P = "\<lambda>h. shape h \<and> pipeline h \<and> paired ev packs h",
        OF assms(1) [unfolded returnreply_def]])
    show "shape h \<and> pipeline h \<and> paired ev packs h" using assms by simp
    fix h first p fl e t evs
    assume P: "shape h \<and> pipeline h \<and> paired ev packs h" and o: "idlog_oldest (h_flyingids h) = Inr (first, True)"
      and get: "packetlog_get (h_replied h) first = Some p"
      and fl: "idlog_remove (h_flyingids h) = Inr (fl, e)" and t: "tracker_add (h_returned h) first = Inr t"
      and send: "packet_send p = Inr evs"
    have "idlog_inv (h_flyingids h)" using P by (simp add: shape_def)
    note contents = queue_removed [OF this o fl]
    have "shape (return_one h first fl t evs)"
      using P idlog_inv_remove [OF fl] tracker_inv_add [OF t]
      by (simp add: shape_def return_one_def Let_def plog.inv_remove)
    moreover have "pipeline (return_one h first fl t evs)"
      using P contents by (simp add: pipeline_def return_one_def Let_def)
    moreover have "paired ev packs (return_one h first fl t evs)"
      using paired_return_one [OF _ _ _ o fl get send] P by blast
    ultimately show "shape (return_one h first fl t evs) \<and> pipeline (return_one h first fl t evs)
        \<and> paired ev packs (return_one h first fl t evs)" by simp
  qed
  then show ?thesis by blast
qed

lemma on_wire_returnreply:
  assumes "returnreply h = Inr h'" "on_wire h"
  shows "on_wire h'"
proof (rule returnreply_loop_invariant [where P = on_wire, OF assms(1) [unfolded returnreply_def]])
  fix h first p fl e t evs
  assume "on_wire h"
  moreover have "last_request (h_log h @ [Returned first evs]) i = last_request (h_log h) i" for i
    by (rule last_request_unrelated) simp
  ultimately show "on_wire (return_one h first fl t evs)"
    by (simp add: on_wire_def waiting_def return_one_def Let_def)
qed (fact assms(2))

lemma on_wire_incoming_state:
  assumes "on_wire h" "packetlog_inv (h_tosend h)"
    and "carries (h_nextID h) (pk_request (fst (packet_writeheader pack (h_nextID h))))"
  shows "on_wire (incoming_state h pack q)"
proof -
  have "last_request (h_log h @ [Accepted j]) i = last_request (h_log h) i" for i j
    by (rule last_request_unrelated) simp
  with assms show ?thesis
    by (auto simp: on_wire_def waiting_def incoming_state_def plog.get_add split: if_splits)
qed

lemma keeps_packets_logs:
  assumes "keeps_packets cw h h'"
  shows "accepted_ids (h_log h') = accepted_ids (h_log h)" "returned_ids (h_log h') = returned_ids (h_log h)"
proof -
  obtain es where "h_log h' = h_log h @ es" "list_all no_reply_event es"
    using assms by (auto simp: keeps_packets_def)
  then show "accepted_ids (h_log h') = accepted_ids (h_log h)" "returned_ids (h_log h') = returned_ids (h_log h)"
    by simp_all
qed

lemma paired_replied:
  assumes pair: "paired ev packs h1" and shape: "shape h1"
    and own: "\<And>k. length (returned_ids (h_log h1)) \<le> k \<Longrightarrow> k < length packs \<Longrightarrow>
      accepted_ids (h_log h1) ! k = j \<Longrightarrow> \<exists>evs. packet_send q = Inr evs \<and> ev (packs ! k) evs"
  shows "paired ev packs (h1\<lparr>h_replied := packetlog_add (h_replied h1) j q\<rparr>)"
proof -
  have "packetlog_inv (h_replied h1)" using shape by (simp add: shape_def)
  with pair own show ?thesis by (auto simp: paired_def waiting_def plog.get_add split: if_splits)
qed

context truthful_target
begin

lemma paired_matched:
  assumes pair: "paired ev packs h" and good: "\<forall>p \<in> set packs. good p" and wire: "on_wire h"
    and get: "packetlog_get (h_flying h) j = Some req"
    and ans: "last_request (h_log h) j = Some b" "serves b data"
    and parse: "packet_parse req data = Some (Inr (req', e))"
    and keep: "keeps_packets cw h h1" and shape: "shape h1"
  shows "paired ev packs (h1\<lparr>h_replied := packetlog_add (h_replied h1) j req'\<rparr>)"
proof (rule paired_replied [OF paired_keeps [OF pair keep] shape])
  fix k assume k: "length (returned_ids (h_log h1)) \<le> k" "k < length packs"
    "accepted_ids (h_log h1) ! k = j"
  then have "\<exists>t. req = stamped (packs ! k) j t"
    using pair get unfolding keeps_packets_logs [OF keep] paired_def waiting_def by blast
  then obtain t where req: "req = stamped (packs ! k) j t" ..
  have "b = pk_request req" using wire get ans(1) by (auto simp: on_wire_def)
  moreover have "good (packs ! k)" using good k(2) by simp
  ultimately show "\<exists>evs. packet_send req' = Inr evs \<and> ev (packs ! k) evs"
    using answer_events ans(2) parse unfolding req by blast
qed

lemma paired_run:
  assumes rel: "reliable cw" and dt: "0 < dt"
  shows "honest_run cw dt good serves packs s \<Longrightarrow> paired ev packs (s_hw s) \<and> on_wire (s_hw s)"
proof (induction rule: honest_run.induct)
  case honest_start
  show ?case by (simp add: Run_init_def newhw_def paired_def on_wire_def waiting_def)
next
  case (honest_step packs s i now s')
  note pair = conjunct1 [OF honest_step.IH] and wire = conjunct2 [OF honest_step.IH]
  have steady: "steady_reachable cw dt s" using honest_step.hyps(1) by (rule honest_steady)
  have shape: "shape (s_hw s)" and pipe: "pipeline (s_hw s)" and track: "tracked {} (s_hw s)"
    using shape_reachable pipeline_reachable tracked_reachable steady_imp_calm calm_imp_reachable
      rel dt steady by blast+
  have keeps_wire: "keeps_packets cw h h' \<Longrightarrow> on_wire h \<Longrightarrow> on_wire h'" for h h'
    using rel by (simp add: keeps_packets_def)
  from honest_step.hyps(3) shape show ?case
  proof (cases rule: hw_exec_cases)
    case (incoming pack q)
    have "good pack" using honest_step.hyps(6) incoming(1) by simp
    then have "carries (h_nextID (s_hw s)) (pk_request (fst (packet_writeheader pack (h_nextID (s_hw s)))))"
      by (subst writeheader_stamped) (rule good_carries)
    moreover have "packetlog_inv (h_tosend (s_hw s))" using shape by (simp add: shape_def)
    ultimately have "on_wire (s_hw s')"
      using keeps_wire [OF incoming(3)] on_wire_incoming_state [OF wire] by blast
    with paired_keeps [OF paired_incoming_state [OF pair track shape pipe] incoming(3)] incoming(1)
    show ?thesis by simp
  next
    case (matched data j req req' e h1 hm t t' k e')
    let ?h = "h1\<lparr>h_replied := packetlog_add (h_replied h1) j req'\<rparr>"
    obtain b where b: "last_request (h_log (s_hw s)) j = Some b" "serves b data"
      using honest_step.hyps(6) matched(1,2,3) by (auto split: option.splits)
    have "pipeline hm" using pipe by (simp add: matched(9) pipeline_def matched_state_def reply_state_def)
    moreover have "roomy hm"
      using matched(10) honest_step.hyps(4)
      by (intro roomy_calm) (simp_all add: matched(9) matched_state_def reply_state_def)
    ultimately have "pipeline h1" using pipeline_sendnext [OF rel matched(11) matched(10)] by simp
    then have p: "pipeline ?h" by (simp add: pipeline_def)
    have sh: "shape ?h" using matched(7) by (simp add: shape_def plog.inv_add)
    have "on_wire ?h" using keeps_wire [OF matched(6) wire] by (simp add: on_wire_def waiting_def)
    with matched(8) have "on_wire (s_hw s')" by (rule on_wire_returnreply)
    moreover have "paired ev packs ?h"
      using paired_matched [OF pair good_run [OF honest_step.hyps(1)] wire matched(4) b matched(5,6,7)] .
    ultimately show ?thesis using paired_returnreply [OF matched(8) sh p] matched(1) by simp
  next
    case other
    with paired_keeps [OF pair other(2)] keeps_wire [OF other(2) wire] no_packets_in show ?thesis by simp
  qed
qed

lemma returned_run:
  assumes "honest_run cw dt good serves packs s" "reliable cw" "0 < dt"
  shows "list_all2 ev (take (length (returned_ids (h_log (s_hw s)))) packs) (returned_events (h_log (s_hw s)))"
  using paired_run [OF assms(2,3,1)] by (simp add: paired_def)

end

end
