(* ===== verification/Serving.thy ===== *)
theory Serving
  imports Target
begin

text \<open>
  The target's side of the protocol.  A target sees the datagrams that the client wrote: it
  decodes the requests in them and answers each, echoing its identifier.  What it decodes
  from the request of a packet are the packet's transactions.
\<close>

subsection \<open>Decoding requests\<close>

text \<open>The words that follow the address of a request.\<close>

definition input_words :: "transactionheader \<Rightarrow> nat" where
  "input_words h =
    (if is_write (th_tid h) then unat (th_words h)
     else if th_tid h = tid_rmwbits then 2 else if th_tid h = tid_rmwsum then 1 else 0)"

definition read_words :: "byteorder \<Rightarrow> byte list \<Rightarrow> nat \<Rightarrow> u32 list" where
  "read_words order b n = (case bytes2uint32s (take (4 * n) b) order of Inr ws \<Rightarrow> ws | Inl _ \<Rightarrow> [])"

text \<open>A request as the target sees it: a transaction without its channel.\<close>

definition seen_request :: "transactionheader \<Rightarrow> u32 \<Rightarrow> u32 list \<Rightarrow> transaction" where
  "seen_request h addr ws =
    \<lparr>t_outheader = h, t_Addr = addr, t_Input = ws, t_resp = 0, t_byteslice = False, t_closechan = False\<rparr>"

definition as_seen :: "transaction \<Rightarrow> transaction" where
  "as_seen t = seen_request (t_outheader t) (t_Addr t) (t_Input t)"

function decode_requests :: "byteorder \<Rightarrow> byte list \<Rightarrow> transaction list" where
  "decode_requests order b =
    (if length b < 8 then []
     else
       let h = fst (newTransactionHeader b order); n = input_words h in
       seen_request h (hd (read_words order (drop 4 b) 1)) (read_words order (drop 8 b) n)
       # decode_requests order (drop (8 + 4 * n) b))"
  by pat_completeness auto
termination
  by (relation "measure (length \<circ> snd)") auto

declare decode_requests.simps [simp del]

definition target_requests :: "byte list \<Rightarrow> transaction list" where
  "target_requests b = (let h = fst (newPacketHeader b) in decode_requests (ph_order h) (drop 4 b))"

lemma read_words_bytes:
  assumes "order \<noteq> NilOrder" "n = length ws"
  shows "read_words order (concat (map (u32_bytes order) ws) @ rest) n = ws"
proof -
  have "length (concat (map (u32_bytes order) ws)) = 4 * n"
    using assms by (simp add: length_concat_map_4)
  then have "take (4 * n) (concat (map (u32_bytes order) ws) @ rest) = concat (map (u32_bytes order) ws)"
    by simp
  then show ?thesis using bytes2uint32s_words [OF assms(1)] by (simp add: read_words_def)
qed

lemma trans_ok_input_words: "trans_ok t \<Longrightarrow> input_words (t_outheader t) = length (t_Input t)"
  by (auto simp: trans_ok_def input_words_def Let_def is_read_def is_write_def tid_defs)

lemma decode_requests_Cons:
  assumes order: "order \<noteq> NilOrder" and t: "trans_ok t" "wf_th (t_outheader t)"
  shows "decode_requests order (trans_bytes order t @ rest) = as_seen t # decode_requests order rest"
proof -
  let ?b = "trans_bytes order t @ rest"
  have h: "newTransactionHeader ?b order = (t_outheader t, None)"
    using newTransactionHeader_bytes [OF t(2) order] by (simp add: trans_bytes_def)
  have len: "length (th_bytes order (t_outheader t)) = 4" "length (u32_bytes order (t_Addr t)) = 4"
      "length (concat (map (u32_bytes order) (t_Input t))) = 4 * length (t_Input t)"
    using order by (simp_all add: length_concat_map_4)
  have addr: "read_words order (drop 4 ?b) 1 = [t_Addr t]"
    using read_words_bytes [OF order, of 1 "[t_Addr t]"] len by (simp add: trans_bytes_def)
  have inp: "read_words order (drop 8 ?b) (length (t_Input t)) = t_Input t"
    using read_words_bytes [OF order refl] len by (simp add: trans_bytes_def)
  have rest: "drop (8 + 4 * length (t_Input t)) ?b = rest" "\<not> length ?b < 8"
    using len by (simp_all add: trans_bytes_def)
  show ?thesis
    using rest(2) by (subst decode_requests.simps)
      (simp only: h addr inp rest(1) trans_ok_input_words [OF t(1)] as_seen_def Let_def fst_conv list.sel if_False)
qed

lemma decode_requests_bytes:
  assumes "order \<noteq> NilOrder"
  shows "\<forall>t \<in> set ts. trans_ok t \<and> wf_th (t_outheader t) \<Longrightarrow>
    decode_requests order (concat (map (trans_bytes order) ts)) = map as_seen ts"
proof (induction ts)
  case Nil
  then show ?case by (simp add: decode_requests.simps)
next
  case (Cons t ts)
  then show ?case by (simp add: decode_requests_Cons [OF assms])
qed

subsection \<open>Packets that clients hand in\<close>

definition sendable :: "packet \<Rightarrow> bool" where
  "sendable p \<longleftrightarrow>
     packet_inv p \<and> wf_ph (pk_header p) \<and> ph_ptype (pk_header p) = control \<and> pk_replies p = []
   \<and> length (pk_transactions p) \<le> 4096 \<and> (\<forall>t \<in> set (pk_transactions p). wf_th (t_outheader t))"

text \<open>What a target sees of the packet that goes out under an identifier.\<close>

lemma request_seen:
  assumes "sendable p"
  shows "target_requests (pk_request (fst (packet_writeheader p i))) = map as_seen (pk_transactions p)"
    and "newPacketHeader (pk_request (fst (packet_writeheader p i))) = ((pk_header p)\<lparr>ph_pid := i\<rparr>, None)"
proof -
  let ?h = "(pk_header p)\<lparr>ph_pid := i\<rparr>"
  have inv: "packet_inv p" and wf: "wf_ph ?h" using assms by (simp_all add: sendable_def wf_ph_def ptype_defs)
  have req: "pk_request (fst (packet_writeheader p i)) = ph_bytes ?h @ drop 4 (pk_request p)"
    using packet_writeheader_inv [OF inv] by simp
  show head: "newPacketHeader (pk_request (fst (packet_writeheader p i))) = (?h, None)"
    unfolding req using wf by (rule newPacketHeader_bytes)
  have "length (ph_bytes ?h) = 4" using wf by (simp add: wf_ph_def)
  then have "target_requests (pk_request (fst (packet_writeheader p i)))
      = decode_requests (ph_order (pk_header p)) (drop 4 (pk_request p))"
    unfolding target_requests_def head by (simp add: req)
  also have "\<dots> = map as_seen (pk_transactions p)"
    using inv assms decode_requests_bytes by (simp add: packet_inv_def sendable_def)
  finally show "target_requests (pk_request (fst (packet_writeheader p i))) = map as_seen (pk_transactions p)" .
qed

subsection \<open>Answers\<close>

text \<open>The replies follow the requests, each with the identifier of its request.\<close>

definition echo_stream :: "byteorder \<Rightarrow> transaction list \<Rightarrow> reply list \<Rightarrow> byte list" where
  "echo_stream order ts rs =
    concat (map2 (\<lambda>t r. reply_bytes order (unat (th_id (t_outheader t))) t r) ts rs)"

definition target_answer :: "byteorder \<Rightarrow> byte list \<Rightarrow> reply list \<Rightarrow> byte list" where
  "target_answer order b rs =
    ph_bytes (control_header (ph_pid (fst (newPacketHeader b))) order) @ echo_stream order (target_requests b) rs"

lemma as_seen_simps [simp]:
  "t_outheader (as_seen t) = t_outheader t" "t_Addr (as_seen t) = t_Addr t" "t_Input (as_seen t) = t_Input t"
  by (simp_all add: as_seen_def seen_request_def)

lemma reply_as_seen [simp]:
  "reply_ok (as_seen t) r = reply_ok t r" "reply_bytes order i (as_seen t) r = reply_bytes order i t r"
  "addresses (as_seen t) = addresses t"
  by (cases r; simp add: reply_header_def addresses_def Let_def)+

lemma list_all2_as_seen [simp]: "list_all2 reply_ok (map as_seen ts) rs = list_all2 reply_ok ts rs"
  by (simp add: list_all2_map1)

lemma echo_stream_as_seen [simp]: "echo_stream order (map as_seen ts) rs = echo_stream order ts rs"
  unfolding echo_stream_def by (induction ts rs rule: list_induct2') simp_all

lemma echo_reply_stream:
  "length rs = length ts \<Longrightarrow> \<forall>j < length ts. th_id (t_outheader (ts ! j)) = of_nat (i + j) \<Longrightarrow>
   i + length ts \<le> 4096 \<Longrightarrow> echo_stream order ts rs = reply_stream order i ts rs"
proof (induction rs ts arbitrary: i rule: list_induct2)
  case Nil
  then show ?case by (simp add: echo_stream_def)
next
  case (Cons r rs t ts)
  have "th_id (t_outheader t) = of_nat i" using Cons.prems(1) by auto
  moreover have "i < 65536" using Cons.prems(2) by simp
  ultimately have "unat (th_id (t_outheader t)) = i" by (simp add: unat_of_nat)
  moreover have "\<forall>j < length ts. th_id (t_outheader (ts ! j)) = of_nat (Suc i + j)"
  proof (intro allI impI)
    fix j assume "j < length ts"
    with Cons.prems(1) have "th_id (t_outheader ((t # ts) ! Suc j)) = of_nat (i + Suc j)" by (metis Suc_less_eq length_Cons)
    then show "th_id (t_outheader (ts ! j)) = of_nat (Suc i + j)" by (simp add: algebra_simps)
  qed
  then have "echo_stream order ts rs = reply_stream order (Suc i) ts rs" using Cons.IH Cons.prems(2) by simp
  ultimately show ?case by (simp add: echo_stream_def)
qed

text \<open>The answer to what went out for a packet is the reply stream that the packet's own
  transactions describe.\<close>

lemma target_answer_request:
  assumes p: "sendable p" and rs: "length rs = length (pk_transactions p)"
  shows "target_answer order (pk_request (fst (packet_writeheader p i))) rs
    = ph_bytes (control_header i order) @ reply_stream order 0 (pk_transactions p) rs"
proof -
  have "echo_stream order (pk_transactions p) rs = reply_stream order 0 (pk_transactions p) rs"
    using p rs by (intro echo_reply_stream) (simp_all add: sendable_def packet_inv_def)
  then show ?thesis by (simp add: target_answer_def request_seen [OF p])
qed

text \<open>The packets of \<open>preparepackets\<close> are sendable.\<close>

lemma pack_ok_few_transactions:
  assumes "pack_ok maxsize p" "28 \<le> maxsize" "maxsize \<le> 32768"
  shows "length (pk_transactions p) \<le> 4096"
proof -
  have "28 + length (pk_request p) \<le> unat maxsize"
    using pack_ok_fits [OF assms(1,2)] .
  moreover have inv: "packet_inv p" using assms(1) by (simp add: pack_ok_def)
  moreover have "unat (pk_reqlen p) = 1 + sum_list (map req_words (pk_transactions p))"
    using inv by (simp add: packet_inv_def)
  moreover have "2 * length ts \<le> sum_list (map req_words ts)" for ts
    by (induction ts) (auto simp: req_words_def)
  note this [of "pk_transactions p"]
  moreover have "unat maxsize \<le> 32768" using assms(3) by (simp add: word_le_nat_alt)
  ultimately show ?thesis unfolding length_request [OF inv] by linarith
qed

lemma pack_ok_sendable:
  assumes p: "pack_ok maxsize p" and size: "28 \<le> maxsize" "maxsize \<le> 32768"
    and parts: "\<forall>t \<in> set (pk_transactions p). \<exists>req. part_of req t"
  shows "sendable p"
proof -
  have inv: "packet_inv p" using p by (simp add: pack_ok_def)
  have few: "length (pk_transactions p) \<le> 4096" using pack_ok_few_transactions [OF p size] .
  have "wf_th (t_outheader t)" if t: "t \<in> set (pk_transactions p)" for t
  proof -
    obtain i where i: "i < length (pk_transactions p)" "t = pk_transactions p ! i"
      using t by (auto simp: in_set_conv_nth)
    have "th_id (t_outheader t) = of_nat i" using inv i by (simp add: packet_inv_def)
    moreover have "i < 4096" using i(1) few by simp
    ultimately have "th_id (t_outheader t) < 4096" by (simp add: word_less_nat_alt unat_of_nat)
    moreover have "th_tid (t_outheader t) < 16"
      using inv t by (intro known_tid_less trans_ok_known) (simp add: packet_inv_def)
    moreover have "th_version (t_outheader t) = 2" "th_code (t_outheader t) = Request"
      using parts t by (auto simp: part_of_def)
    ultimately show ?thesis by (simp add: wf_th_def Request_def)
  qed
  moreover have "wf_ph (pk_header p)" "ph_ptype (pk_header p) = control"
    using p by (simp_all add: pack_ok_def emptypacket_def Let_def wf_ph_def defaultorder_def ptype_defs)
  ultimately show ?thesis using p inv few by (simp add: sendable_def pack_ok_def)
qed

lemma request_parts_part_of: "request_parts req ts \<Longrightarrow> t \<in> set ts \<Longrightarrow> part_of req t"
  by (auto simp: request_parts_def read_parts_def write_parts_def rmw_parts_def split: if_splits)

lemma prepared_sendable:
  assumes "queue_ok maxsize packs" "28 \<le> maxsize" "maxsize \<le> 32768"
    and "list_all2 request_parts reqs tss" "all_trans packs = concat tss" "p \<in> set packs"
  shows "sendable p"
proof (rule pack_ok_sendable [OF _ assms(2,3)])
  show "pack_ok maxsize p" using assms(1,6) by (simp add: queue_ok_def)
  show "\<forall>t \<in> set (pk_transactions p). \<exists>req. part_of req t"
  proof
    fix t assume "t \<in> set (pk_transactions p)"
    then have "t \<in> set (concat tss)" unfolding assms(5) [symmetric] using assms(6) by (auto simp: all_trans_def)
    then obtain ts where "ts \<in> set tss" "t \<in> set ts" by auto
    moreover from assms(4) this(1) obtain req where "request_parts req ts"
      by (auto simp: list_all2_conv_all_nth in_set_conv_nth)
    ultimately show "\<exists>req. part_of req t" using request_parts_part_of by blast
  qed
qed

end
