(* ===== verification/Exchange.thy ===== *)
theory Exchange
  imports Serving Hw_Delivery
begin

text \<open>
  Exchanges with a target: what \<open>parse\<close> and \<open>send\<close> make of its answers, and two
  interpretations of \<open>truthful_target\<close>, both of targets that see only the datagrams that were
  written: the target that gives any well-formed reply to each request, and the target with a
  memory that answers reads.
\<close>

subsection \<open>Answers and their responses\<close>

definition answer_bytes :: "byteorder \<Rightarrow> u16 \<Rightarrow> packet \<Rightarrow> reply list \<Rightarrow> byte list" where
  "answer_bytes order pid p rs = ph_bytes (control_header pid order) @ reply_stream order 0 (pk_transactions p) rs"

definition answer_responses :: "byteorder \<Rightarrow> transaction list \<Rightarrow> reply list \<Rightarrow> chan_event list" where
  "answer_responses order ts rs = send_events ts (map2 (reply_response order) ts rs)"

lemma parse_answer:
  assumes order: "order \<noteq> NilOrder" and p: "pk_replies p = []" "length (pk_transactions p) \<le> 4096"
    and ok: "list_all2 reply_ok (pk_transactions p) rs"
  obtains q where "packet_parse p (answer_bytes order pid p rs) = Some (Inr (q, None))"
    "packet_send q = Inr (answer_responses order (pk_transactions p) rs)"
proof -
  have "length rs = length (pk_transactions p)" using ok by (simp add: list_all2_lengthD)
  then show thesis
    using that packet_parse_stream [OF order p, of rs pid] ok send_loop_events
    by (auto simp: answer_bytes_def answer_responses_def packet_send_def)
qed

text \<open>The same for what went out and what a target answers to it.\<close>

lemma stamped_simps:
  assumes "sendable p"
  shows "pk_request (stamped p i t) = pk_request (fst (packet_writeheader p i))"
    "pk_transactions (stamped p i t) = pk_transactions p" "pk_replies (stamped p i t) = []"
  using packet_writeheader_inv [of p i] assms by (simp_all add: stamped_def sendable_def)

lemma sendable_carries: "sendable p \<Longrightarrow> carries i (pk_request (stamped p i t))"
  by (simp add: stamped_simps carries_def request_seen(2)) (simp add: sendable_def)

lemma stamped_seen:
  "sendable p \<Longrightarrow> target_requests (pk_request (stamped p i t)) = map as_seen (pk_transactions p)"
  by (simp add: stamped_simps request_seen(1))

lemma parse_target_answer:
  assumes order: "order \<noteq> NilOrder" and p: "sendable p" and ok: "list_all2 reply_ok (pk_transactions p) rs"
  obtains q where "packet_parse (stamped p i t) (target_answer order (pk_request (stamped p i t)) rs) = Some (Inr (q, None))"
    "packet_send q = Inr (answer_responses order (pk_transactions p) rs)"
proof -
  have "target_answer order (pk_request (stamped p i t)) rs = answer_bytes order i (stamped p i t) rs"
    using target_answer_request [OF p] list_all2_lengthD [OF ok] p
    by (simp add: stamped_simps answer_bytes_def)
  moreover have few: "length (pk_transactions p) \<le> 4096" using p by (simp add: sendable_def)
  obtain q where "packet_parse (stamped p i t) (answer_bytes order i (stamped p i t) rs) = Some (Inr (q, None))"
      "packet_send q = Inr (answer_responses order (pk_transactions (stamped p i t)) rs)"
    by (rule parse_answer [OF order, of "stamped p i t" rs i]) (use ok p few in \<open>simp_all add: stamped_simps\<close>)
  ultimately show thesis using that stamped_simps(2) [OF p] by metis
qed

text \<open>Parsing an answer and sending the responses.\<close>

definition exchange :: "packet \<Rightarrow> byte list \<Rightarrow> chan_event list outcome option" where
  "exchange p data =
    (case packet_parse p data of
       None \<Rightarrow> None
     | Some (Inl x) \<Rightarrow> Some (Inl x)
     | Some (Inr (q, _)) \<Rightarrow> Some (packet_send q))"

definition plain_reads :: "chan \<Rightarrow> transaction list \<Rightarrow> bool" where
  "plain_reads c ts \<longleftrightarrow> (\<forall>t \<in> set ts. is_read (th_tid (t_outheader t)) \<and> t_resp t = c \<and> \<not> t_byteslice t)"

text \<open>A target whose words are \<open>mem\<close>, and packets of reads.\<close>

definition read_replies :: "(u32 \<Rightarrow> u32) \<Rightarrow> transaction list \<Rightarrow> reply list" where
  "read_replies mem ts = map (\<lambda>t. Good (map mem (addresses t))) ts"

definition read_answer :: "(u32 \<Rightarrow> u32) \<Rightarrow> byteorder \<Rightarrow> u16 \<Rightarrow> packet \<Rightarrow> byte list" where
  "read_answer mem order pid p = answer_bytes order pid p (read_replies mem (pk_transactions p))"

definition readable :: "chan \<Rightarrow> packet \<Rightarrow> bool" where
  "readable c p \<longleftrightarrow> sendable p \<and> plain_reads c (pk_transactions p)"

definition read_response :: "(u32 \<Rightarrow> u32) \<Rightarrow> transaction \<Rightarrow> Response" where
  "read_response mem t =
    \<lparr>rs_Err = None, rs_Code = Success, rs_Data = Some (map mem (addresses t)), rs_DataB = None\<rparr>"

definition read_events :: "(u32 \<Rightarrow> u32) \<Rightarrow> packet \<Rightarrow> chan_event list" where
  "read_events mem p = send_events (pk_transactions p) (map (read_response mem) (pk_transactions p))"

lemma read_replies_ok: "plain_reads c ts \<Longrightarrow> list_all2 reply_ok ts (read_replies mem ts)"
  by (induction ts) (auto simp: plain_reads_def read_replies_def addresses_def Let_def)

lemma read_responses:
  assumes "plain_reads c (pk_transactions p)"
  shows "answer_responses order (pk_transactions p) (read_replies mem (pk_transactions p)) = read_events mem p"
proof -
  have "map2 (reply_response order) ts (read_replies mem ts) = map (read_response mem) ts" if "plain_reads c ts" for ts
    using that by (induction ts) (auto simp: plain_reads_def read_response_def read_replies_def)
  with assms show ?thesis by (simp add: answer_responses_def read_events_def)
qed

lemma exchange_reads:
  assumes order: "order \<noteq> NilOrder" and p: "readable c p"
  shows "exchange p (read_answer mem order pid p) = Some (Inr (read_events mem p))"
proof -
  have un: "pk_replies p = []" "length (pk_transactions p) \<le> 4096" and reads: "plain_reads c (pk_transactions p)"
    using p by (simp_all add: readable_def sendable_def)
  obtain q where "packet_parse p (read_answer mem order pid p) = Some (Inr (q, None))"
    "packet_send q = Inr (answer_responses order (pk_transactions p) (read_replies mem (pk_transactions p)))"
    unfolding read_answer_def using parse_answer [OF order un read_replies_ok [OF reads]] by blast
  then show ?thesis by (simp add: exchange_def read_responses [OF reads])
qed

lemma send_events_simps [simp]:
  "send_events [] rs = []"
  "send_events (t # ts) (r # rs) =
    Deliver (t_resp t) r # (if t_closechan t then [CloseChan (t_resp t)] else []) @ send_events ts rs"
  by (simp_all add: send_events_def)

lemma send_events_append:
  "send_events (ts @ us) (map g ts @ map g us) = send_events ts (map g ts) @ send_events us (map g us)"
  by (induction ts) auto

lemma send_events_close_last:
  "length rs = length ts \<Longrightarrow> close_last ts \<Longrightarrow> \<forall>t \<in> set ts. t_resp t = c \<Longrightarrow>
     send_events ts rs = map (Deliver c) rs @ (if ts = [] then [] else [CloseChan c])"
  by (induction rs ts rule: list_induct2) (auto simp: close_last_Cons split: if_splits)

lemma ReadNow_receive_reads:
  "ReadNow_receive data (map (read_response mem) ts) = (data @ map mem (concat (map addresses ts)), None)"
  by (induction ts arbitrary: data) (auto simp: read_response_def)

lemma concat_read_events:
  "concat (map (read_events mem) ps) = send_events (all_trans ps) (map (read_response mem) (all_trans ps))"
  by (induction ps) (simp_all add: read_events_def send_events_append)

lemma exchange_all:
  assumes "order \<noteq> NilOrder" "\<forall>p \<in> set ps. readable c p"
  shows "list_all2 (\<lambda>p evs. exchange p (read_answer mem order (pk_id p) p) = Some (Inr evs)) ps
    (map (read_events mem) ps)"
  using assms(2) by (induction ps) (auto intro: exchange_reads [OF assms(1)])

subsection \<open>The responses to any requests\<close>

text \<open>What the channel of a request carries: the responses, then one close.\<close>

definition request_events ::
    "byteorder \<Rightarrow> usrrequest \<Rightarrow> transaction list \<Rightarrow> reply list \<Rightarrow> chan_event list" where
  "request_events order req ts rs =
     map (Deliver (ur_resp req)) (map2 (reply_response order) ts rs)
     @ (if ts = [] then [] else [CloseChan (ur_resp req)])"

lemma request_parts_responses:
  assumes "request_parts req ts" "length rs = length ts"
  shows "answer_responses order ts rs = request_events order req ts rs"
proof -
  have "close_last ts" "\<forall>t \<in> set ts. t_resp t = ur_resp req"
    using assms(1)
    by (auto simp: request_parts_def read_parts_def write_parts_def rmw_parts_def part_of_def
        close_last_def split: if_splits)
  then show ?thesis
    using send_events_close_last [of "map2 (reply_response order) ts rs" ts] assms(2)
    by (simp add: answer_responses_def request_events_def)
qed

lemma answer_responses_append:
  "length rs = length ts \<Longrightarrow>
   answer_responses order (ts @ us) (rs @ ss) = answer_responses order ts rs @ answer_responses order us ss"
  by (induction rs ts rule: list_induct2) (auto simp: answer_responses_def)

definition protocol_events :: "byteorder \<Rightarrow> packet \<Rightarrow> chan_event list \<Rightarrow> bool" where
  "protocol_events order p evs \<longleftrightarrow>
     (\<exists>rs. list_all2 reply_ok (pk_transactions p) rs \<and> evs = answer_responses order (pk_transactions p) rs)"

text \<open>Requests with their transactions and the replies to them.\<close>

type_synonym answered_request = "usrrequest \<times> transaction list \<times> reply list"

definition answered_well :: "answered_request \<Rightarrow> bool" where
  "answered_well = (\<lambda>(req, ts, rs). request_parts req ts \<and> list_all2 reply_ok ts rs)"

definition answered_events :: "byteorder \<Rightarrow> answered_request \<Rightarrow> chan_event list" where
  "answered_events order = (\<lambda>(req, ts, rs). request_events order req ts rs)"

lemma protocol_events_concat:
  "list_all2 (protocol_events order) ps evss \<Longrightarrow>
   \<exists>rs. list_all2 reply_ok (all_trans ps) rs \<and> concat evss = answer_responses order (all_trans ps) rs"
proof (induction rule: list_all2_induct)
  case Nil
  then show ?case by (simp add: answer_responses_def)
next
  case (Cons p ps evs evss)
  then obtain rs ss where "list_all2 reply_ok (all_trans ps) ss"
      "concat evss = answer_responses order (all_trans ps) ss"
      "list_all2 reply_ok (pk_transactions p) rs" "evs = answer_responses order (pk_transactions p) rs"
    by (auto simp: protocol_events_def)
  then show ?case
    by (intro exI [of _ "rs @ ss"]) (simp add: list_all2_appendI answer_responses_append list_all2_lengthD)
qed

lemma split_requests:
  "list_all2 request_parts reqs tss \<Longrightarrow> list_all2 reply_ok (concat tss) rs \<Longrightarrow>
   \<exists>parts. map fst parts = reqs \<and> list_all answered_well parts
     \<and> answer_responses order (concat tss) rs = concat (map (answered_events order) parts)"
proof (induction arbitrary: rs rule: list_all2_induct)
  case Nil
  then show ?case by (simp add: answer_responses_def)
next
  case (Cons req reqs ts tss)
  then obtain us ss where rs: "rs = us @ ss" "list_all2 reply_ok ts us" "list_all2 reply_ok (concat tss) ss"
    by (auto simp: list_all2_append1)
  then obtain parts where parts: "map fst parts = reqs" "list_all answered_well parts"
      "answer_responses order (concat tss) ss = concat (map (answered_events order) parts)"
    using Cons.IH by blast
  have "length us = length ts" using rs(2) by (simp add: list_all2_lengthD)
  then have "answer_responses order ts us = answered_events order (req, ts, us)"
      "answer_responses order (ts @ concat tss) rs = answer_responses order ts us @ answer_responses order (concat tss) ss"
    using request_parts_responses [OF Cons.hyps(1)]
    by (simp_all add: answered_events_def rs(1) answer_responses_append)
  with parts rs(2) Cons.hyps(1) show ?case
    by (intro exI [of _ "(req, ts, us) # parts"]) (simp add: answered_well_def)
qed

subsection \<open>Truthful targets\<close>

text \<open>A target that answers each request in a datagram with the words it asks for or with an
  error, and one whose words are \<open>mem\<close>.\<close>

definition protocol_serves :: "byteorder \<Rightarrow> byte list \<Rightarrow> byte list \<Rightarrow> bool" where
  "protocol_serves order b data \<longleftrightarrow>
     (\<exists>rs. list_all2 reply_ok (target_requests b) rs \<and> data = target_answer order b rs)"

definition memory_serves :: "(u32 \<Rightarrow> u32) \<Rightarrow> byteorder \<Rightarrow> byte list \<Rightarrow> byte list \<Rightarrow> bool" where
  "memory_serves mem order b data \<longleftrightarrow> data = target_answer order b (read_replies mem (target_requests b))"

text \<open>Either byte order.\<close>

definition word_order :: "bool \<Rightarrow> byteorder" where
  "word_order big = (if big then BigEndian else LittleEndian)"

lemma word_order_ne [simp]: "word_order big \<noteq> NilOrder"
  by (simp add: word_order_def)

interpretation protocol_target:
  truthful_target sendable "protocol_serves (word_order big)" "protocol_events (word_order big)" for big
proof
  fix p i t data q e
  assume p: "sendable p" and "protocol_serves (word_order big) (pk_request (stamped p i t)) data"
    and parse: "packet_parse (stamped p i t) data = Some (Inr (q, e))"
  then obtain rs where rs: "list_all2 reply_ok (pk_transactions p) rs"
      "data = target_answer (word_order big) (pk_request (stamped p i t)) rs"
    by (auto simp: protocol_serves_def stamped_seen)
  from parse_target_answer [OF word_order_ne p rs(1)] parse rs
  show "\<exists>evs. packet_send q = Inr evs \<and> protocol_events (word_order big) p evs"
    by (metis (no_types, lifting) Inr_inject fst_conv option.inject protocol_events_def)
qed (rule sendable_carries)

lemma read_replies_seen [simp]: "read_replies mem (map as_seen ts) = read_replies mem ts"
  by (simp add: read_replies_def)

interpretation memory_target:
  truthful_target "readable c" "memory_serves mem (word_order big)" "\<lambda>p evs. evs = read_events mem p"
  for c mem big
proof
  fix p i t data q e
  assume p: "readable c p" and "memory_serves mem (word_order big) (pk_request (stamped p i t)) data"
    and parse: "packet_parse (stamped p i t) data = Some (Inr (q, e))"
  then have send: "sendable p" and reads: "plain_reads c (pk_transactions p)"
    and data: "data = target_answer (word_order big) (pk_request (stamped p i t)) (read_replies mem (pk_transactions p))"
    by (simp_all add: readable_def memory_serves_def stamped_seen)
  from parse_target_answer [OF word_order_ne send read_replies_ok [OF reads]] parse data
  show "\<exists>evs. packet_send q = Inr evs \<and> evs = read_events mem p"
    by (metis (no_types, lifting) Inr_inject fst_conv option.inject read_responses [OF reads])
qed (simp add: readable_def sendable_carries)

text \<open>Runs of a list of inputs, each handled at the time 0.\<close>

fun honest_exec ::
    "conn_write \<Rightarrow> (packet \<Rightarrow> bool) \<Rightarrow> (byte list \<Rightarrow> byte list \<Rightarrow> bool) \<Rightarrow> hw_input list \<Rightarrow> system \<Rightarrow> system option" where
  "honest_exec cw good serves [] s = Some s"
| "honest_exec cw good serves (i # is) s =
    (if enabled s i \<and> 4 \<le> idlog_room (h_flyingids (s_hw s)) \<and> honest_input good serves s i
     then (case hw_exec cw 0 s i of
             Some (Inr s') \<Rightarrow> if config_first s s' then honest_exec cw good serves is s' else None
           | _ \<Rightarrow> None)
     else None)"

lemma honest_input_mono:
  "honest_input good serves s i \<Longrightarrow> (\<And>b data. serves b data \<Longrightarrow> serves' b data) \<Longrightarrow>
   honest_input good serves' s i"
  by (cases i) (auto simp: Let_def split: option.splits)

lemma honest_exec_run:
  assumes weaker: "\<And>b data. serves b data \<Longrightarrow> serves' b data"
  shows "honest_exec cw good serves is s = Some s' \<Longrightarrow> honest_run cw dt good serves' packs s \<Longrightarrow>
   honest_run cw dt good serves' (packs @ client_packets is) s'"
proof (induction "is" arbitrary: s packs)
  case Nil
  then show ?case by simp
next
  case (Cons i "is")
  then obtain s1 where s1: "enabled s i" "4 \<le> idlog_room (h_flyingids (s_hw s))" "honest_input good serves s i"
      "hw_exec cw 0 s i = Some (Inr s1)" "config_first s s1" "honest_exec cw good serves is s1 = Some s'"
    by (auto split: if_split_asm option.split_asm sum.split_asm)
  have "client_packets (i # is) = packets_in i @ client_packets is" by (simp add: client_packets_def)
  with Cons.IH [OF s1(6) honest_step [OF Cons.prems(2) s1(1,4,2,5) honest_input_mono [OF s1(3) weaker]]]
  show ?case by simp
qed

text \<open>All packets go in, then the last one is answered first.\<close>

definition outgoing :: "packet \<Rightarrow> u16 \<Rightarrow> byte list" where
  "outgoing p i = pk_request (fst (packet_writeheader p i))"

definition backwards :: "(transaction list \<Rightarrow> reply list) \<Rightarrow> packet list \<Rightarrow> hw_input list" where
  "backwards f ps = map Incoming ps
     @ rev (map (\<lambda>(k, p). let b = outgoing p (of_nat k) in Reply (target_answer BigEndian b (f (target_requests b))))
             (zip [1..<Suc (length ps)] ps))"

definition checked_serves :: "(transaction list \<Rightarrow> reply list) \<Rightarrow> byte list \<Rightarrow> byte list \<Rightarrow> bool" where
  "checked_serves f b data \<longleftrightarrow>
     list_all2 reply_ok (target_requests b) (f (target_requests b))
   \<and> data = target_answer BigEndian b (f (target_requests b))"

definition backwards_run ::
    "(packet \<Rightarrow> bool) \<Rightarrow> (transaction list \<Rightarrow> reply list) \<Rightarrow> packet list \<Rightarrow> system option" where
  "backwards_run good f ps =
    honest_exec perfect_write good (checked_serves f) (backwards f ps) (Run_init (newhw 3))"

lemma packets_backwards: "client_packets (backwards f ps) = ps"
proof -
  have "concat (map packets_in (map Incoming ps)) = ps" for ps by (induction ps) simp_all
  then show ?thesis by (simp add: client_packets_def backwards_def case_prod_beta Let_def)
qed

lemma backwards_honest:
  assumes "backwards_run good f ps = Some sys"
    and "\<And>b data. checked_serves f b data \<Longrightarrow> serves b data"
  shows "honest_run perfect_write 3 good serves ps sys"
proof -
  note honest_exec_run [OF assms(2) assms(1) [unfolded backwards_run_def] honest_start]
  then show ?thesis by (simp add: packets_backwards)
qed

definition all_returned :: "packet list \<Rightarrow> system option \<Rightarrow> bool" where
  "all_returned ps r =
     (case r of None \<Rightarrow> False | Some sys \<Rightarrow> length (returned_ids (h_log (s_hw sys))) = length ps)"

definition prepared_packets :: "prep_event list \<Rightarrow> packet list" where
  "prepared_packets es = (case preparepackets 56 init_preparer (es @ [Requested Target_Dispatch]) of
     Some (Inr s) \<Rightarrow> pr_sent s | _ \<Rightarrow> [])"

text \<open>A read of ten words goes out in two packets; with a read-modify-write, which the target
  refuses, in three.\<close>

definition demo_memory :: "u32 \<Rightarrow> u32" where
  "demo_memory a = a + 1"

definition demo_refusal :: "transaction list \<Rightarrow> reply list" where
  "demo_refusal ts =
    map (\<lambda>t. if is_read (th_tid (t_outheader t)) then Good (map demo_memory (addresses t)) else Bad 4) ts"

abbreviation demo_reads :: "prep_event list" where
  "demo_reads \<equiv> [Requested (Target_Read demo_reg 10 1)]"

abbreviation mixed_requests :: "prep_event list" where
  "mixed_requests \<equiv> [Requested (Target_Read demo_reg 10 1), Requested (Target_RMWbits demo_reg 0 7 2)]"

lemma demo_read_returned:
  "length (prepared_packets demo_reads) = 2"
  "all_returned (prepared_packets demo_reads)
     (backwards_run (readable 1) (read_replies demo_memory) (prepared_packets demo_reads))"
  by code_simp+

lemma demo_requests_returned:
  "length (prepared_packets mixed_requests) = 3"
  "all_returned (prepared_packets mixed_requests)
     (backwards_run sendable demo_refusal (prepared_packets mixed_requests))"
  by code_simp+

lemma prepared_ne:
  assumes "length (prepared_packets es) = Suc n"
  obtains s where "preparepackets 56 init_preparer (es @ [Requested Target_Dispatch]) = Some (Inr s)"
    "pr_sent s = prepared_packets es"
proof -
  have "pr_sent s = prepared_packets es"
    if "preparepackets 56 init_preparer (es @ [Requested Target_Dispatch]) = Some (Inr s)" for s
    by (simp only: prepared_packets_def that option.case sum.case)
  moreover have "\<exists>s. x = Some (Inr s)" if "length (case x of Some (Inr s) \<Rightarrow> pr_sent s | _ \<Rightarrow> []) = Suc n" for x
    using that by (auto split: option.splits sum.splits)
  ultimately show thesis using assms that unfolding prepared_packets_def by blast
qed

lemma backwards_prepared:
  assumes "length (prepared_packets es) = Suc n"
    and "all_returned (prepared_packets es) (backwards_run good f (prepared_packets es))"
    and serves: "\<And>b data. checked_serves f b data \<Longrightarrow> serves b data"
  obtains s sys where
    "preparepackets 56 init_preparer (es @ [Requested Target_Dispatch]) = Some (Inr s)"
    "honest_run perfect_write 3 good serves (pr_sent s) sys"
    "length (returned_ids (h_log (s_hw sys))) = length (pr_sent s)"
proof -
  obtain s where s: "preparepackets 56 init_preparer (es @ [Requested Target_Dispatch]) = Some (Inr s)"
      "pr_sent s = prepared_packets es"
    using assms(1) by (rule prepared_ne)
  obtain sys where sys: "backwards_run good f (prepared_packets es) = Some sys"
      "length (returned_ids (h_log (s_hw sys))) = length (prepared_packets es)"
    using assms(2) unfolding all_returned_def by (auto split: option.splits)
  have "honest_run perfect_write 3 good serves (pr_sent s) sys"
    unfolding s(2) using sys(1) serves by (rule backwards_honest)
  with that s sys(2) show thesis by metis
qed

lemma demo_read_run:
  obtains s sys where
    "preparepackets 56 init_preparer [Requested (Target_Read demo_reg 10 1), Requested Target_Dispatch]
       = Some (Inr s)"
    "honest_run perfect_write 3 (readable 1) (memory_serves demo_memory (word_order True)) (pr_sent s) sys"
    "length (returned_ids (h_log (s_hw sys))) = length (pr_sent s)"
proof (rule backwards_prepared [of demo_reads 1 "readable 1" "read_replies demo_memory"
      "memory_serves demo_memory (word_order True)", unfolded append.simps])
  show "length (prepared_packets demo_reads) = Suc 1" by (simp only: demo_read_returned)
  show "checked_serves (read_replies demo_memory) b data \<Longrightarrow> memory_serves demo_memory (word_order True) b data"
    for b data
    by (simp add: checked_serves_def memory_serves_def word_order_def)
qed (use demo_read_returned(2) in assumption, rule that)

lemma demo_requests_run:
  obtains s sys where
    "preparepackets 56 init_preparer (mixed_requests @ [Requested Target_Dispatch]) = Some (Inr s)"
    "honest_run perfect_write 3 sendable (protocol_serves (word_order True)) (pr_sent s) sys"
    "length (returned_ids (h_log (s_hw sys))) = length (pr_sent s)"
proof (rule backwards_prepared [of mixed_requests 2 sendable demo_refusal "protocol_serves (word_order True)"])
  show "length (prepared_packets mixed_requests) = Suc 2" by (simp only: demo_requests_returned)
  show "checked_serves demo_refusal b data \<Longrightarrow> protocol_serves (word_order True) b data" for b data
    by (auto simp: checked_serves_def protocol_serves_def word_order_def)
qed (use demo_requests_returned(2) in assumption, rule that)

end
