(* ===== verification/Gostrings.thy ===== *)
theory Gostrings
  imports Ipbus_Prelude "HOL-Library.Sublist"
begin

text \<open>
  The functions of Go's standard library on which the register file parser and the
  connection manager rely: \<open>strings.Split\<close>, \<open>Join\<close>, \<open>Contains\<close> and \<open>Replace\<close>,
  \<open>strconv.ParseUint\<close> and \<open>ParseInt\<close>, and \<open>filepath.Split\<close>, \<open>Clean\<close>, \<open>Join\<close> and \<open>Dir\<close> on
  a system whose separator is the slash.  A Go string is its list of bytes.
\<close>

subsection \<open>Strings\<close>

text \<open>\<open>strings.Split\<close> with a separator of one byte: never the empty list.\<close>

fun split_at_char :: "char \<Rightarrow> string \<Rightarrow> string \<times> string option" where
  "split_at_char c [] = ([], None)"
| "split_at_char c (x # xs) =
    (if x = c then ([], Some xs)
     else case split_at_char c xs of (a, r) \<Rightarrow> (x # a, r))"

lemma split_at_char_shorter:
  "split_at_char c s = (a, Some r) \<Longrightarrow> length r < length s"
  by (induction s arbitrary: a) (auto split: if_splits prod.splits)

lemmas [termination_simp] = split_at_char_shorter [OF sym]

fun strings_Split :: "string \<Rightarrow> char \<Rightarrow> string list" where
  "strings_Split s c =
    (case split_at_char c s of (a, None) \<Rightarrow> [a] | (a, Some r) \<Rightarrow> a # strings_Split r c)"

declare strings_Split.simps [simp del]

fun strings_Join :: "string list \<Rightarrow> char \<Rightarrow> string" where
  "strings_Join [] c = []"
| "strings_Join [a] c = a"
| "strings_Join (a # b # r) c = a @ c # strings_Join (b # r) c"

definition strings_Contains :: "string \<Rightarrow> string \<Rightarrow> bool" where
  "strings_Contains s t \<longleftrightarrow> list_ex (prefix t) (suffixes s)"

text \<open>\<open>strings.Replace\<close> with the count 1: the first occurrence.\<close>

fun replace_first :: "string \<Rightarrow> string \<Rightarrow> string \<Rightarrow> string" where
  "replace_first s t u =
    (if prefix t s then u @ drop (length t) s
     else case s of [] \<Rightarrow> [] | c # r \<Rightarrow> c # replace_first r t u)"

declare replace_first.simps [simp del]

lemma split_at_char_append [simp]:
  "c \<notin> set a \<Longrightarrow> split_at_char c (a @ c # r) = (a, Some r)"
  by (induction a) auto

lemma split_at_char_none [simp]: "c \<notin> set a \<Longrightarrow> split_at_char c a = (a, None)"
  by (induction a) auto

lemma strings_Split_none: "c \<notin> set a \<Longrightarrow> strings_Split a c = [a]"
  by (subst strings_Split.simps) simp

lemma strings_Split_append:
  "c \<notin> set a \<Longrightarrow> strings_Split (a @ c # r) c = a # strings_Split r c"
  by (subst strings_Split.simps) simp

lemma strings_Split_nonempty [simp]: "strings_Split s c \<noteq> []"
  by (subst strings_Split.simps) (simp split: prod.split option.split)

text \<open>\<open>Split\<close> is the inverse of \<open>Join\<close>, on parts without the separator.\<close>

lemma Split_Join:
  "xs \<noteq> [] \<Longrightarrow> \<forall>x \<in> set xs. c \<notin> set x \<Longrightarrow> strings_Split (strings_Join xs c) c = xs"
  by (induction xs c rule: strings_Join.induct) (simp_all add: strings_Split_none strings_Split_append)

lemma split_at_char_join:
  "case split_at_char c s of (a, None) \<Rightarrow> s = a | (a, Some r) \<Rightarrow> s = a @ c # r"
  by (induction s) (auto split: prod.splits option.splits)

lemma strings_Join_Cons: "r \<noteq> [] \<Longrightarrow> strings_Join (a # r) c = a @ c # strings_Join r c"
  by (cases r) auto

lemma Join_Split [simp]: "strings_Join (strings_Split s c) c = s"
proof (induction s c rule: strings_Split.induct)
  case (1 s c)
  show ?case
  proof (cases "split_at_char c s")
    case (Pair a o')
    show ?thesis
    proof (cases o')
      case None
      with Pair split_at_char_join [of s c] show ?thesis by (subst strings_Split.simps) simp
    next
      case (Some r)
      have "strings_Join (strings_Split r c) c = r" using 1 [OF Pair [symmetric] Some] .
      with Pair Some split_at_char_join [of s c] show ?thesis
        by (subst strings_Split.simps) (simp add: strings_Join_Cons)
    qed
  qed
qed

lemma strings_Join_snoc:
  "xs \<noteq> [] \<Longrightarrow> strings_Join (xs @ [a]) c = strings_Join xs c @ c # a"
  by (induction xs c rule: strings_Join.induct) auto

lemma replace_first_prefix [simp]: "replace_first (t @ s) t u = u @ s"
  by (subst replace_first.simps) simp

subsection \<open>Numbers\<close>

datatype num_error = ErrSyntax | ErrRange

text \<open>The numbers of the characters that the code of \<open>strconv\<close> compares.\<close>

abbreviation char_code :: "char \<Rightarrow> nat" where
  "char_code \<equiv> of_char"

definition lower :: "nat \<Rightarrow> nat" where
  "lower k = (if 65 \<le> k \<and> k \<le> 90 then k + 32 else k)"

text \<open>The value of a digit: 0 to 9, or a letter from 10 on.\<close>

definition digit_value :: "char \<Rightarrow> nat option" where
  "digit_value c =
    (let k = char_code c in
     if 48 \<le> k \<and> k \<le> 57 then Some (k - 48)
     else if 97 \<le> lower k \<and> lower k \<le> 122 then Some (lower k - 97 + 10)
     else None)"

text \<open>The loop of \<open>ParseUint\<close>: the value so far, and whether an underscore was seen.  The
  value does not wrap: the loop ends with \<open>ErrRange\<close> as soon as it exceeds the largest one.\<close>

fun uint_loop :: "bool \<Rightarrow> nat \<Rightarrow> nat \<Rightarrow> string \<Rightarrow> nat \<Rightarrow> bool \<Rightarrow> num_error + (nat \<times> bool)" where
  "uint_loop base0 base maxval [] n u = Inr (n, u)"
| "uint_loop base0 base maxval (c # s) n u =
    (if c = CHR ''_'' \<and> base0 then uint_loop base0 base maxval s n True
     else case digit_value c of
            None \<Rightarrow> Inl ErrSyntax
          | Some d \<Rightarrow>
              if d \<ge> base then Inl ErrSyntax
              else if n * base + d > maxval then Inl ErrRange
              else uint_loop base0 base maxval s (n * base + d) u)"

text \<open>\<open>underscoreOK\<close>: underscores separate digits, or the base prefix from a digit.  The
  character before is a digit or prefix (\<open>After_Digit\<close>), an underscore, or neither.\<close>

datatype underscore_state = At_Start | After_Digit | After_Underscore | After_Other

fun underscore_loop :: "bool \<Rightarrow> string \<Rightarrow> underscore_state \<Rightarrow> bool" where
  "underscore_loop hex [] i = (i \<noteq> After_Underscore)"
| "underscore_loop hex (c # s) i =
    (let k = char_code c in
     if (48 \<le> k \<and> k \<le> 57) \<or> (hex \<and> 97 \<le> lower k \<and> lower k \<le> 102)
     then underscore_loop hex s After_Digit
     else if c = CHR ''_'' then i = After_Digit \<and> underscore_loop hex s After_Underscore
     else i \<noteq> After_Underscore \<and> underscore_loop hex s After_Other)"

definition base_prefix :: "string \<Rightarrow> nat option" where
  "base_prefix s =
    (case s of
       z # p # r \<Rightarrow>
         if z \<noteq> CHR ''0'' then None
         else if lower (char_code p) = 98 then Some 2
         else if lower (char_code p) = 111 then Some 8
         else if lower (char_code p) = 120 then Some 16
         else None
     | _ \<Rightarrow> None)"

definition underscoreOK :: "string \<Rightarrow> bool" where
  "underscoreOK s =
    (let s = (case s of c # r \<Rightarrow> if c = CHR ''-'' \<or> c = CHR ''+'' then r else s | [] \<Rightarrow> s) in
     case base_prefix s of
       None \<Rightarrow> underscore_loop False s At_Start
     | Some b \<Rightarrow> underscore_loop (b = 16) (drop 2 s) After_Digit)"

text \<open>\<open>ParseUint s base bits\<close>; a base other than 0 is between 2 and 36.  The value is 0 after
  a syntax error, and the largest one after a range error.\<close>

definition ParseUint :: "string \<Rightarrow> nat \<Rightarrow> nat \<Rightarrow> nat \<times> num_error option" where
  "ParseUint s0 base bits =
    (if s0 = [] then (0, Some ErrSyntax)
     else
       let (b, s) =
             (if base \<noteq> 0 then (base, s0)
              else if hd s0 \<noteq> CHR ''0'' then (10, s0)
              else case base_prefix s0 of
                     Some b \<Rightarrow> if length s0 \<ge> 3 then (b, drop 2 s0) else (8, drop 1 s0)
                   | None \<Rightarrow> (8, drop 1 s0));
           maxval = 2 ^ bits - 1
       in case uint_loop (base = 0) b maxval s 0 False of
            Inl ErrSyntax \<Rightarrow> (0, Some ErrSyntax)
          | Inl ErrRange \<Rightarrow> (maxval, Some ErrRange)
          | Inr (n, u) \<Rightarrow>
              if u \<and> \<not> underscoreOK s0 then (0, Some ErrSyntax) else (n, None))"

definition ParseInt :: "string \<Rightarrow> nat \<Rightarrow> nat \<Rightarrow> int \<times> num_error option" where
  "ParseInt s base bits =
    (if s = [] then (0, Some ErrSyntax)
     else
       let neg = (hd s = CHR ''-'');
           s = (if hd s = CHR ''+'' \<or> hd s = CHR ''-'' then tl s else s);
           (un, err) = ParseUint s base bits;
           cutoff = 2 ^ (bits - 1)
       in if err = Some ErrSyntax then (0, Some ErrSyntax)
          else if \<not> neg \<and> un \<ge> cutoff then (int cutoff - 1, Some ErrRange)
          else if neg \<and> un > cutoff then (- int cutoff, Some ErrRange)
          else (if neg then - int un else int un, None))"

subsection \<open>Printing numbers\<close>

text \<open>Numbers as an address table writes them, most significant digit first.\<close>

definition digit_char :: "nat \<Rightarrow> char" where
  "digit_char d = char_of (if d < 10 then 48 + d else 87 + d)"

fun show_digits :: "nat \<Rightarrow> nat \<Rightarrow> string" where
  "show_digits b n = (if b < 2 \<or> n < b then [digit_char n] else show_digits b (n div b) @ [digit_char (n mod b)])"

declare show_digits.simps [simp del]

lemma char_code_char_of: "k < 256 \<Longrightarrow> char_code (char_of k) = k"
  by simp

lemma digit_value_char [simp]: "d < 36 \<Longrightarrow> digit_value (digit_char d) = Some d"
  by (auto simp: digit_value_def digit_char_def lower_def Let_def)

lemma digit_char_not_underscore [simp]: "d < 36 \<Longrightarrow> digit_char d \<noteq> CHR ''_''"
proof
  assume "d < 36" "digit_char d = CHR ''_''"
  then have "digit_value (CHR ''_'') = Some d" using digit_value_char [of d] by simp
  then show False by (simp add: digit_value_def lower_def)
qed

lemma uint_loop_append:
  "uint_loop z b m (s @ t) n u =
     (case uint_loop z b m s n u of Inl e \<Rightarrow> Inl e | Inr (n, u) \<Rightarrow> uint_loop z b m t n u)"
  by (induction z b m s n u rule: uint_loop.induct) (auto split: option.split)

lemma uint_loop_digits:
  assumes "2 \<le> b" "b \<le> 36" "n \<le> m"
  shows "uint_loop z b m (show_digits b n) 0 False = Inr (n, False)"
  using assms
proof (induction b n rule: show_digits.induct)
  case (1 b n)
  show ?case
  proof (cases "n < b")
    case True
    with 1 show ?thesis by (subst show_digits.simps) simp
  next
    case False
    have "n div b \<le> m" using 1(4) by (meson div_le_dividend le_trans)
    with 1 False have "uint_loop z b m (show_digits b (n div b)) 0 False = Inr (n div b, False)" by simp
    moreover have d: "n mod b < b" using 1(2) by simp
    then have "n mod b < 36" "\<not> b \<le> n mod b" using 1(3) by simp_all
    ultimately show ?thesis using False 1 by (subst show_digits.simps) (simp add: uint_loop_append)
  qed
qed

lemma show_digits_nonempty [simp]: "show_digits b n \<noteq> []"
  by (subst show_digits.simps) simp

definition hex_literal :: "nat \<Rightarrow> string" where
  "hex_literal n = ''0x'' @ show_digits 16 n"

lemma ParseUint_hex:
  assumes "n < 2 ^ bits"
  shows "ParseUint (hex_literal n) 0 bits = (n, None)"
proof -
  obtain c r where c: "show_digits 16 n = c # r" by (cases "show_digits 16 n") auto
  have "base_prefix (''0x'' @ show_digits 16 n) = Some 16" by (simp add: base_prefix_def lower_def)
  moreover have "uint_loop True 16 (2 ^ bits - 1) (show_digits 16 n) 0 False = Inr (n, False)"
    using assms by (intro uint_loop_digits) simp_all
  ultimately show ?thesis by (simp add: ParseUint_def hex_literal_def c)
qed

lemma ParseInt_decimal:
  assumes "n < 2 ^ 31"
  shows "ParseInt (show_digits 10 n) 10 32 = (int n, None)"
proof -
  have head: "hd (show_digits 10 n) \<noteq> CHR ''-'' \<and> hd (show_digits 10 n) \<noteq> CHR ''+''"
  proof -
    have "digit_value (hd (show_digits 10 k)) \<noteq> None" for k
    proof (induction "10 :: nat" k rule: show_digits.induct)
      case (1 k)
      then show ?case by (subst show_digits.simps) (auto simp: hd_append)
    qed
    moreover have "digit_value (CHR ''-'') = None" "digit_value (CHR ''+'') = None"
      by (simp_all add: digit_value_def lower_def)
    ultimately show ?thesis by metis
  qed
  have "uint_loop False 10 (2 ^ 32 - 1) (show_digits 10 n) 0 False = Inr (n, False)"
    using assms by (intro uint_loop_digits) simp_all
  then have "ParseUint (show_digits 10 n) 10 32 = (n, None)" by (simp add: ParseUint_def)
  with assms head show ?thesis by (simp add: ParseInt_def)
qed

subsection \<open>File paths\<close>

definition slash :: char where
  [simp]: "slash = CHR ''/''"

text \<open>\<open>filepath.Split\<close>: up to the last slash, and the rest.\<close>

definition filepath_Split :: "string \<Rightarrow> string \<times> string" where
  "filepath_Split p =
    (let file = rev (takeWhile (\<lambda>c. c \<noteq> slash) (rev p))
     in (take (length p - length file) p, file))"

text \<open>\<open>filepath.Clean\<close>: empty elements and dots are dropped, and two dots take back the
  element before them; at the root they are dropped.  \<open>out\<close> holds the elements kept, last
  one first.\<close>

fun clean_elements :: "bool \<Rightarrow> string list \<Rightarrow> string list \<Rightarrow> string list" where
  "clean_elements rooted [] out = rev out"
| "clean_elements rooted (e # es) out =
    (if e = [] \<or> e = ''.'' then clean_elements rooted es out
     else if e = ''..'' then
       (case out of
          [] \<Rightarrow> clean_elements rooted es (if rooted then [] else [''..''])
        | x # r \<Rightarrow> clean_elements rooted es (if x = ''..'' then ''..'' # out else r))
     else clean_elements rooted es (e # out))"

definition filepath_Clean :: "string \<Rightarrow> string" where
  "filepath_Clean p =
    (if p = [] then ''.''
     else
       let rooted = (hd p = slash);
           out = (if rooted then [slash] else []) @
                 strings_Join (clean_elements rooted (strings_Split p slash) []) slash
       in if out = [] then ''.'' else out)"

definition filepath_Join :: "string \<Rightarrow> string \<Rightarrow> string" where
  "filepath_Join a b =
    (if a \<noteq> [] then filepath_Clean (strings_Join [a, b] slash)
     else if b \<noteq> [] then filepath_Clean b
     else [])"

definition filepath_Dir :: "string \<Rightarrow> string" where
  "filepath_Dir p = filepath_Clean (fst (filepath_Split p))"

end
