(* ===== verification/Parser.thy ===== *)
theory Parser
  imports Gostrings Registers
begin

text \<open>
  The register file parser (\<open>parser.go\<close>): \<open>parseregfile\<close> walks through the tokens of an XML
  address table and enters the registers and blocks it finds into the target's map of
  registers; a module node names another file, which is parsed at the node's name and
  address.  \<open>Target.parse\<close> finds the address table in a connection file.

  The file system and the XML decoder are a parameter: an opener gives, for a file name, an
  error or the tokens that \<open>Token\<close> returns, with the error that ends them (\<open>None\<close> for the end
  of the file).  Names of elements other than \<open>connection\<close>, and the text and comments between
  the elements, do not matter to the code.

  The variables of \<open>parseregfile\<close> are the record \<open>parser\<close>, the target's map of registers
  among them; the loop over the tokens is \<open>token_loop\<close>, with the recursive call for a module
  as its first argument.  A file that includes itself recurses without end: the fuel of
  \<open>parseregfile\<close> is the nesting of files, and \<open>None\<close> is a nesting deeper than that.
\<close>

subsection \<open>Tokens and files\<close>

type_synonym xml_attr = "string \<times> string"

datatype xtoken = StartElement string "xml_attr list" | EndElement | OtherToken

type_synonym opener = "string \<Rightarrow> go_error + (xtoken list \<times> go_error option)"

text \<open>A step that may not return, panic, or go on.\<close>

fun lbind :: "'a outcome option \<Rightarrow> ('a \<Rightarrow> 'b outcome option) \<Rightarrow> 'b outcome option" where
  "lbind None f = None"
| "lbind (Some (Inl e)) f = Some (Inl e)"
| "lbind (Some (Inr x)) f = f x"

lemma lbind_eq_Inr [simp]:
  "lbind m f = Some (Inr y) \<longleftrightarrow> (\<exists>x. m = Some (Inr x) \<and> f x = Some (Inr y))"
  by (cases "(m, f)" rule: lbind.cases) auto

lemma lbind_eq_None: "lbind m f = None \<longleftrightarrow> m = None \<or> (\<exists>x. m = Some (Inr x) \<and> f x = None)"
  by (cases "(m, f)" rule: lbind.cases) auto

subsection \<open>Blocks\<close>

record block =
  b_id :: string
  b_address :: u32
  b_description :: string
  b_fwinfo :: string
  b_mode :: string

text \<open>The loop of \<open>register\<close> over the parts of \<open>fwinfo\<close>.\<close>

fun width_loop :: "string list \<Rightarrow> int \<Rightarrow> int outcome" where
  "width_loop [] sz = Inr sz"
| "width_loop (v # vals) sz =
    (if strings_Contains v ''width'' then
       let vv = strings_Split v CHR ''='' in
       if length vv \<le> 1 then Inl IndexOutOfRange
       else let (sizeval, _) = ParseInt (vv ! 1) 10 32 in width_loop vals (sizeval + 1)
     else width_loop vals sz)"

definition block_register :: "block \<Rightarrow> Register outcome" where
  "block_register b =
    obind (width_loop (strings_Split (b_fwinfo b) CHR '';'') 0)
      (\<lambda>sz. Inr \<lparr>r_Name = b_id b, r_Addr = b_address b, r_Masks = [],
         r_noninc = (b_mode b = ''port''), r_size = sz, r_msks = Some Map.empty\<rparr>)"

subsection \<open>The state of \<open>parseregfile\<close>\<close>

type_synonym regmap = "string \<rightharpoonup> Register"

record parser =
  p_Regs :: regmap
  p_name :: string
  p_baseaddr :: u32
  p_localaddr :: u32
  p_currentblock :: block
  p_currentreg :: Register
  p_toplevel :: bool

definition zero_block :: block where
  "zero_block = \<lparr>b_id = [], b_address = 0, b_description = [], b_fwinfo = [], b_mode = []\<rparr>"

definition zero_Register :: Register where
  "zero_Register = \<lparr>r_Name = [], r_Addr = 0, r_Masks = [], r_noninc = False, r_size = 0, r_msks = None\<rparr>"

definition init_parser :: "regmap \<Rightarrow> string \<Rightarrow> parser" where
  "init_parser regs basename =
    \<lparr>p_Regs = regs, p_name = basename, p_baseaddr = 0, p_localaddr = 0,
     p_currentblock = zero_block, p_currentreg = zero_Register, p_toplevel = True\<rparr>"

text \<open>The variables that each start element sets anew.\<close>

datatype regtype = NoType | TopNode | MaskNode | ModNode | BlkNode | RegNode

record element =
  e_regtype :: regtype
  e_module :: string
  e_description :: string
  e_fwinfo :: string
  e_mode :: string
  e_mask :: u32

definition new_element :: element where
  "new_element = \<lparr>e_regtype = NoType, e_module = [], e_description = [], e_fwinfo = [],
     e_mode = [], e_mask = 0\<rparr>"

text \<open>The dotted name one level down.\<close>

definition push_name :: "string \<Rightarrow> string \<Rightarrow> string" where
  "push_name name v = (if name \<noteq> [] then name @ CHR ''.'' # v else v)"

definition parse_u32 :: "string \<Rightarrow> u32" where
  "parse_u32 s = of_nat (fst (ParseUint s 0 32))"

definition read_attr :: "xml_attr \<Rightarrow> parser \<times> element \<Rightarrow> parser \<times> element" where
  "read_attr attr pe =
    (let (n, v) = attr; (p, e) = pe in
     if n = ''id'' then
       if p_toplevel p then (p\<lparr>p_toplevel := False\<rparr>, e)
       else if v = ''TOP'' then (p, e\<lparr>e_regtype := TopNode\<rparr>)
       else (p\<lparr>p_name := push_name (p_name p) v\<rparr>, e)
     else if n = ''address'' then (p\<lparr>p_localaddr := parse_u32 v\<rparr>, e)
     else if n = ''mask'' then (p, e\<lparr>e_regtype := MaskNode, e_mask := parse_u32 v\<rparr>)
     else if n = ''module'' then (p, e\<lparr>e_regtype := ModNode, e_module := v\<rparr>)
     else if n = ''description'' then (p, e\<lparr>e_description := v\<rparr>)
     else if n = ''fwinfo'' then (p, e\<lparr>e_regtype := BlkNode, e_fwinfo := v\<rparr>)
     else if n = ''mode'' then (p, e\<lparr>e_mode := v\<rparr>)
     else (p, e))"

subsection \<open>Start and end elements\<close>

definition block_element :: "u32 \<Rightarrow> element \<Rightarrow> parser \<Rightarrow> parser outcome" where
  "block_element filebaseaddr e p =
    (let p = p\<lparr>p_baseaddr := p_localaddr p + filebaseaddr, p_localaddr := 0\<rparr> in
     obind (if b_id (p_currentblock p) \<noteq> []
            then obind (block_register (p_currentblock p))
                   (\<lambda>r. Inr ((p_Regs p)(b_id (p_currentblock p) \<mapsto> r)))
            else Inr (p_Regs p))
       (\<lambda>regs. Inr (p\<lparr>p_Regs := regs,
          p_currentblock := \<lparr>b_id = p_name p, b_address = p_baseaddr p + p_localaddr p,
            b_description = e_description e, b_fwinfo = e_fwinfo e, b_mode = e_mode e\<rparr>\<rparr>)))"

definition reg_element :: "element \<Rightarrow> parser \<Rightarrow> parser" where
  "reg_element e p =
    p\<lparr>p_Regs := (if r_Name (p_currentreg p) \<noteq> []
                 then (p_Regs p)(r_Name (p_currentreg p) \<mapsto> p_currentreg p) else p_Regs p),
      p_currentreg := \<lparr>r_Name = p_name p, r_Addr = p_baseaddr p + p_localaddr p, r_Masks = [],
        r_noninc = (e_mode e = ''port''), r_size = 1, r_msks = Some Map.empty\<rparr>\<rparr>"

definition mask_element :: "element \<Rightarrow> parser \<Rightarrow> parser outcome" where
  "mask_element e p =
    (let maskname = last (strings_Split (p_name p) CHR ''.'');
         r = p_currentreg p in
     obind (gomap_put (r_msks r) maskname (newmask maskname (e_mask e)))
       (\<lambda>msks. Inr (p\<lparr>p_currentreg := r\<lparr>r_Masks := r_Masks r @ [maskname], r_msks := msks\<rparr>\<rparr>)))"

text \<open>The recursive call: the file, its base name and base address, and the registers so far
  give the registers after it and its error.\<close>

type_synonym regfile_parser =
  "string \<Rightarrow> string \<Rightarrow> u32 \<Rightarrow> regmap \<Rightarrow> (regmap \<times> go_error option) outcome option"

definition module_file :: "string \<Rightarrow> string \<Rightarrow> string" where
  "module_file fn module =
    filepath_Join (fst (filepath_Split fn)) (replace_first module ''file://'' [])"

definition start_element ::
    "regfile_parser \<Rightarrow> string \<Rightarrow> u32 \<Rightarrow> xml_attr list \<Rightarrow> parser \<Rightarrow> (parser \<times> go_error option) outcome option"
  where
  "start_element parsefile fn filebaseaddr attrs p =
    (let (p, e) = fold read_attr attrs (p, new_element) in
     case e_regtype e of
       TopNode \<Rightarrow> Some (Inr (p, None))
     | BlkNode \<Rightarrow> lbind (Some (block_element filebaseaddr e p)) (\<lambda>p. Some (Inr (p, None)))
     | MaskNode \<Rightarrow> lbind (Some (mask_element e p)) (\<lambda>p. Some (Inr (p, None)))
     | ModNode \<Rightarrow>
         lbind (parsefile (module_file fn (e_module e)) (p_name p) (p_localaddr p + filebaseaddr) (p_Regs p))
           (\<lambda>(regs, err). Some (Inr (p\<lparr>p_Regs := regs\<rparr>, err)))
     | _ \<Rightarrow> Some (Inr (reg_element e p, None)))"

definition end_element :: "parser \<Rightarrow> parser" where
  "end_element p =
    p\<lparr>p_name := strings_Join (butlast (strings_Split (p_name p) CHR ''.'')) CHR ''.''\<rparr>"

fun token_loop ::
    "regfile_parser \<Rightarrow> string \<Rightarrow> u32 \<Rightarrow> xtoken list \<Rightarrow> parser \<Rightarrow> (parser \<times> go_error option) outcome option"
  where
  "token_loop parsefile fn filebaseaddr [] p = Some (Inr (p, None))"
| "token_loop parsefile fn filebaseaddr (StartElement n attrs # toks) p =
    lbind (start_element parsefile fn filebaseaddr attrs p)
      (\<lambda>(p, err). case err of
         Some e \<Rightarrow> Some (Inr (p, Some e))
       | None \<Rightarrow> token_loop parsefile fn filebaseaddr toks p)"
| "token_loop parsefile fn filebaseaddr (EndElement # toks) p =
    token_loop parsefile fn filebaseaddr toks (end_element p)"
| "token_loop parsefile fn filebaseaddr (OtherToken # toks) p =
    token_loop parsefile fn filebaseaddr toks p"

text \<open>The last two statements: the current register and block are stored, whatever their
  names.\<close>

definition finish_file :: "parser \<Rightarrow> (regmap \<times> go_error option) outcome" where
  "finish_file p =
    (let regs = (p_Regs p)(r_Name (p_currentreg p) \<mapsto> p_currentreg p) in
     obind (block_register (p_currentblock p))
       (\<lambda>r. Inr (regs(b_id (p_currentblock p) \<mapsto> r), None)))"

definition parse_file :: "regfile_parser \<Rightarrow> opener \<Rightarrow> regfile_parser" where
  "parse_file parsefile os_Open fn basename filebaseaddr regs =
    (case os_Open fn of
       Inl err \<Rightarrow> Some (Inr (regs, Some err))
     | Inr (toks, readerr) \<Rightarrow>
         lbind (token_loop parsefile fn filebaseaddr toks (init_parser regs basename))
           (\<lambda>(p, err).
              if err \<noteq> None then Some (Inr (p_Regs p, err))
              else if readerr \<noteq> None then Some (Inr (p_Regs p, readerr))
              else Some (finish_file p)))"

fun parseregfile :: "nat \<Rightarrow> opener \<Rightarrow> regfile_parser" where
  "parseregfile 0 os_Open fn basename filebaseaddr regs = None"
| "parseregfile (Suc k) os_Open fn basename filebaseaddr regs =
    parse_file (parseregfile k os_Open) os_Open fn basename filebaseaddr regs"

subsection \<open>Connection files\<close>

record connection =
  c_Id :: string
  c_URI :: string
  c_Address :: string

text \<open>What \<open>xml.Unmarshal\<close> reads into a list of connections: the \<open>connection\<close> children of the
  root element, each complete one, up to the end of the root or an error.  Of an attribute
  given twice the last value counts; one that is missing is empty.\<close>

fun skip_element :: "nat \<Rightarrow> xtoken list \<Rightarrow> xtoken list option" where
  "skip_element d [] = None"
| "skip_element d (StartElement n attrs # toks) = skip_element (Suc d) toks"
| "skip_element d (EndElement # toks) = (case d of 0 \<Rightarrow> Some toks | Suc d \<Rightarrow> skip_element d toks)"
| "skip_element d (OtherToken # toks) = skip_element d toks"

lemma skip_element_shorter: "skip_element d toks = Some r \<Longrightarrow> length r < length toks"
  by (induction d toks rule: skip_element.induct) (auto split: nat.splits)

definition last_value :: "xml_attr list \<Rightarrow> string \<Rightarrow> string" where
  "last_value attrs n = (case map_of (rev attrs) n of None \<Rightarrow> [] | Some v \<Rightarrow> v)"

function read_connections :: "xtoken list \<Rightarrow> connection list" where
  "read_connections [] = []"
| "read_connections (StartElement n attrs # toks) =
    (case skip_element 0 toks of
       None \<Rightarrow> []
     | Some toks \<Rightarrow>
         (if n = ''connection''
          then [\<lparr>c_Id = last_value attrs ''id'', c_URI = last_value attrs ''uri'',
                 c_Address = last_value attrs ''address_table''\<rparr>]
          else []) @ read_connections toks)"
| "read_connections (EndElement # toks) = []"
| "read_connections (OtherToken # toks) = read_connections toks"
  by pat_completeness auto
termination
  by (relation "measure length") (auto dest: skip_element_shorter)

fun Unmarshal :: "xtoken list \<Rightarrow> connection list" where
  "Unmarshal [] = []"
| "Unmarshal (StartElement n attrs # toks) = read_connections toks"
| "Unmarshal (_ # toks) = Unmarshal toks"

text \<open>\<open>Target.parse\<close>: the target's name, its destination and registers.\<close>

fun parse_conns ::
    "regfile_parser \<Rightarrow> string \<Rightarrow> connection list \<Rightarrow> string \<Rightarrow> regmap
       \<Rightarrow> (string \<times> regmap \<times> go_error option) outcome option" where
  "parse_conns parsefile name [] dest regs = Some (Inr (dest, regs, None))"
| "parse_conns parsefile name (conn # conns) dest regs =
    (if c_Id conn = name then
       let dest = replace_first (c_URI conn) ''ipbusudp-2.0://'' [];
           addr = replace_first (c_Address conn) ''file://'' []
       in lbind (parsefile addr [] 0 regs)
            (\<lambda>(regs, err).
               if err \<noteq> None then Some (Inr (dest, regs, err))
               else parse_conns parsefile name conns dest regs)
     else parse_conns parsefile name conns dest regs)"

definition Target_parse ::
    "nat \<Rightarrow> opener \<Rightarrow> opener \<Rightarrow> string \<Rightarrow> string \<Rightarrow> string \<Rightarrow> regmap
       \<Rightarrow> (string \<times> regmap \<times> go_error option) outcome option" where
  "Target_parse k os_Open ReadFile fn name dest regs =
    (case ReadFile fn of
       Inl err \<Rightarrow> Some (Inr (dest, regs, Some err))
     | Inr (toks, _) \<Rightarrow> parse_conns (parseregfile k os_Open) name (Unmarshal toks) dest regs)"

end
