(* ===== verification/Address_Table.thy ===== *)
theory Address_Table
  imports Parser
begin

text \<open>
  What the register file parser computes.  An address table is a description of the
  registers of a target: blocks of registers with their masks, and modules described by
  tables in other files.  \<open>table_tokens\<close> writes a table as the tokens of its XML file, and
  \<open>layout\<close> lists the registers it declares, each with its dotted name and global address.
  Parsing the written tables gives exactly the layout.

  Besides: the registers of any parsed files are well-formed, the parser returns when no
  file includes itself, and how it fails on other input.
\<close>

subsection \<open>Names\<close>

lemma strings_Split_snoc: "c \<notin> set v \<Longrightarrow> strings_Split (s @ c # v) c = strings_Split s c @ [v]"
proof (induction s c rule: strings_Split.induct)
  case (1 s c)
  show ?case
  proof (cases "split_at_char c s")
    case (Pair a r)
    show ?thesis
    proof (cases r)
      case None
      with Pair split_at_char_join [of s c] have s: "s = a" by simp
      have "c \<notin> set a" using Pair None by (induction s arbitrary: a) (auto split: if_splits prod.splits)
      with s 1(2) show ?thesis by (simp add: strings_Split_append strings_Split_none)
    next
      case (Some t)
      with Pair split_at_char_join [of s c] have s: "s = a @ c # t" by simp
      have "c \<notin> set a"
        using Pair Some by (induction s arbitrary: a) (auto split: if_splits prod.splits)
      moreover have "strings_Split (t @ c # v) c = strings_Split t c @ [v]"
        using 1(1) [OF Pair [symmetric] Some] 1(2) by simp
      ultimately show ?thesis by (simp add: s strings_Split_append)
    qed
  qed
qed

definition good_id :: "string \<Rightarrow> bool" where
  "good_id v \<longleftrightarrow> v \<noteq> [] \<and> v \<noteq> ''TOP'' \<and> CHR ''.'' \<notin> set v"

lemma split_push_name:
  "good_id v \<Longrightarrow> strings_Split (push_name s v) CHR ''.'' = (if s = [] then [] else strings_Split s CHR ''.'') @ [v]"
  by (auto simp: push_name_def good_id_def strings_Split_none strings_Split_snoc)

lemma last_push_name [simp]: "good_id v \<Longrightarrow> last (strings_Split (push_name s v) CHR ''.'') = v"
  by (simp add: split_push_name)

text \<open>An end element takes back what the start element added to the name.\<close>

lemma end_element_push [simp]:
  "good_id v \<Longrightarrow> end_element (p\<lparr>p_name := push_name s v\<rparr>) = p\<lparr>p_name := s\<rparr>"
  by (simp add: end_element_def split_push_name)

lemma push_name_nonempty [simp]: "good_id v \<Longrightarrow> push_name s v \<noteq> []"
  by (simp add: push_name_def good_id_def)

subsection \<open>Address tables\<close>

record reg_decl =
  rd_id :: string
  rd_addr :: u32
  rd_port :: bool
  rd_masks :: "(string \<times> u32) list"

record blk_decl =
  bd_id :: string
  bd_addr :: u32
  bd_width :: nat
  bd_port :: bool
  bd_regs :: "reg_decl list"

datatype table_entry = Block blk_decl | Module string u32 string

text \<open>The root may be a block itself, with its width.\<close>

record table =
  tb_root :: "nat option"
  tb_entries :: "table_entry list"

text \<open>A table as XML tokens.\<close>

definition hex32 :: "u32 \<Rightarrow> string" where
  "hex32 a = hex_literal (unat a)"

definition fwinfo_attr :: "nat \<Rightarrow> xml_attr" where
  "fwinfo_attr w = (''fwinfo'', ''endpoint;width='' @ show_digits 10 w)"

definition mode_attr :: "bool \<Rightarrow> xml_attr list" where
  "mode_attr port = (if port then [(''mode'', ''port'')] else [])"

definition xml_node :: "xml_attr list \<Rightarrow> xtoken list \<Rightarrow> xtoken list" where
  "xml_node attrs body = StartElement ''node'' attrs # body @ [EndElement]"

definition mask_tokens :: "string \<times> u32 \<Rightarrow> xtoken list" where
  "mask_tokens m = xml_node [(''id'', fst m), (''mask'', hex32 (snd m))] []"

definition reg_tokens :: "reg_decl \<Rightarrow> xtoken list" where
  "reg_tokens r =
    xml_node ([(''id'', rd_id r), (''address'', hex32 (rd_addr r))] @ mode_attr (rd_port r))
      (concat (map mask_tokens (rd_masks r)))"

definition blk_tokens :: "blk_decl \<Rightarrow> xtoken list" where
  "blk_tokens b =
    xml_node ([(''id'', bd_id b), (''address'', hex32 (bd_addr b))] @ mode_attr (bd_port b)
        @ [fwinfo_attr (bd_width b)])
      (concat (map reg_tokens (bd_regs b)))"

fun entry_tokens :: "table_entry \<Rightarrow> xtoken list" where
  "entry_tokens (Block b) = blk_tokens b"
| "entry_tokens (Module i a m) =
    xml_node [(''id'', i), (''address'', hex32 a), (''module'', ''file://'' @ m)] []"

definition table_tokens :: "table \<Rightarrow> xtoken list" where
  "table_tokens t =
    xml_node ((''id'', ''TOP'') # (case tb_root t of None \<Rightarrow> [] | Some w \<Rightarrow> [fwinfo_attr w]))
      (concat (map entry_tokens (tb_entries t)))"

text \<open>The registers a table declares, with their names.\<close>

definition mask_map :: "(string \<times> u32) list \<Rightarrow> string \<rightharpoonup> msk" where
  "mask_map ms = fold (\<lambda>(n, v) f. f(n \<mapsto> newmask n v)) ms Map.empty"

definition reg_value :: "string \<Rightarrow> u32 \<Rightarrow> reg_decl \<Rightarrow> Register" where
  "reg_value path base r =
    \<lparr>r_Name = push_name path (rd_id r), r_Addr = base + rd_addr r, r_Masks = map fst (rd_masks r),
     r_noninc = rd_port r, r_size = 1, r_msks = Some (mask_map (rd_masks r))\<rparr>"

definition blk_value :: "string \<Rightarrow> u32 \<Rightarrow> nat \<Rightarrow> bool \<Rightarrow> Register" where
  "blk_value name base w port =
    \<lparr>r_Name = name, r_Addr = base, r_Masks = [], r_noninc = port, r_size = int w + 1,
     r_msks = Some Map.empty\<rparr>"

text \<open>The root of a file is a register or block with the file's base name.  As a register its
  address is 0.\<close>

definition root_layout :: "string \<Rightarrow> u32 \<Rightarrow> nat option \<Rightarrow> (string \<times> Register) list" where
  "root_layout path fb root =
    [(path, case root of
       None \<Rightarrow> \<lparr>r_Name = path, r_Addr = 0, r_Masks = [], r_noninc = False, r_size = 1, r_msks = Some Map.empty\<rparr>
     | Some w \<Rightarrow> blk_value path fb w False)]"

definition blk_layout :: "string \<Rightarrow> u32 \<Rightarrow> blk_decl \<Rightarrow> (string \<times> Register) list" where
  "blk_layout path fb b =
    (let name = push_name path (bd_id b); base = bd_addr b + fb in
     (name, blk_value name base (bd_width b) (bd_port b))
     # map (\<lambda>r. (push_name name (rd_id r), reg_value name base r)) (bd_regs b))"

fun entry_layout ::
    "(string \<Rightarrow> string \<Rightarrow> u32 \<Rightarrow> (string \<times> Register) list) \<Rightarrow> string \<Rightarrow> string \<Rightarrow> u32
       \<Rightarrow> table_entry \<Rightarrow> (string \<times> Register) list" where
  "entry_layout sub fn path fb (Block b) = blk_layout path fb b"
| "entry_layout sub fn path fb (Module i a m) =
    sub (filepath_Join (fst (filepath_Split fn)) m) (push_name path i) (a + fb)"

fun layout ::
    "(string \<rightharpoonup> table) \<Rightarrow> nat \<Rightarrow> string \<Rightarrow> string \<Rightarrow> u32 \<Rightarrow> (string \<times> Register) list" where
  "layout tabs 0 fn path fb = []"
| "layout tabs (Suc k) fn path fb =
    (case tabs fn of
       None \<Rightarrow> []
     | Some t \<Rightarrow> root_layout path fb (tb_root t)
         @ concat (map (entry_layout (layout tabs k) fn path fb) (tb_entries t)))"

text \<open>Identifiers have no dots, widths fit \<open>ParseInt\<close>, and modules are nested at most \<open>k\<close>
  files deep.\<close>

definition wf_reg :: "reg_decl \<Rightarrow> bool" where
  "wf_reg r \<longleftrightarrow> good_id (rd_id r) \<and> list_all (good_id \<circ> fst) (rd_masks r)"

fun wf_entry :: "(string \<Rightarrow> bool) \<Rightarrow> string \<Rightarrow> table_entry \<Rightarrow> bool" where
  "wf_entry sub fn (Block b) \<longleftrightarrow>
     good_id (bd_id b) \<and> bd_width b < 2 ^ 31 \<and> list_all wf_reg (bd_regs b)"
| "wf_entry sub fn (Module i a m) \<longleftrightarrow>
     good_id i \<and> sub (filepath_Join (fst (filepath_Split fn)) m)"

fun wf_tables :: "(string \<rightharpoonup> table) \<Rightarrow> nat \<Rightarrow> string \<Rightarrow> bool" where
  "wf_tables tabs 0 fn = False"
| "wf_tables tabs (Suc k) fn =
    (case tabs fn of
       None \<Rightarrow> False
     | Some t \<Rightarrow>
         (case tb_root t of None \<Rightarrow> True | Some w \<Rightarrow> w < 2 ^ 31) \<and>
         list_all (wf_entry (wf_tables tabs k) fn) (tb_entries t))"

lemma pop_push_name [simp]:
  "good_id v \<Longrightarrow> strings_Join (butlast (strings_Split (push_name s v) CHR ''.'')) CHR ''.'' = s"
  by (simp add: split_push_name)

subsection \<open>Parsing the parts of a table\<close>

lemma parse_u32_hex [simp]: "parse_u32 (hex32 a) = a"
proof -
  have "unat a < 2 ^ 32" using unsigned_less [of a] by simp
  then show ?thesis by (simp add: parse_u32_def hex32_def ParseUint_hex)
qed

lemma digits_are_digits:
  "2 \<le> b \<Longrightarrow> b \<le> 36 \<Longrightarrow> c \<in> set (show_digits b n) \<Longrightarrow> digit_value c \<noteq> None"
proof (induction b n rule: show_digits.induct)
  case (1 b n)
  have "n mod b < b" using 1(2) by simp
  then have d: "n mod b < 36" using 1(3) by simp
  show ?case
  proof (cases "n < b")
    case True
    with 1(3,4) show ?thesis by (subst (asm) show_digits.simps) simp
  next
    case False
    with 1(4) have "c \<in> set (show_digits b (n div b)) \<or> c = digit_char (n mod b)"
      using 1(2) by (subst (asm) show_digits.simps) auto
    with 1 False d show ?thesis by auto
  qed
qed

lemma digits_no_separator:
  "CHR '';'' \<notin> set (show_digits 10 n)" "CHR ''='' \<notin> set (show_digits 10 n)"
proof -
  have "digit_value (CHR '';'') = None" "digit_value (CHR ''='') = None"
    by (simp_all add: digit_value_def lower_def)
  then show "CHR '';'' \<notin> set (show_digits 10 n)" "CHR ''='' \<notin> set (show_digits 10 n)"
    using digits_are_digits [of 10 _ n] by fastforce+
qed

lemma block_register_width:
  assumes "b_fwinfo b = snd (fwinfo_attr w)" "w < 2 ^ 31"
  shows "block_register b = Inr (blk_value (b_id b) (b_address b) w (b_mode b = ''port''))"
proof -
  have "strings_Split (''endpoint'' @ CHR '';'' # ''width='' @ show_digits 10 w) CHR '';''
      = [''endpoint'', ''width='' @ show_digits 10 w]"
    by (subst strings_Split_append) (simp_all add: strings_Split_none digits_no_separator)
  moreover have "strings_Split (''width'' @ CHR ''='' # show_digits 10 w) CHR ''=''
      = [''width'', show_digits 10 w]"
    by (subst strings_Split_append) (simp_all add: strings_Split_none digits_no_separator)
  moreover have "\<not> strings_Contains ''endpoint'' ''width''" by (simp add: strings_Contains_def)
  moreover have "strings_Contains (''width'' @ s) ''width''" for s
    by (simp add: strings_Contains_def)
  note this [of "''='' @ show_digits 10 w"]
  ultimately show ?thesis
    using assms ParseInt_decimal [of w]
    by (simp add: block_register_def fwinfo_attr_def blk_value_def)
qed

definition add_masks :: "(string \<times> u32) list \<Rightarrow> Register \<Rightarrow> Register" where
  "add_masks ms r =
    r\<lparr>r_Masks := r_Masks r @ map fst ms,
      r_msks := map_option (fold (\<lambda>(n, v) f. f(n \<mapsto> newmask n v)) ms) (r_msks r)\<rparr>"

lemma parse_masks:
  assumes "list_all (good_id \<circ> fst) ms" "r_msks (p_currentreg p) \<noteq> None" "\<not> p_toplevel p"
  shows "token_loop pf fn fb (concat (map mask_tokens ms) @ rest) p
    = token_loop pf fn fb rest (p\<lparr>p_currentreg := add_masks ms (p_currentreg p)\<rparr>)"
  using assms
proof (induction ms arbitrary: p)
  case Nil
  have "add_masks [] (p_currentreg p) = p_currentreg p"
    by (simp add: add_masks_def option.map_id0 id_def [symmetric])
  then show ?case by simp
next
  case (Cons m ms)
  obtain i v where m: "m = (i, v)" by (cases m)
  obtain f where f: "r_msks (p_currentreg p) = Some f" using Cons.prems(2) by auto
  have i: "good_id i" "i \<noteq> ''TOP''" using Cons.prems(1) by (auto simp: m good_id_def)
  let ?r = "(p_currentreg p)\<lparr>r_Masks := r_Masks (p_currentreg p) @ [i],
      r_msks := Some (f(i \<mapsto> newmask i v))\<rparr>"
  have "token_loop pf fn fb (concat (map mask_tokens (m # ms)) @ rest) p
      = token_loop pf fn fb (concat (map mask_tokens ms) @ rest) (p\<lparr>p_currentreg := ?r\<rparr>)"
    using i f Cons.prems(3)
    by (simp add: m mask_tokens_def xml_node_def start_element_def read_attr_def new_element_def
        mask_element_def gomap_put_def end_element_def Let_def)
  also have "\<dots> = token_loop pf fn fb rest (p\<lparr>p_currentreg := add_masks ms ?r\<rparr>)"
    using Cons by simp
  also have "add_masks ms ?r = add_masks (m # ms) (p_currentreg p)"
    by (simp add: add_masks_def m f)
  finally show ?case .
qed

definition reg_parsed :: "u32 \<Rightarrow> reg_decl \<Rightarrow> parser \<Rightarrow> parser" where
  "reg_parsed base r p =
    p\<lparr>p_Regs := (if r_Name (p_currentreg p) \<noteq> []
                 then (p_Regs p)(r_Name (p_currentreg p) \<mapsto> p_currentreg p) else p_Regs p),
      p_localaddr := rd_addr r,
      p_currentreg := reg_value (p_name p) base r\<rparr>"

lemma parse_reg:
  assumes "wf_reg r" "\<not> p_toplevel p"
  shows "token_loop pf fn fb (reg_tokens r @ rest) p
    = token_loop pf fn fb rest (reg_parsed (p_baseaddr p) r p)"
proof -
  have i: "good_id (rd_id r)" "rd_id r \<noteq> ''TOP''" using assms(1) by (auto simp: wf_reg_def good_id_def)
  let ?regs = "if r_Name (p_currentreg p) \<noteq> []
                 then (p_Regs p)(r_Name (p_currentreg p) \<mapsto> p_currentreg p) else p_Regs p"
  let ?r = "\<lparr>r_Name = push_name (p_name p) (rd_id r), r_Addr = p_baseaddr p + rd_addr r, r_Masks = [],
        r_noninc = rd_port r, r_size = 1, r_msks = Some Map.empty\<rparr> :: Register"
  have "token_loop pf fn fb (reg_tokens r @ rest) p
      = token_loop pf fn fb (concat (map mask_tokens (rd_masks r)) @ EndElement # rest)
          (p\<lparr>p_name := push_name (p_name p) (rd_id r), p_localaddr := rd_addr r,
             p_Regs := ?regs, p_currentreg := ?r\<rparr>)"
    using i assms(2)
    by (simp add: reg_tokens_def xml_node_def mode_attr_def start_element_def read_attr_def
        new_element_def reg_element_def Let_def)
  also have "\<dots> = token_loop pf fn fb rest (reg_parsed (p_baseaddr p) r p)"
    using i assms
    by (subst parse_masks)
      (simp_all add: wf_reg_def end_element_def reg_parsed_def add_masks_def reg_value_def mask_map_def,
       cases p, simp)
  finally show ?thesis .
qed

subsection \<open>The registers stored so far\<close>

text \<open>The registers of \<open>ps\<close> are stored over those of \<open>regs\<close>, the last register and block still
  waiting in \<open>currentreg\<close> and \<open>currentblock\<close>.  The entry of the empty name is left open.\<close>

definition stored :: "regmap \<Rightarrow> (string \<times> Register) list \<Rightarrow> parser \<Rightarrow> bool" where
  "stored regs ps p \<longleftrightarrow>
    (\<exists>r. block_register (p_currentblock p) = Inr r
       \<and> b_id (p_currentblock p) \<in> insert [] (fst ` set ps)
       \<and> r_Name (p_currentreg p) \<in> insert [] (fst ` set ps)
       \<and> (b_id (p_currentblock p) = r_Name (p_currentreg p) \<longrightarrow> b_id (p_currentblock p) = [])
       \<and> (\<forall>n. n \<noteq> [] \<longrightarrow>
           ((p_Regs p)(r_Name (p_currentreg p) \<mapsto> p_currentreg p, b_id (p_currentblock p) \<mapsto> r)) n
             = (regs ++ map_of (rev ps)) n))"

lemma block_register_zero: "\<exists>r. block_register zero_block = Inr r"
  unfolding block_register_def zero_block_def
  by (simp add: strings_Split_none strings_Contains_def)

lemma stored_init: "stored regs [] (init_parser regs path)"
  using block_register_zero
  by (simp add: stored_def init_parser_def) (simp add: zero_block_def zero_Register_def)

lemma stored_frame:
  "stored regs ps p \<Longrightarrow> p_Regs p' = p_Regs p \<Longrightarrow> p_currentblock p' = p_currentblock p \<Longrightarrow>
     p_currentreg p' = p_currentreg p \<Longrightarrow> stored regs ps p'"
  by (simp add: stored_def)

lemma stored_reg:
  assumes "stored regs ps p" "n \<notin> fst ` set ps" "r_Name r = n"
    and "p_Regs p' = (if r_Name (p_currentreg p) \<noteq> []
           then (p_Regs p)(r_Name (p_currentreg p) \<mapsto> p_currentreg p) else p_Regs p)"
    and "p_currentblock p' = p_currentblock p" "p_currentreg p' = r"
  shows "stored regs (ps @ [(n, r)]) p'"
proof -
  let ?b = "b_id (p_currentblock p)" and ?n = "r_Name (p_currentreg p)"
  obtain b where b: "block_register (p_currentblock p) = Inr b"
      "?b \<in> insert [] (fst ` set ps)" "?n \<in> insert [] (fst ` set ps)"
      "\<And>m. m \<noteq> [] \<Longrightarrow> ((p_Regs p)(?n \<mapsto> p_currentreg p, ?b \<mapsto> b)) m = (regs ++ map_of (rev ps)) m"
    using assms(1) by (auto simp: stored_def)
  have "((p_Regs p')(n \<mapsto> r, ?b \<mapsto> b)) m = (regs ++ map_of (rev (ps @ [(n, r)]))) m" if "m \<noteq> []" for m
    using that b(4) [of m] b(2) assms(2,4)
    by (cases "m = n"; cases "m = ?b") (auto simp: map_add_def split: if_splits)
  moreover have "?b = n \<longrightarrow> ?b = []" using assms(2) b(2) by (metis insertE)
  moreover have "?b \<in> insert [] (fst ` set (ps @ [(n, r)]))" using b(2) by auto
  ultimately show ?thesis using assms(3) b(1) unfolding stored_def assms(5,6) by auto
qed

lemma stored_block:
  assumes "stored regs ps p" "n \<notin> fst ` set ps" "b_id b = n" "block_register b = Inr r"
    and "block_register (p_currentblock p) = Inr r0"
    and "p_Regs p' = (if b_id (p_currentblock p) \<noteq> []
           then (p_Regs p)(b_id (p_currentblock p) \<mapsto> r0) else p_Regs p)"
    and "p_currentblock p' = b" "p_currentreg p' = p_currentreg p"
  shows "stored regs (ps @ [(n, r)]) p'"
proof -
  let ?b = "b_id (p_currentblock p)" and ?n = "r_Name (p_currentreg p)"
  have b: "?b \<in> insert [] (fst ` set ps)" "?n \<in> insert [] (fst ` set ps)" "?b = ?n \<longrightarrow> ?b = []"
      "\<And>m. m \<noteq> [] \<Longrightarrow> ((p_Regs p)(?n \<mapsto> p_currentreg p, ?b \<mapsto> r0)) m = (regs ++ map_of (rev ps)) m"
    using assms(1,5) by (auto simp: stored_def)
  have "((p_Regs p')(?n \<mapsto> p_currentreg p, n \<mapsto> r)) m = (regs ++ map_of (rev (ps @ [(n, r)]))) m"
    if "m \<noteq> []" for m
    using that b(4) [of m] b(1-3) assms(2,6)
    by (cases "m = n"; cases "m = ?b"; cases "m = ?n") (auto simp: map_add_def split: if_splits)
  moreover have "n = ?n \<longrightarrow> n = []" using assms(2) b(2) by (metis insertE)
  moreover have "?n \<in> insert [] (fst ` set (ps @ [(n, r)]))" using b(2) by auto
  ultimately show ?thesis using assms(3,4) unfolding stored_def assms(7,8) by auto
qed

lemma stored_module:
  assumes "stored regs ps p" "fst ` set qs \<inter> fst ` set ps = {}"
    and "\<And>n. n \<noteq> [] \<Longrightarrow> p_Regs p' n = (p_Regs p ++ map_of (rev qs)) n"
    and "p_currentblock p' = p_currentblock p" "p_currentreg p' = p_currentreg p"
  shows "stored regs (ps @ qs) p'"
proof -
  let ?b = "b_id (p_currentblock p)" and ?n = "r_Name (p_currentreg p)"
  obtain b where b: "block_register (p_currentblock p) = Inr b"
      "?b \<in> insert [] (fst ` set ps)" "?n \<in> insert [] (fst ` set ps)"
      "\<And>m. m \<noteq> [] \<Longrightarrow> ((p_Regs p)(?n \<mapsto> p_currentreg p, ?b \<mapsto> b)) m = (regs ++ map_of (rev ps)) m"
    using assms(1) by (auto simp: stored_def)
  have "((p_Regs p')(?n \<mapsto> p_currentreg p, ?b \<mapsto> b)) m = (regs ++ map_of (rev (ps @ qs))) m" if "m \<noteq> []" for m
  proof -
    have "m \<in> fst ` set ps \<Longrightarrow> map_of (rev qs) m = None"
      using assms(2) by (auto simp: map_of_eq_None_iff)
    then show ?thesis
      using that b(4) [of m] b(2,3) assms(3) [of m]
      by (cases "m = ?n"; cases "m = ?b") (auto simp: map_add_def split: option.splits)
  qed
  with b assms(1,4,5) show ?thesis by (auto simp: stored_def)
qed

lemma stored_finish:
  assumes "stored regs ps p"
  shows "\<exists>regs'. finish_file p = Inr (regs', None) \<and> (\<forall>n. n \<noteq> [] \<longrightarrow> regs' n = (regs ++ map_of (rev ps)) n)"
proof -
  obtain r where r: "block_register (p_currentblock p) = Inr r"
      "\<forall>n. n \<noteq> [] \<longrightarrow> ((p_Regs p)(r_Name (p_currentreg p) \<mapsto> p_currentreg p,
          b_id (p_currentblock p) \<mapsto> r)) n = (regs ++ map_of (rev ps)) n"
    using assms unfolding stored_def by blast
  then show ?thesis unfolding finish_file_def Let_def by (intro exI conjI) (simp, assumption)
qed

subsection \<open>Parsing tables\<close>

text \<open>The tokens of a part of a table, read in a state where \<open>ps\<close> is stored, lead to one where
  \<open>qs\<close> is stored too; the name and the flag are as before.\<close>

definition reads ::
    "regfile_parser \<Rightarrow> string \<Rightarrow> u32 \<Rightarrow> regmap \<Rightarrow> xtoken list \<Rightarrow> parser
       \<Rightarrow> (string \<times> Register) list \<Rightarrow> (string \<times> Register) list \<Rightarrow> bool" where
  "reads pf fn fb regs toks p ps qs \<longleftrightarrow>
    (\<exists>p'. (\<forall>rest. token_loop pf fn fb (toks @ rest) p = token_loop pf fn fb rest p')
        \<and> stored regs (ps @ qs) p' \<and> p_name p' = p_name p \<and> \<not> p_toplevel p')"

lemma reads_Nil: "stored regs ps p \<Longrightarrow> \<not> p_toplevel p \<Longrightarrow> reads pf fn fb regs [] p ps []"
  by (auto simp: reads_def)

lemma parse_regs:
  assumes "list_all wf_reg rs" "\<not> p_toplevel p" "stored regs ps p"
    and "distinct (map fst (ps @ map (\<lambda>r. (push_name (p_name p) (rd_id r), reg_value (p_name p) (p_baseaddr p) r)) rs))"
  shows "reads pf fn fb regs (concat (map reg_tokens rs)) p ps
      (map (\<lambda>r. (push_name (p_name p) (rd_id r), reg_value (p_name p) (p_baseaddr p) r)) rs)"
  using assms
proof (induction rs arbitrary: p ps)
  case Nil
  then show ?case by (simp add: reads_Nil)
next
  case (Cons r rs)
  let ?v = "\<lambda>r. (push_name (p_name p) (rd_id r), reg_value (p_name p) (p_baseaddr p) r)"
  let ?p = "reg_parsed (p_baseaddr p) r p"
  have same: "p_name ?p = p_name p" "p_baseaddr ?p = p_baseaddr p" "\<not> p_toplevel ?p"
    using Cons.prems(2) by (simp_all add: reg_parsed_def)
  have "fst (?v r) \<notin> fst ` set ps" using Cons.prems(4) by auto
  then have st: "stored regs (ps @ [?v r]) ?p"
    using stored_reg [OF Cons.prems(3), of "fst (?v r)" "snd (?v r)" ?p]
    by (simp add: reg_parsed_def reg_value_def)
  have "reads pf fn fb regs (concat (map reg_tokens rs)) ?p (ps @ [?v r]) (map ?v rs)"
    using Cons.IH [OF _ same(3) st] Cons.prems(1,4) by (simp add: same)
  then show ?case
    using parse_reg [of r p pf fn fb] Cons.prems(1,2) by (auto simp: reads_def same)
qed

lemma blk_start:
  assumes "good_id (bd_id b)" "\<not> p_toplevel p"
  shows "start_element pf fn fb ([(''id'', bd_id b), (''address'', hex32 (bd_addr b))] @ mode_attr (bd_port b)
        @ [fwinfo_attr (bd_width b)]) p
    = lbind (Some (block_element fb
        \<lparr>e_regtype = BlkNode, e_module = [], e_description = [], e_fwinfo = snd (fwinfo_attr (bd_width b)),
         e_mode = (if bd_port b then ''port'' else []), e_mask = 0\<rparr>
        (p\<lparr>p_name := push_name (p_name p) (bd_id b), p_localaddr := bd_addr b\<rparr>)))
      (\<lambda>p. Some (Inr (p, None)))"
  using assms
  by (simp add: start_element_def read_attr_def new_element_def mode_attr_def fwinfo_attr_def
      good_id_def Let_def)

lemma block_element_stored:
  assumes "stored regs ps p0" "p_currentblock p = p_currentblock p0" "p_currentreg p = p_currentreg p0"
    and "p_Regs p = p_Regs p0" "p_name p \<notin> fst ` set ps" "e_fwinfo e = snd (fwinfo_attr w)" "w < 2 ^ 31"
  shows "\<exists>p'. block_element fb e p = Inr p'
    \<and> stored regs (ps @ [(p_name p, blk_value (p_name p) (p_localaddr p + fb) w (e_mode e = ''port''))]) p'
    \<and> p_name p' = p_name p \<and> p_baseaddr p' = p_localaddr p + fb \<and> p_toplevel p' = p_toplevel p"
proof -
  obtain r0 where r0: "block_register (p_currentblock p) = Inr r0"
    using assms(1,2) by (auto simp: stored_def)
  define b where "b = \<lparr>b_id = p_name p, b_address = p_localaddr p + fb,
    b_description = e_description e, b_fwinfo = e_fwinfo e, b_mode = e_mode e\<rparr>"
  have b: "block_register b = Inr (blk_value (p_name p) (p_localaddr p + fb) w (e_mode e = ''port''))"
    using block_register_width [of b w] assms(6,7) by (simp add: b_def)
  define regs' where "regs' = (if b_id (p_currentblock p0) \<noteq> []
           then (p_Regs p0)(b_id (p_currentblock p0) \<mapsto> r0) else p_Regs p0)"
  define p' where "p' = p\<lparr>p_baseaddr := p_localaddr p + fb, p_localaddr := 0, p_Regs := regs',
    p_currentblock := b\<rparr>"
  have p': "block_element fb e p = Inr p'" "p_Regs p' = regs'"
      "p_currentblock p' = b" "p_currentreg p' = p_currentreg p0"
      "p_name p' = p_name p" "p_baseaddr p' = p_localaddr p + fb" "p_toplevel p' = p_toplevel p"
    using r0 assms(2-4) by (simp_all add: block_element_def b_def p'_def regs'_def Let_def)
  have "stored regs (ps @ [(p_name p, blk_value (p_name p) (p_localaddr p + fb) w (e_mode e = ''port''))]) p'"
    using stored_block [OF assms(1,5) _ b _ p'(2) [unfolded regs'_def] p'(3,4)] r0 assms(2)
    by (simp add: b_def)
  with p' show ?thesis by auto
qed

lemma reads_end:
  assumes "reads pf fn fb regs toks p ps qs" "p_name p = push_name path i" "good_id i"
  shows "\<exists>p'. (\<forall>rest. token_loop pf fn fb (toks @ EndElement # rest) p = token_loop pf fn fb rest p')
    \<and> stored regs (ps @ qs) p' \<and> p_name p' = path \<and> \<not> p_toplevel p'"
proof -
  obtain p' where p': "\<And>rest. token_loop pf fn fb (toks @ rest) p = token_loop pf fn fb rest p'"
      "stored regs (ps @ qs) p'" "p_name p' = p_name p" "\<not> p_toplevel p'"
    using assms(1) by (auto simp: reads_def)
  have "stored regs (ps @ qs) (end_element p')"
    using p'(2) by (rule stored_frame) (simp_all add: end_element_def)
  with p' assms(2,3) show ?thesis
    by (intro exI [of _ "end_element p'"]) (simp add: end_element_def)
qed

lemma parse_block:
  assumes wf: "good_id (bd_id b)" "bd_width b < 2 ^ 31" "list_all wf_reg (bd_regs b)"
    and p: "\<not> p_toplevel p" "stored regs ps p" "distinct (map fst (ps @ blk_layout (p_name p) fb b))"
  shows "reads pf fn fb regs (blk_tokens b) p ps (blk_layout (p_name p) fb b)"
proof -
  let ?n = "push_name (p_name p) (bd_id b)" and ?base = "bd_addr b + fb"
  let ?v = "\<lambda>r. (push_name ?n (rd_id r), reg_value ?n ?base r)"
  let ?b = "(?n, blk_value ?n ?base (bd_width b) (bd_port b))"
  let ?e = "\<lparr>e_regtype = BlkNode, e_module = [], e_description = [], e_fwinfo = snd (fwinfo_attr (bd_width b)),
         e_mode = (if bd_port b then ''port'' else []), e_mask = 0\<rparr>"
  let ?p = "p\<lparr>p_name := ?n, p_localaddr := bd_addr b\<rparr>"
  have lay: "blk_layout (p_name p) fb b = ?b # map ?v (bd_regs b)"
    by (simp add: blk_layout_def Let_def)
  have "?n \<notin> fst ` set ps" using p(3) by (auto simp: lay)
  then obtain p1 where p1: "block_element fb ?e ?p = Inr p1" "stored regs (ps @ [?b]) p1"
      "p_name p1 = ?n" "p_baseaddr p1 = ?base" "\<not> p_toplevel p1"
    using block_element_stored [OF p(2), of ?p ?e "bd_width b" fb] wf(2) p(1) by (auto split: if_splits)
  have "reads pf fn fb regs (concat (map reg_tokens (bd_regs b))) p1 (ps @ [?b]) (map ?v (bd_regs b))"
    using parse_regs [OF wf(3) p1(5,2)] p(3) p1(3,4) by (simp add: lay)
  from reads_end [OF this p1(3) wf(1)] obtain p' where p':
      "\<And>rest. token_loop pf fn fb (concat (map reg_tokens (bd_regs b)) @ EndElement # rest) p1
         = token_loop pf fn fb rest p'"
      "stored regs (ps @ ?b # map ?v (bd_regs b)) p'" "p_name p' = p_name p" "\<not> p_toplevel p'"
    by auto
  have "token_loop pf fn fb (blk_tokens b @ rest) p = token_loop pf fn fb rest p'" for rest
    using blk_start [OF wf(1) p(1), of pf fn fb] p1(1) p'(1)
    by (simp add: blk_tokens_def xml_node_def)
  with p' show ?thesis by (auto simp: reads_def lay)
qed

definition parses_to :: "regfile_parser \<Rightarrow> string \<Rightarrow> string \<Rightarrow> u32 \<Rightarrow> (string \<times> Register) list \<Rightarrow> bool" where
  "parses_to pf fn path fb qs \<longleftrightarrow>
    (\<forall>regs. \<exists>regs'. pf fn path fb regs = Some (Inr (regs', None))
       \<and> (\<forall>n. n \<noteq> [] \<longrightarrow> regs' n = (regs ++ map_of (rev qs)) n))"

lemma parse_module:
  assumes i: "good_id i" and p: "\<not> p_toplevel p" "stored regs ps p"
    and sub: "parses_to pf (filepath_Join (fst (filepath_Split fn)) m) (push_name (p_name p) i) (a + fb) qs"
    and disj: "fst ` set qs \<inter> fst ` set ps = {}"
  shows "reads pf fn fb regs (entry_tokens (Module i a m)) p ps qs"
proof -
  let ?p = "p\<lparr>p_name := push_name (p_name p) i, p_localaddr := a\<rparr>"
  obtain regs' where regs': "pf (filepath_Join (fst (filepath_Split fn)) m) (push_name (p_name p) i)
        (a + fb) (p_Regs p) = Some (Inr (regs', None))"
      "\<And>n. n \<noteq> [] \<Longrightarrow> regs' n = (p_Regs p ++ map_of (rev qs)) n"
    using sub unfolding parses_to_def by blast
  let ?p' = "end_element (?p\<lparr>p_Regs := regs'\<rparr>)"
  have mfile: "module_file fn (''file://'' @ m) = filepath_Join (fst (filepath_Split fn)) m"
    unfolding module_file_def by (subst replace_first_prefix) simp
  have "token_loop pf fn fb (entry_tokens (Module i a m) @ rest) p = token_loop pf fn fb rest ?p'" for rest
    using i p(1) regs'(1) mfile
    by (simp add: xml_node_def start_element_def read_attr_def new_element_def good_id_def Let_def)
  moreover have "stored regs (ps @ qs) ?p'"
    using stored_module [OF p(2) disj, of ?p'] regs'(2) by (simp add: end_element_def)
  ultimately show ?thesis
    using i p(1) unfolding reads_def by (intro exI [of _ ?p']) (simp add: end_element_def)
qed

lemma parse_entries:
  assumes sub: "\<And>fn path fb. okf fn \<Longrightarrow> distinct (map fst (lay fn path fb)) \<Longrightarrow> parses_to pf fn path fb (lay fn path fb)"
  shows "list_all (wf_entry okf fn) es \<Longrightarrow> \<not> p_toplevel p \<Longrightarrow> stored regs ps p \<Longrightarrow>
    distinct (map fst (ps @ concat (map (entry_layout lay fn (p_name p) fb) es))) \<Longrightarrow>
    reads pf fn fb regs (concat (map entry_tokens es)) p ps (concat (map (entry_layout lay fn (p_name p) fb) es))"
proof (induction es arbitrary: p ps)
  case Nil
  then show ?case by (simp add: reads_Nil)
next
  case (Cons e es)
  let ?l = "entry_layout lay fn (p_name p) fb"
  have d: "distinct (map fst (ps @ ?l e))" "distinct (map fst (?l e))"
      "fst ` set (?l e) \<inter> fst ` set ps = {}"
    using Cons.prems(4) by auto
  have "reads pf fn fb regs (entry_tokens e) p ps (?l e)"
  proof (cases e)
    case (Block b)
    with Cons.prems d show ?thesis by (simp add: parse_block)
  next
    case (Module i a m)
    with Cons.prems(1) have "good_id i" "okf (filepath_Join (fst (filepath_Split fn)) m)" by simp_all
    with Module d(2) sub have
      "parses_to pf (filepath_Join (fst (filepath_Split fn)) m) (push_name (p_name p) i) (a + fb) (?l e)"
      by simp
    from parse_module [OF \<open>good_id i\<close> Cons.prems(2,3) this d(3)] show ?thesis unfolding Module .
  qed
  then obtain p' where p': "\<And>rest. token_loop pf fn fb (entry_tokens e @ rest) p = token_loop pf fn fb rest p'"
      "stored regs (ps @ ?l e) p'" "p_name p' = p_name p" "\<not> p_toplevel p'"
    by (auto simp: reads_def)
  have "reads pf fn fb regs (concat (map entry_tokens es)) p' (ps @ ?l e) (concat (map ?l es))"
    using Cons.IH [OF _ p'(4,2)] Cons.prems(1,4) by (simp add: p'(3))
  with p' show ?case by (auto simp: reads_def)
qed

lemma token_loop_other:
  "token_loop pf fn fb (filter (\<lambda>t. t \<noteq> OtherToken) toks) p = token_loop pf fn fb toks p"
  by (induction pf fn fb toks p rule: token_loop.induct)
    (auto intro!: arg_cong [where f = "lbind _"] split: option.split)

text \<open>The files hold the tables, with text and comments anywhere between the elements.\<close>

definition holds_tables :: "opener \<Rightarrow> (string \<rightharpoonup> table) \<Rightarrow> bool" where
  "holds_tables os_Open tabs \<longleftrightarrow>
    (\<forall>fn t. tabs fn = Some t \<longrightarrow>
      (\<exists>toks. os_Open fn = Inr (toks, None) \<and> filter (\<lambda>t. t \<noteq> OtherToken) toks = table_tokens t))"

definition root_attrs :: "nat option \<Rightarrow> xml_attr list" where
  "root_attrs root = (''id'', ''TOP'') # (case root of None \<Rightarrow> [] | Some w \<Rightarrow> [fwinfo_attr w])"

lemma parse_root:
  assumes "case root of None \<Rightarrow> True | Some w \<Rightarrow> w < 2 ^ 31"
  shows "\<exists>p. start_element pf fn fb (root_attrs root) (init_parser regs path) = Some (Inr (p, None))
    \<and> stored regs (root_layout path fb root) p \<and> p_name p = path \<and> \<not> p_toplevel p"
proof (cases root)
  case None
  let ?p0 = "(init_parser regs path)\<lparr>p_toplevel := False\<rparr>"
  let ?p = "reg_element new_element ?p0"
  have "start_element pf fn fb (root_attrs root) (init_parser regs path) = Some (Inr (?p, None))"
    unfolding None root_attrs_def by (simp add: start_element_def read_attr_def new_element_def init_parser_def)
  moreover have "stored regs (root_layout path fb root) ?p"
    using stored_reg [OF stored_init [of regs path], of path "p_currentreg ?p" ?p]
    by (simp add: None root_layout_def reg_element_def new_element_def init_parser_def zero_Register_def)
  ultimately show ?thesis by (simp add: reg_element_def init_parser_def)
next
  case (Some w)
  let ?p0 = "(init_parser regs path)\<lparr>p_toplevel := False\<rparr>"
  let ?e = "new_element\<lparr>e_regtype := BlkNode, e_fwinfo := snd (fwinfo_attr w)\<rparr>"
  obtain p where p: "block_element fb ?e ?p0 = Inr p"
      "stored regs [(path, blk_value path fb w False)] p" "p_name p = path" "\<not> p_toplevel p"
    using block_element_stored [OF stored_init [of regs path], of ?p0 ?e w fb] assms
    by (auto simp: Some init_parser_def new_element_def)
  have "fold read_attr (root_attrs root) (init_parser regs path, new_element) = (?p0, ?e)"
    unfolding Some root_attrs_def
    by (simp add: read_attr_def new_element_def init_parser_def fwinfo_attr_def)
  with p show ?thesis by (simp add: start_element_def Some root_layout_def new_element_def)
qed

lemma parse_tables:
  assumes "holds_tables os_Open tabs"
  shows "wf_tables tabs k fn \<Longrightarrow> distinct (map fst (layout tabs k fn path fb)) \<Longrightarrow>
    parses_to (parseregfile k os_Open) fn path fb (layout tabs k fn path fb)"
proof (induction k arbitrary: fn path fb)
  case 0
  then show ?case by simp
next
  case (Suc k)
  obtain t where t: "tabs fn = Some t" using Suc.prems(1) by (auto split: option.split_asm)
  let ?root = "root_layout path fb (tb_root t)"
  let ?rest = "concat (map (entry_layout (layout tabs k) fn path fb) (tb_entries t))"
  have lay: "layout tabs (Suc k) fn path fb = ?root @ ?rest" by (simp add: t)
  obtain toks where toks: "os_Open fn = Inr (toks, None)"
      "filter (\<lambda>t. t \<noteq> OtherToken) toks = table_tokens t"
    using assms t unfolding holds_tables_def by blast
  show ?case unfolding parses_to_def
  proof
    fix regs
    let ?pf = "parseregfile k os_Open"
    have root: "case tb_root t of None \<Rightarrow> True | Some w \<Rightarrow> w < 2 ^ 31"
      using Suc.prems(1) by (simp add: t)
    from parse_root [OF this, of ?pf fn fb regs path]
    obtain p where p: "start_element ?pf fn fb (root_attrs (tb_root t)) (init_parser regs path) = Some (Inr (p, None))"
        "stored regs ?root p" "p_name p = path" "\<not> p_toplevel p"
      by (elim exE conjE)
    have "reads ?pf fn fb regs (concat (map entry_tokens (tb_entries t))) p ?root ?rest"
      using parse_entries [where es = "tb_entries t" and fn = fn and fb = fb, OF Suc.IH _ p(4,2)] Suc.prems t
      by (simp add: p(3))
    then obtain p' where p': "\<And>rest. token_loop ?pf fn fb (concat (map entry_tokens (tb_entries t)) @ rest) p
          = token_loop ?pf fn fb rest p'" "stored regs (?root @ ?rest) p'"
      by (auto simp: reads_def)
    have loop: "token_loop ?pf fn fb toks (init_parser regs path) = Some (Inr (end_element p', None))"
      using p(1) p'(1)
      by (subst token_loop_other [symmetric])
        (simp add: toks(2) table_tokens_def xml_node_def root_attrs_def)
    have "stored regs (?root @ ?rest) (end_element p')"
      using p'(2) by (rule stored_frame) (simp_all add: end_element_def)
    from stored_finish [OF this] loop toks(1)
    show "\<exists>regs'. parseregfile (Suc k) os_Open fn path fb regs = Some (Inr (regs', None))
        \<and> (\<forall>n. n \<noteq> [] \<longrightarrow> regs' n = (regs ++ map_of (rev (layout tabs (Suc k) fn path fb))) n)"
      unfolding lay by (auto simp: parse_file_def)
  qed
qed

end
