(* ===== verification/Parser_Properties.thy ===== *)
theory Parser_Properties
  imports Address_Table
begin

text \<open>
  The properties of the register file parser: the registers of written address tables are
  those declared, the registers of any files are well-formed, and when parsing returns,
  recurses without end, panics, or loses an address.
\<close>

subsection \<open>Well-formed registers\<close>

text \<open>A register is stored under its name, and its list of masks names the masks of its map,
  each with the shift that \<open>newmask\<close> computes.\<close>

definition register_wf :: "Register \<Rightarrow> bool" where
  "register_wf r \<longleftrightarrow>
    (\<forall>m. gomap_get (r_msks r) m \<noteq> None \<longleftrightarrow> m \<in> set (r_Masks r))
  \<and> (\<forall>m k. gomap_get (r_msks r) m = Some k \<longrightarrow> k = newmask m (msk_value k))"

definition regs_wf :: "regmap \<Rightarrow> bool" where
  "regs_wf regs \<longleftrightarrow> (\<forall>n r. regs n = Some r \<longrightarrow> r_Name r = n \<and> register_wf r)"

definition parser_wf :: "parser \<Rightarrow> bool" where
  "parser_wf p \<longleftrightarrow> regs_wf (p_Regs p) \<and> register_wf (p_currentreg p)"

lemma regs_wf_put: "regs_wf regs \<Longrightarrow> register_wf r \<Longrightarrow> regs_wf (regs(r_Name r \<mapsto> r))"
  by (simp add: regs_wf_def)

lemma register_wf_new:
  "r_Masks r = [] \<Longrightarrow> gomap_get (r_msks r) = Map.empty \<Longrightarrow> register_wf r"
  by (simp add: register_wf_def)

lemma gomap_get_empty [simp]: "gomap_get (Some Map.empty) = Map.empty" "gomap_get None = Map.empty"
  by (simp_all add: gomap_get_def fun_eq_iff)

lemma block_register_wf:
  assumes "block_register b = Inr r"
  shows "r_Name r = b_id b \<and> register_wf r"
  using assms by (auto simp: block_register_def register_wf_new)

lemma regs_wf_block:
  "regs_wf regs \<Longrightarrow> block_register b = Inr r \<Longrightarrow> regs_wf (regs(b_id b \<mapsto> r))"
  using block_register_wf [of b r] regs_wf_put [of regs r] by auto

lemma read_attr_wf: "parser_wf (fst (read_attr a (p, e))) = parser_wf p"
  by (cases a) (simp add: read_attr_def parser_wf_def)

lemma fold_read_attr_wf: "parser_wf (fst (fold read_attr as (p, e))) = parser_wf p"
proof (induction as arbitrary: p e)
  case (Cons a as)
  obtain p' e' where "read_attr a (p, e) = (p', e')" by force
  with Cons read_attr_wf [of a p e] show ?case by simp
qed simp

lemma block_element_wf: "parser_wf p \<Longrightarrow> block_element fb e p = Inr p' \<Longrightarrow> parser_wf p'"
  by (auto simp: block_element_def parser_wf_def Let_def intro: regs_wf_block split: if_splits)

lemma reg_element_wf: "parser_wf p \<Longrightarrow> parser_wf (reg_element e p)"
  by (simp add: reg_element_def parser_wf_def regs_wf_put register_wf_new)

lemma mask_element_wf:
  assumes "parser_wf p" "mask_element e p = Inr p'"
  shows "parser_wf p'"
proof -
  let ?n = "last (strings_Split (p_name p) CHR ''.'')"
  obtain ms where ms: "gomap_put (r_msks (p_currentreg p)) ?n (newmask ?n (e_mask e)) = Inr ms"
      "p' = p\<lparr>p_currentreg := (p_currentreg p)\<lparr>r_Masks := r_Masks (p_currentreg p) @ [?n], r_msks := ms\<rparr>\<rparr>"
    using assms(2) by (auto simp: mask_element_def Let_def)
  note get = gomap_get_put [OF ms(1)]
  have val: "msk_value (newmask a b) = b" for a b by (simp add: newmask_def)
  show ?thesis using assms(1) by (auto simp: parser_wf_def register_wf_def ms(2) get val)
qed

text \<open>What the loop over the tokens relies on: the parser it calls for a module keeps the
  registers well-formed.\<close>

locale wf_module_parser =
  fixes pf :: regfile_parser
  assumes keeps: "regs_wf regs \<Longrightarrow> pf fn path fb regs = Some (Inr (regs', err)) \<Longrightarrow> regs_wf regs'"
begin

lemma start_element_wf:
  assumes "parser_wf p" "start_element pf fn fb as p = Some (Inr (p', err))"
  shows "parser_wf p'"
proof -
  obtain q e where q: "fold read_attr as (p, new_element) = (q, e)" by force
  then have wf: "parser_wf q" using assms(1) fold_read_attr_wf [of as p new_element] by simp
  show ?thesis
  proof (cases "e_regtype e")
    case ModNode
    with assms(2) q obtain regs where
      "pf (module_file fn (e_module e)) (p_name q) (p_localaddr q + fb) (p_Regs q) = Some (Inr (regs, err))"
      "p' = q\<lparr>p_Regs := regs\<rparr>"
      by (auto simp: start_element_def)
    moreover from this have "regs_wf regs"
      using keeps wf unfolding parser_wf_def by blast
    ultimately show ?thesis using wf by (simp add: parser_wf_def)
  qed (use assms(2) q wf in \<open>auto simp: start_element_def reg_element_wf
        intro: block_element_wf mask_element_wf\<close>)
qed

lemma token_loop_wf:
  "parser_wf p \<Longrightarrow> token_loop pf fn fb toks p = Some (Inr (p', err)) \<Longrightarrow> parser_wf p'"
proof (induction toks arbitrary: p)
  case Nil
  then show ?case by simp
next
  case (Cons t toks)
  show ?case
  proof (cases t)
    case (StartElement n as)
    with Cons.prems(2) obtain q e where q: "start_element pf fn fb as p = Some (Inr (q, e))"
        "(case e of Some e \<Rightarrow> Some (Inr (q, Some e)) | None \<Rightarrow> token_loop pf fn fb toks q) = Some (Inr (p', err))"
      by auto
    have "parser_wf q" using start_element_wf [OF Cons.prems(1) q(1)] .
    with q(2) Cons.IH show ?thesis by (auto split: option.split_asm)
  next
    case EndElement
    have "parser_wf (end_element p)" using Cons.prems(1) by (simp add: parser_wf_def end_element_def)
    with EndElement Cons show ?thesis by simp
  qed (use Cons in simp)
qed

lemma parse_file_wf:
  assumes "regs_wf regs" "parse_file pf os_Open fn path fb regs = Some (Inr (regs', err))"
  shows "regs_wf regs'"
proof (cases "os_Open fn")
  case (Inl e)
  with assms(1,2) show ?thesis by (simp add: parse_file_def)
next
  case (Inr f)
  obtain toks e where f: "f = (toks, e)" by (cases f)
  obtain p e' where p: "token_loop pf fn fb toks (init_parser regs path) = Some (Inr (p, e'))"
      and fin: "(if e' \<noteq> None then Some (Inr (p_Regs p, e'))
         else if e \<noteq> None then Some (Inr (p_Regs p, e)) else Some (finish_file p)) = Some (Inr (regs', err))"
    using assms(2) Inr f by (auto simp: parse_file_def)
  have "parser_wf (init_parser regs path)"
    using assms(1) by (simp add: parser_wf_def init_parser_def zero_Register_def register_wf_new)
  then have "parser_wf p" using token_loop_wf [OF _ p] by blast
  with fin show ?thesis
    by (auto simp: finish_file_def parser_wf_def Let_def intro!: regs_wf_block regs_wf_put split: if_splits)
qed

end

lemma parseregfile_wf: "wf_module_parser (parseregfile k os_Open)"
proof (induction k)
  case 0
  show ?case by unfold_locales simp
next
  case (Suc k)
  show ?case by unfold_locales (auto dest: wf_module_parser.parse_file_wf [OF Suc])
qed

interpretation regfiles: wf_module_parser "parseregfile k os_Open" for k os_Open
  by (rule parseregfile_wf)

subsection \<open>Nesting of files\<close>

text \<open>More fuel gives the same result.\<close>

definition modules :: "string \<Rightarrow> xtoken list \<Rightarrow> string set" where
  "modules fn toks =
    {module_file fn v |n attrs v. StartElement n attrs \<in> set toks \<and> (''module'', v) \<in> set attrs}"

lemma read_attr_module:
  "e_module (snd (read_attr a (p, e))) = (if fst a = ''module'' then snd a else e_module e)
   \<and> (e_regtype (snd (read_attr a (p, e))) = ModNode \<longrightarrow> fst a = ''module'' \<or> e_regtype e = ModNode)"
  by (cases a) (simp add: read_attr_def)

lemma fold_read_attr_module:
  "e_regtype (snd (fold read_attr as (p, e))) = ModNode \<Longrightarrow>
     (''module'', e_module (snd (fold read_attr as (p, e)))) \<in> set as
     \<or> e_regtype e = ModNode \<and> e_module (snd (fold read_attr as (p, e))) = e_module e"
proof (induction as arbitrary: p e)
  case (Cons a as)
  obtain p' e' where "read_attr a (p, e) = (p', e')" by force
  with Cons.IH [of p' e'] Cons.prems read_attr_module [of a p e] show ?case
    by (cases a) (auto split: if_splits)
qed simp

lemma token_loop_returns:
  assumes "\<forall>f \<in> modules fn toks. \<forall>path fb regs. pf f path fb regs \<noteq> None"
  shows "token_loop pf fn fb toks p \<noteq> None"
  using assms
proof (induction toks arbitrary: p)
  case (Cons t toks)
  have "modules fn toks \<subseteq> modules fn (t # toks)" by (auto simp: modules_def)
  then have IH: "token_loop pf fn fb toks q \<noteq> None" for q using Cons by blast
  show ?case
  proof (cases t)
    case (StartElement n as)
    obtain q e where q: "fold read_attr as (p, new_element) = (q, e)" by force
    have "start_element pf fn fb as p \<noteq> None"
    proof (cases "e_regtype e")
      case ModNode
      then have "(''module'', e_module e) \<in> set as"
        using q fold_read_attr_module [of as p new_element] by (simp add: new_element_def)
      then have "module_file fn (e_module e) \<in> modules fn (t # toks)"
        unfolding StartElement modules_def by auto
      then have "pf (module_file fn (e_module e)) (p_name q) (p_localaddr q + fb) (p_Regs q) \<noteq> None"
        using Cons.prems by blast
      with q ModNode show ?thesis by (simp add: start_element_def lbind_eq_None)
    qed (simp_all add: start_element_def q lbind_eq_None)
    with IH StartElement show ?thesis by (auto simp: lbind_eq_None split: option.split)
  qed (use IH in simp_all)
qed simp

definition extends :: "regfile_parser \<Rightarrow> regfile_parser \<Rightarrow> bool" where
  "extends pf pf' \<longleftrightarrow>
    (\<forall>fn path fb regs r. pf fn path fb regs = Some r \<longrightarrow> pf' fn path fb regs = Some r)"

lemma lbind_mono:
  assumes "\<And>r. m = Some r \<Longrightarrow> m' = Some r" "\<And>x r. f x = Some r \<Longrightarrow> g x = Some r" "lbind m f = Some r"
  shows "lbind m' g = Some r"
proof (cases m)
  case (Some y)
  with assms show ?thesis by (cases y) auto
qed (use assms(3) in simp)

lemma start_element_mono:
  assumes "extends pf pf'" "start_element pf fn fb as p = Some r"
  shows "start_element pf' fn fb as p = Some r"
proof -
  obtain q e where q: "fold read_attr as (p, new_element) = (q, e)" by force
  show ?thesis
  proof (cases "e_regtype e")
    case ModNode
    with assms(2) q have
      "lbind (pf (module_file fn (e_module e)) (p_name q) (p_localaddr q + fb) (p_Regs q))
         (\<lambda>(regs, err). Some (Inr (q\<lparr>p_Regs := regs\<rparr>, err))) = Some r"
      by (simp add: start_element_def)
    moreover have "\<And>r. pf (module_file fn (e_module e)) (p_name q) (p_localaddr q + fb) (p_Regs q) = Some r \<Longrightarrow>
        pf' (module_file fn (e_module e)) (p_name q) (p_localaddr q + fb) (p_Regs q) = Some r"
      using assms(1) by (simp add: extends_def)
    ultimately have
      "lbind (pf' (module_file fn (e_module e)) (p_name q) (p_localaddr q + fb) (p_Regs q))
         (\<lambda>(regs, err). Some (Inr (q\<lparr>p_Regs := regs\<rparr>, err))) = Some r"
      by (rule lbind_mono [rotated 2]) assumption
    with q ModNode show ?thesis by (simp add: start_element_def)
  qed (use assms(2) q in \<open>simp_all add: start_element_def\<close>)
qed

lemma token_loop_mono:
  assumes "extends pf pf'"
  shows "token_loop pf fn fb toks p = Some r \<Longrightarrow> token_loop pf' fn fb toks p = Some r"
proof (induction toks arbitrary: p r)
  case (Cons t toks)
  show ?case
  proof (cases t)
    case (StartElement n as)
    have "lbind (start_element pf' fn fb as p)
        (\<lambda>(p, err). case err of Some e \<Rightarrow> Some (Inr (p, Some e)) | None \<Rightarrow> token_loop pf' fn fb toks p) = Some r"
      by (rule lbind_mono [OF start_element_mono [OF assms]])
        (use Cons StartElement in \<open>auto split: option.splits\<close>)
    with StartElement show ?thesis by simp
  qed (use Cons in simp_all)
qed simp

lemma parse_file_mono:
  assumes "extends pf pf'"
  shows "extends (parse_file pf os_Open) (parse_file pf' os_Open)"
  unfolding extends_def
proof (intro allI impI)
  fix fn path fb regs r
  assume a: "parse_file pf os_Open fn path fb regs = Some r"
  show "parse_file pf' os_Open fn path fb regs = Some r"
  proof (cases "os_Open fn")
    case (Inr f)
    obtain toks e where f: "f = (toks, e)" by (cases f)
    show ?thesis
      using a Inr f lbind_mono [OF token_loop_mono [OF assms]] by (fastforce simp: parse_file_def)
  qed (use a in \<open>simp add: parse_file_def\<close>)
qed

lemma parseregfile_Suc: "parseregfile (Suc k) os_Open = parse_file (parseregfile k os_Open) os_Open"
  by (intro ext) simp

lemma parseregfile_mono: "extends (parseregfile k os_Open) (parseregfile (k + j) os_Open)"
proof (induction k arbitrary: j)
  case 0
  then show ?case by (simp add: extends_def)
next
  case (Suc k)
  show ?case using parse_file_mono [OF Suc] by (simp only: add_Suc parseregfile_Suc)
qed

lemma parseregfile_ranked:
  assumes "\<And>fn toks e f. os_Open fn = Inr (toks, e) \<Longrightarrow> f \<in> modules fn toks \<Longrightarrow> rank f < rank fn"
  shows "rank fn < k \<Longrightarrow> parseregfile k os_Open fn path fb regs \<noteq> None"
proof (induction k arbitrary: fn path fb regs)
  case (Suc k)
  show ?case
  proof (cases "os_Open fn")
    case (Inr f)
    obtain toks e where f: "f = (toks, e)" by (cases f)
    have "\<forall>f \<in> modules fn toks. \<forall>path fb regs. parseregfile k os_Open f path fb regs \<noteq> None"
    proof (intro ballI allI)
      fix g path fb regs assume "g \<in> modules fn toks"
      then have "rank g < rank fn" using assms Inr f by blast
      then have "rank g < k" using Suc.prems by simp
      then show "parseregfile k os_Open g path fb regs \<noteq> None" by (rule Suc.IH)
    qed
    from token_loop_returns [OF this] show ?thesis
      using Inr f by (auto simp: parse_file_def lbind_eq_None)
  qed (simp add: parse_file_def)
qed simp

lemma map_of_rev_distinct: "distinct (map fst xs) \<Longrightarrow> map_of (rev xs) = map_of xs"
  by (intro map_of_inject_set [THEN iffD2]) (auto simp: rev_map [symmetric])

subsection \<open>Properties\<close>

text \<open>C9: When the files hold well-formed address tables nested at most \<open>k\<close> deep, with text and
  comments anywhere between their elements, and no two declared registers have the same
  dotted name, parsing the first file succeeds; then the target's map has each declared
  register, block and module under its name, with its global address, size, mode and masks,
  and is otherwise unchanged (the entry of the empty name apart).\<close>

theorem tables_parse_to_layout:
  assumes "holds_tables os_Open tabs" "wf_tables tabs k fn" "distinct (map fst (layout tabs k fn path fb))"
  shows "\<exists>regs'. parseregfile k os_Open fn path fb regs = Some (Inr (regs', None))
    \<and> (\<forall>n. n \<noteq> [] \<longrightarrow> regs' n = (case map_of (layout tabs k fn path fb) n of Some r \<Rightarrow> Some r | None \<Rightarrow> regs n))"
proof -
  obtain regs' where "parseregfile k os_Open fn path fb regs = Some (Inr (regs', None))"
      "\<forall>n. n \<noteq> [] \<longrightarrow> regs' n = (regs ++ map_of (rev (layout tabs k fn path fb))) n"
    using parse_tables [OF assms] unfolding parses_to_def by blast
  then show ?thesis by (auto simp: map_add_def map_of_rev_distinct [OF assms(3)])
qed

definition demo_io :: table where
  "demo_io = \<lparr>tb_root = Some 0, tb_entries =
    [Block \<lparr>bd_id = ''csr'', bd_addr = 4, bd_width = 1, bd_port = False,
       bd_regs = [\<lparr>rd_id = ''stat'', rd_addr = 1, rd_port = False, rd_masks = [(''busy'', 0xff00)]\<rparr>]\<rparr>]\<rparr>"

definition demo_top :: table where
  "demo_top = \<lparr>tb_root = None, tb_entries =
    [Block \<lparr>bd_id = ''fifo'', bd_addr = 8, bd_width = 0, bd_port = True, bd_regs = []\<rparr>,
     Module ''io'' 0x20 ''io.xml'']\<rparr>"

definition demo_tables :: "string \<rightharpoonup> table" where
  "demo_tables = [''d/top.xml'' \<mapsto> demo_top, ''d/io.xml'' \<mapsto> demo_io]"

definition demo_open :: opener where
  "demo_open fn = (case demo_tables fn of None \<Rightarrow> Inl (FileError 2) | Some t \<Rightarrow> Inr (table_tokens t, None))"

lemma no_other_tokens:
  "OtherToken \<notin> set (table_tokens t)"
proof -
  have r: "OtherToken \<notin> set (reg_tokens r)" for r
    by (auto simp: reg_tokens_def xml_node_def mask_tokens_def)
  have "OtherToken \<notin> set (entry_tokens e)" for e
    by (cases e) (auto simp: blk_tokens_def xml_node_def r)
  then show ?thesis by (auto simp: table_tokens_def xml_node_def)
qed

lemma demo_holds: "holds_tables demo_open demo_tables"
proof -
  have "filter (\<lambda>x. x \<noteq> OtherToken) (table_tokens t) = table_tokens t" for t
    using no_other_tokens [of t] by (simp add: filter_id_conv) metis
  then show ?thesis by (simp add: holds_tables_def demo_open_def)
qed

lemma demo_path: "filepath_Join (fst (filepath_Split ''d/top.xml'')) ''io.xml'' = ''d/io.xml''"
  by code_simp

lemma demo_layout:
  "map (\<lambda>(n, r). (n, r_Addr r, r_Masks r)) (layout demo_tables 2 ''d/top.xml'' [] 0) =
    [([], 0, []), (''fifo'', 8, []), (''io'', 0x20, []), (''io.csr'', 0x24, []),
     (''io.csr.stat'', 0x25, [''busy''])]"
  by (simp add: numeral_2_eq_2 demo_tables_def demo_top_def demo_io_def demo_path root_layout_def
      blk_layout_def blk_value_def reg_value_def push_name_def Let_def)

lemma demo_wf: "wf_tables demo_tables 2 ''d/top.xml''"
proof -
  have "wf_tables demo_tables (Suc (Suc 0)) ''d/top.xml''"
    by (simp add: demo_tables_def demo_top_def demo_io_def demo_path good_id_def wf_reg_def)
  then show ?thesis by (simp only: numeral_2_eq_2)
qed

lemma demo_distinct: "distinct (map fst (layout demo_tables 2 ''d/top.xml'' [] 0))"
proof -
  have "map fst (layout demo_tables 2 ''d/top.xml'' [] 0) = [[], ''fifo'', ''io'', ''io.csr'', ''io.csr.stat'']"
    using arg_cong [OF demo_layout, of "map fst"] by (simp add: case_prod_beta comp_def)
  then show ?thesis by simp
qed

lemma demo_lookup:
  "map_option (\<lambda>r. (r_Addr r, r_Masks r)) (map_of (layout demo_tables 2 ''d/top.xml'' [] 0) n) =
    map_of [([], 0, []), (''fifo'', 8, []), (''io'', 0x20, []), (''io.csr'', 0x24, []),
     (''io.csr.stat'', 0x25, [''busy''])] n"
  unfolding demo_layout [symmetric] map_of_map by simp

theorem tables_parse_to_layout_witness:
  "\<exists>regs'. parseregfile 2 demo_open ''d/top.xml'' [] 0 Map.empty = Some (Inr (regs', None))
    \<and> map_option r_Addr (regs' ''io.csr.stat'') = Some 0x25 \<and> regs' ''io.stat'' = None"
proof -
  let ?l = "layout demo_tables 2 ''d/top.xml'' [] 0"
  obtain regs' where run: "parseregfile 2 demo_open ''d/top.xml'' [] 0 Map.empty = Some (Inr (regs', None))"
      and found: "\<And>n. n \<noteq> [] \<Longrightarrow>
        regs' n = (case map_of ?l n of Some r \<Rightarrow> Some r | None \<Rightarrow> Map.empty n)"
    using tables_parse_to_layout [OF demo_holds demo_wf demo_distinct, of Map.empty] by blast
  have "regs' ''io.csr.stat'' = map_of ?l ''io.csr.stat''" "regs' ''io.stat'' = map_of ?l ''io.stat''"
    using found [of "''io.csr.stat''"] found [of "''io.stat''"] by (simp_all split: option.splits)
  with demo_lookup [of "''io.csr.stat''"] demo_lookup [of "''io.stat''"] run show ?thesis by auto
qed

lemma demo_parsed:
  "\<exists>regs' r. parseregfile 2 demo_open ''d/top.xml'' [] 0 Map.empty = Some (Inr (regs', None))
    \<and> regs' ''io.csr.stat'' = Some r \<and> r_Addr r = 0x25 \<and> r_Masks r = [''busy'']"
proof -
  obtain regs' where run: "parseregfile 2 demo_open ''d/top.xml'' [] 0 Map.empty = Some (Inr (regs', None))"
      and found: "\<And>n. n \<noteq> [] \<Longrightarrow>
        regs' n = (Map.empty ++ map_of (rev (layout demo_tables 2 ''d/top.xml'' [] 0))) n"
    using parse_tables [OF demo_holds demo_wf demo_distinct] unfolding parses_to_def by blast
  have "regs' ''io.csr.stat'' = map_of (layout demo_tables 2 ''d/top.xml'' [] 0) ''io.csr.stat''"
    using found map_of_rev_distinct [OF demo_distinct] by simp
  with demo_lookup [of "''io.csr.stat''"] run show ?thesis by auto
qed

text \<open>C15: Whatever the files hold, if the registers in the map are well-formed before parsing,
  they are so after it, also when parsing ends with an error: each is stored under its own
  name, and its list of masks names exactly the masks that \<open>ReadMask\<close> and \<open>WriteMask\<close> find,
  with their shifts.\<close>

theorem parsed_registers_wf:
  assumes "regs_wf regs" "parseregfile k os_Open fn path fb regs = Some (Inr (regs', err))"
    and "regs' n = Some r"
  shows "r_Name r = n \<and> (\<forall>m v. snd (ReadMask r m v) = None \<longleftrightarrow> m \<in> set (r_Masks r))
    \<and> (\<forall>m k. gomap_get (r_msks r) m = Some k \<longrightarrow> k = newmask m (msk_value k))"
proof -
  have "regs_wf regs'" using regfiles.keeps assms(1,2) by blast
  with assms(3) have "r_Name r = n" "register_wf r" by (auto simp: regs_wf_def)
  moreover have "snd (ReadMask r m v) = None \<longleftrightarrow> gomap_get (r_msks r) m \<noteq> None" for m v
    by (simp add: ReadMask_def split: option.split)
  ultimately show ?thesis by (simp add: register_wf_def)
qed

theorem parsed_registers_wf_witness:
  "\<exists>r. snd (ReadMask r ''busy'' 0) = None \<and> r_Addr r = 0x25"
proof -
  obtain regs' r where r: "parseregfile 2 demo_open ''d/top.xml'' [] 0 Map.empty = Some (Inr (regs', None))"
      "regs' ''io.csr.stat'' = Some r" "r_Addr r = 0x25" "r_Masks r = [''busy'']"
    using demo_parsed by blast
  have "regs_wf Map.empty" by (simp add: regs_wf_def)
  from parsed_registers_wf [OF this r(1,2)] r(3,4) show ?thesis by auto
qed

text \<open>C22: If no file includes itself, directly or through others (the files can be ranked so
  that each module has a lower rank than the file that names it), parsing returns: some
  result is that of every sufficient fuel.\<close>

theorem parse_returns_without_cycles:
  assumes "\<And>fn toks e f. os_Open fn = Inr (toks, e) \<Longrightarrow> f \<in> modules fn toks \<Longrightarrow> rank f < rank fn"
  shows "\<exists>r. \<forall>k. rank fn < k \<longrightarrow> parseregfile k os_Open fn path fb regs = Some r"
proof -
  obtain r where r: "parseregfile (Suc (rank fn)) os_Open fn path fb regs = Some r"
    using parseregfile_ranked [where rank = rank and k = "Suc (rank fn)" and fn = fn, OF assms]
    by fastforce
  have "parseregfile k os_Open fn path fb regs = Some r" if "rank fn < k" for k
  proof -
    obtain j where "k = Suc (rank fn) + j" using \<open>rank fn < k\<close> less_imp_Suc_add by fastforce
    with r parseregfile_mono [of "Suc (rank fn)" os_Open j] show ?thesis unfolding extends_def by blast
  qed
  then show ?thesis by blast
qed

definition demo_chain :: opener where
  "demo_chain fn =
    (if fn = ''a.xml''
     then Inr ([StartElement ''node'' [(''id'', ''m''), (''module'', ''file://b.xml'')], EndElement], None)
     else Inl (FileError 2))"

theorem parse_returns_without_cycles_witness:
  "\<exists>r. \<forall>k. 1 < k \<longrightarrow> parseregfile k demo_chain ''a.xml'' [] 0 Map.empty = Some r"
proof -
  let ?rank = "\<lambda>fn. if fn = ''a.xml'' then 1 else 0 :: nat"
  have f: "module_file ''a.xml'' ''file://b.xml'' = ''b.xml''" by code_simp
  have "?rank f < ?rank fn" if "demo_chain fn = Inr (toks, e)" "f \<in> modules fn toks" for fn toks e f
    using that by (auto simp: demo_chain_def modules_def f split: if_splits)
  from parse_returns_without_cycles [where rank = ?rank and fn = "''a.xml''", OF this]
  show ?thesis by simp
qed

text \<open>The elements before a given one, and what its attributes make it.\<close>

lemma token_loop_append:
  "token_loop pf fn fb (xs @ ys) p =
    lbind (token_loop pf fn fb xs p)
      (\<lambda>(p, err). case err of Some e \<Rightarrow> Some (Inr (p, Some e)) | None \<Rightarrow> token_loop pf fn fb ys p)"
proof (induction pf fn fb xs p rule: token_loop.induct)
  case (2 pf fn fb n attrs toks p)
  show ?case
  proof (cases "start_element pf fn fb attrs p")
    case (Some r)
    with 2 show ?thesis by (cases r) (auto split: option.splits prod.splits)
  qed simp
qed simp_all

text \<open>Attributes that do not change the type of an element that has one.\<close>

definition keeps_type :: "xml_attr \<Rightarrow> bool" where
  "keeps_type a \<longleftrightarrow> fst a \<notin> {''mask'', ''module'', ''fwinfo''} \<and> a \<noteq> (''id'', ''TOP'')"

lemma read_attr_keeps_type:
  "keeps_type a \<Longrightarrow> e_regtype (snd (read_attr a pe)) = e_regtype (snd pe)
     \<and> e_module (snd (read_attr a pe)) = e_module (snd pe)"
  by (cases a; cases pe) (auto simp: read_attr_def keeps_type_def Let_def)

lemma fold_keeps_type:
  "list_all keeps_type as \<Longrightarrow> e_regtype (snd (fold read_attr as pe)) = e_regtype (snd pe)
     \<and> e_module (snd (fold read_attr as pe)) = e_module (snd pe)"
  by (induction as arbitrary: pe) (auto simp: read_attr_keeps_type)

lemma fold_module:
  "list_all keeps_type bs \<Longrightarrow>
    e_regtype (snd (fold read_attr (as @ (''module'', m) # bs) pe)) = ModNode
  \<and> e_module (snd (fold read_attr (as @ (''module'', m) # bs) pe)) = m"
  by (cases "fold read_attr as pe") (simp add: fold_keeps_type read_attr_def Let_def)

lemma fold_mask:
  "list_all keeps_type bs \<Longrightarrow> e_regtype (snd (fold read_attr (as @ (''mask'', v) # bs) pe)) = MaskNode"
  by (cases "fold read_attr as pe") (simp add: fold_keeps_type read_attr_def Let_def)

text \<open>C36: Files that include each other in a circle, a file that includes itself for one: when
  every file of a set includes some file of the set by a module element, and the parser meets
  no failure in the tokens before that element, parsing a file of the set never returns,
  however deep the nesting may be and whatever name, address and registers it starts from.\<close>

theorem including_circle_never_returns:
  assumes circle: "\<And>fn. fn \<in> F \<Longrightarrow> \<exists>pre n as m bs post e.
      os_Open fn = Inr (pre @ StartElement n (as @ (''module'', m) # bs) # post, e)
    \<and> list_all keeps_type bs \<and> module_file fn m \<in> F
    \<and> (\<forall>k fb path regs r. token_loop (parseregfile k os_Open) fn fb pre (init_parser regs path) = Some r
         \<longrightarrow> (\<exists>p. r = Inr (p, None)))"
  shows "fn \<in> F \<Longrightarrow> parseregfile k os_Open fn path fb regs = None"
proof (induction k arbitrary: fn path fb regs)
  case (Suc k)
  obtain pre n as m bs post e where f: "os_Open fn = Inr (pre @ StartElement n (as @ (''module'', m) # bs) # post, e)"
    and bs: "list_all keeps_type bs" and m: "module_file fn m \<in> F"
    and pre: "\<And>r. token_loop (parseregfile k os_Open) fn fb pre (init_parser regs path) = Some r \<Longrightarrow>
      \<exists>p. r = Inr (p, None)"
    using circle [OF Suc.prems] by blast
  have "start_element (parseregfile k os_Open) fn fb (as @ (''module'', m) # bs) p = None" for p
  proof (cases "fold read_attr (as @ (''module'', m) # bs) (p, new_element)")
    case (Pair p' el)
    then have "e_regtype el = ModNode" "e_module el = m"
      using fold_module [OF bs, of as m "(p, new_element)"] by simp_all
    then show ?thesis using Pair Suc.IH [OF m] unfolding start_element_def by simp
  qed
  then have "token_loop (parseregfile k os_Open) fn fb (StartElement n (as @ (''module'', m) # bs) # post) p = None" for p
    by simp
  then have "token_loop (parseregfile k os_Open) fn fb
      (pre @ StartElement n (as @ (''module'', m) # bs) # post) (init_parser regs path) = None"
    unfolding token_loop_append using pre
    by (cases "token_loop (parseregfile k os_Open) fn fb pre (init_parser regs path)") auto
  then show ?case by (simp add: parse_file_def f)
qed simp

definition demo_circle :: opener where
  "demo_circle fn =
    (let other = (if fn = ''a.xml'' then ''file://b.xml'' else ''file://a.xml'') in
     Inr ([StartElement ''node'' [(''id'', ''TOP'')], OtherToken,
           StartElement ''node'' [(''id'', ''sub''), (''module'', other), (''address'', ''0x100'')], EndElement,
           EndElement], None))"

theorem including_circle_never_returns_witness:
  "parseregfile 100 demo_circle ''a.xml'' [] 0 Map.empty = None"
proof (rule including_circle_never_returns [of "{''a.xml'', ''b.xml''}"])
  fix fn assume fn: "fn \<in> {''a.xml'', ''b.xml''}"
  let ?other = "if fn = ''a.xml'' then ''file://b.xml'' else ''file://a.xml''"
  have "module_file ''a.xml'' ''file://b.xml'' = ''b.xml''" "module_file ''b.xml'' ''file://a.xml'' = ''a.xml''"
    by code_simp+
  with fn have m: "module_file fn ?other \<in> {''a.xml'', ''b.xml''}" by auto
  have "list_all keeps_type [(''address'', ''0x100'')]" by (simp add: keeps_type_def)
  moreover have "\<exists>p. r = Inr (p, None)"
    if "token_loop pf fn fb [StartElement ''node'' [(''id'', ''TOP'')], OtherToken] (init_parser regs path) = Some r"
    for pf :: regfile_parser and fb path regs r
    using that by (auto simp: start_element_def read_attr_def new_element_def init_parser_def)
  moreover have "demo_circle fn = Inr ([StartElement ''node'' [(''id'', ''TOP'')], OtherToken]
      @ StartElement ''node'' ([(''id'', ''sub'')] @ (''module'', ?other) # [(''address'', ''0x100'')])
      # [EndElement, EndElement], None)"
    by (simp add: demo_circle_def Let_def)
  ultimately show "\<exists>pre n as m bs post e.
      demo_circle fn = Inr (pre @ StartElement n (as @ (''module'', m) # bs) # post, e)
    \<and> list_all keeps_type bs \<and> module_file fn m \<in> {''a.xml'', ''b.xml''}
    \<and> (\<forall>k fb path regs r. token_loop (parseregfile k demo_circle) fn fb pre (init_parser regs path) = Some r
         \<longrightarrow> (\<exists>p. r = Inr (p, None)))"
    using m by blast
qed simp

text \<open>A block whose \<open>fwinfo\<close> has a part that names the width without a value makes the
  parser panic when the block is stored.\<close>

lemma width_loop_panics:
  "v \<in> set vals \<Longrightarrow> strings_Contains v ''width'' \<Longrightarrow> CHR ''='' \<notin> set v \<Longrightarrow> width_loop vals sz = Inl IndexOutOfRange"
  by (induction vals arbitrary: sz) (auto simp: strings_Split_none Let_def split: prod.split)

theorem width_without_value_panics:
  assumes "v \<in> set (strings_Split (b_fwinfo b) CHR '';'')" "strings_Contains v ''width''" "CHR ''='' \<notin> set v"
  shows "block_register b = Inl IndexOutOfRange"
  using width_loop_panics [OF assms] by (simp add: block_register_def)

theorem width_without_value_panics_witness:
  "block_register (zero_block\<lparr>b_fwinfo := ''endpoint;width''\<rparr>) = Inl IndexOutOfRange"
proof -
  have "''width'' \<in> set (strings_Split (b_fwinfo (zero_block\<lparr>b_fwinfo := ''endpoint;width''\<rparr>)) CHR '';'')"
      "strings_Contains ''width'' ''width''" by code_simp+
  from width_without_value_panics [OF this] show ?thesis by simp
qed

text \<open>An element with one of the attributes of masks, modules and blocks is not taken for a
  register; until one is, the current register is the zero value of its type, whose map of
  masks is nil.\<close>

definition no_register :: "xml_attr list \<Rightarrow> bool" where
  "no_register attrs \<longleftrightarrow> (\<exists>a \<in> set attrs. fst a \<in> {''mask'', ''module'', ''fwinfo''})"

lemma read_attr_typed: "e_regtype (snd pe) \<noteq> NoType \<Longrightarrow> e_regtype (snd (read_attr a pe)) \<noteq> NoType"
  "fst a \<in> {''mask'', ''module'', ''fwinfo''} \<Longrightarrow> e_regtype (snd (read_attr a pe)) \<noteq> NoType"
  by (cases a; cases pe; auto simp: read_attr_def Let_def)+

lemma read_attr_no_RegNode:
  "e_regtype (snd pe) \<noteq> RegNode \<Longrightarrow> e_regtype (snd (read_attr a pe)) \<noteq> RegNode"
  "p_currentreg (fst (read_attr a pe)) = p_currentreg (fst pe)"
  by (cases a; cases pe; auto simp: read_attr_def Let_def)+

lemma fold_read_attr_currentreg: "p_currentreg (fst (fold read_attr as pe)) = p_currentreg (fst pe)"
  by (induction as arbitrary: pe) (simp_all add: read_attr_no_RegNode)

lemma fold_no_RegNode: "e_regtype (snd pe) \<noteq> RegNode \<Longrightarrow> e_regtype (snd (fold read_attr as pe)) \<noteq> RegNode"
  by (induction as arbitrary: pe) (simp_all add: read_attr_no_RegNode)

lemma fold_typed: "e_regtype (snd pe) \<noteq> NoType \<Longrightarrow> e_regtype (snd (fold read_attr as pe)) \<noteq> NoType"
  by (induction as arbitrary: pe) (simp_all add: read_attr_typed)

lemma fold_no_register:
  "no_register as \<Longrightarrow> e_regtype (snd (fold read_attr as pe)) \<noteq> NoType"
proof (induction as arbitrary: pe)
  case Nil
  then show ?case by (simp add: no_register_def)
next
  case (Cons a as)
  show ?case
  proof (cases "fst a \<in> {''mask'', ''module'', ''fwinfo''}")
    case True
    then show ?thesis by (simp add: fold_typed read_attr_typed(2))
  next
    case False
    with Cons.prems have "no_register as" by (auto simp: no_register_def)
    with Cons.IH show ?thesis by simp
  qed
qed

lemma start_element_no_register:
  assumes "no_register attrs" "r_msks (p_currentreg p) = None"
    and "start_element pf fn fb attrs p = Some (Inr (p', None))"
  shows "r_msks (p_currentreg p') = None"
proof (cases "fold read_attr attrs (p, new_element)")
  case (Pair q e)
  have "e_regtype e \<noteq> NoType" "e_regtype e \<noteq> RegNode"
    using fold_no_register [OF assms(1), of "(p, new_element)"] fold_no_RegNode [of "(p, new_element)" attrs] Pair
    by (simp_all add: new_element_def)
  moreover have "r_msks (p_currentreg q) = None"
    using fold_read_attr_currentreg [of attrs "(p, new_element)"] Pair assms(2) by simp
  ultimately show ?thesis
    using assms(3) Pair unfolding start_element_def
    by (cases "e_regtype e")
      (auto simp: block_element_def mask_element_def gomap_put_def Let_def obind_eq_Inr
        split: option.splits sum.splits prod.splits if_splits)
qed

fun no_registers :: "xtoken list \<Rightarrow> bool" where
  "no_registers [] = True"
| "no_registers (StartElement n attrs # toks) = (no_register attrs \<and> no_registers toks)"
| "no_registers (_ # toks) = no_registers toks"

lemma token_loop_no_registers:
  "no_registers toks \<Longrightarrow> r_msks (p_currentreg p) = None \<Longrightarrow>
   token_loop pf fn fb toks p = Some (Inr (p', None)) \<Longrightarrow> r_msks (p_currentreg p') = None"
proof (induction pf fn fb toks p rule: token_loop.induct)
  case (2 pf fn fb n attrs toks p)
  obtain p1 where p1: "start_element pf fn fb attrs p = Some (Inr (p1, None))"
      "token_loop pf fn fb toks p1 = Some (Inr (p', None))"
    using "2.prems"(3) by (auto split: option.splits sum.splits prod.splits)
  have "r_msks (p_currentreg p1) = None" using start_element_no_register [OF _ _ p1(1)] "2.prems" by simp
  moreover have "no_registers toks" using "2.prems"(1) by simp
  ultimately show ?case using "2.IH" p1(2) by blast
qed (simp_all add: end_element_def)

text \<open>C35: A mask before any register of its file makes the parser panic: when the elements
  before it are blocks, modules and masks, and they are read without a failure, the mask is
  written into the nil map of a register that does not exist.\<close>

theorem mask_before_register_panics:
  assumes toks: "os_Open fn = Inr (pre @ StartElement n (as @ (''mask'', v) # bs) # post, e)"
    and bs: "list_all keeps_type bs" and pre: "no_registers pre"
    and read: "token_loop (parseregfile k os_Open) fn fb pre (init_parser regs path) = Some (Inr (p, None))"
  shows "parseregfile (Suc k) os_Open fn path fb regs = Some (Inl NilMapWrite)"
proof -
  have "r_msks (p_currentreg (init_parser regs path)) = None" by (simp add: init_parser_def zero_Register_def)
  from token_loop_no_registers [OF pre this read] have nil: "r_msks (p_currentreg p) = None" .
  have "start_element (parseregfile k os_Open) fn fb (as @ (''mask'', v) # bs) p = Some (Inl NilMapWrite)"
  proof (cases "fold read_attr (as @ (''mask'', v) # bs) (p, new_element)")
    case (Pair q el)
    then have "e_regtype el = MaskNode" using fold_mask [OF bs, of as v "(p, new_element)"] by simp
    moreover have "r_msks (p_currentreg q) = None"
      using fold_read_attr_currentreg [of "as @ (''mask'', v) # bs" "(p, new_element)"] Pair nil by simp
    ultimately show ?thesis using Pair unfolding start_element_def by (simp add: mask_element_def gomap_put_def Let_def)
  qed
  then have "token_loop (parseregfile k os_Open) fn fb (pre @ StartElement n (as @ (''mask'', v) # bs) # post)
      (init_parser regs path) = Some (Inl NilMapWrite)"
    by (simp add: token_loop_append read)
  then show ?thesis by (simp add: parse_file_def toks)
qed

definition demo_masked :: opener where
  "demo_masked fn = Inr ([StartElement ''node'' [(''id'', ''TOP''), (''fwinfo'', ''endpoint'')], OtherToken,
     StartElement ''node'' [(''id'', ''busy''), (''mask'', ''0x1'')], EndElement, EndElement], None)"

theorem mask_before_register_panics_witness:
  "parseregfile 1 demo_masked ''a.xml'' [] 0 Map.empty = Some (Inl NilMapWrite)"
proof -
  let ?pre = "[StartElement ''node'' [(''id'', ''TOP''), (''fwinfo'', ''endpoint'')], OtherToken]"
  have "\<exists>p. token_loop (parseregfile 0 demo_masked) ''a.xml'' 0 ?pre (init_parser Map.empty []) = Some (Inr (p, None))"
    by (simp add: start_element_def read_attr_def new_element_def init_parser_def block_element_def zero_block_def Let_def)
  then obtain p where p: "token_loop (parseregfile 0 demo_masked) ''a.xml'' 0 ?pre (init_parser Map.empty []) = Some (Inr (p, None))" ..
  have f: "demo_masked ''a.xml'' = Inr (?pre @ StartElement ''node'' ([(''id'', ''busy'')] @ (''mask'', ''0x1'') # [])
      # [EndElement, EndElement], None)" by (simp add: demo_masked_def)
  have "no_registers ?pre" by (simp add: no_register_def)
  from mask_before_register_panics [OF f _ this p] show ?thesis by simp
qed

text \<open>Files without block and module elements.\<close>

fun no_blocks :: "xtoken list \<Rightarrow> bool" where
  "no_blocks [] = True"
| "no_blocks (StartElement n attrs # toks) =
    (list_all (\<lambda>a. fst a \<notin> {''fwinfo'', ''module''}) attrs \<and> no_blocks toks)"
| "no_blocks (_ # toks) = no_blocks toks"

lemma fold_no_blocks:
  "list_all (\<lambda>a. fst a \<notin> {''fwinfo'', ''module''}) as \<Longrightarrow> e_regtype (snd pe) \<notin> {BlkNode, ModNode} \<Longrightarrow>
   e_regtype (snd (fold read_attr as pe)) \<notin> {BlkNode, ModNode}"
proof (induction as arbitrary: pe)
  case (Cons a as)
  have "e_regtype (snd (read_attr a pe)) \<notin> {BlkNode, ModNode}"
    using Cons.prems by (cases a; cases pe) (auto simp: read_attr_def Let_def)
  with Cons show ?case by simp
qed simp

lemma token_loop_no_blocks:
  "no_blocks toks \<Longrightarrow> token_loop pf fn fb toks p = token_loop pf' fn' fb' toks p"
proof (induction toks arbitrary: p rule: no_blocks.induct)
  case (2 n attrs toks)
  have "start_element pf fn fb attrs p = start_element pf' fn' fb' attrs p"
  proof (cases "fold read_attr attrs (p, new_element)")
    case (Pair q e)
    then have "e_regtype e \<notin> {BlkNode, ModNode}"
      using fold_no_blocks [of attrs "(p, new_element)"] 2 by (simp add: new_element_def)
    with Pair show ?thesis unfolding start_element_def by (cases "e_regtype e") auto
  qed
  with 2 show ?case by simp
qed simp_all

text \<open>In a file without block and module elements the base address is lost: whatever base
  address the file is given, by the module element that names it, parsing it gives what it
  gives with the base address 0, registers, addresses and errors.\<close>

theorem base_address_lost_without_blocks:
  assumes "os_Open fn = Inr (toks, e)" "no_blocks toks"
  shows "parseregfile (Suc k) os_Open fn path fb regs = parseregfile (Suc k) os_Open fn path 0 regs"
  using token_loop_no_blocks [OF assms(2), of "parseregfile k os_Open" fn fb _ "parseregfile k os_Open" fn 0]
  by (simp add: parse_file_def assms(1))

definition demo_blockless :: opener where
  "demo_blockless fn = Inr ([StartElement ''node'' [(''id'', ''m'')], OtherToken,
     StartElement ''node'' [(''id'', ''r''), (''address'', ''0x4'')],
     StartElement ''node'' [(''id'', ''low''), (''mask'', ''0xff'')], EndElement, EndElement, EndElement], None)"

theorem base_address_lost_without_blocks_witness:
  "parseregfile 1 demo_blockless ''m.xml'' ''m'' 0x100 Map.empty
     = parseregfile 1 demo_blockless ''m.xml'' ''m'' 0 Map.empty"
proof -
  have "no_blocks [StartElement ''node'' [(''id'', ''m'')], OtherToken,
     StartElement ''node'' [(''id'', ''r''), (''address'', ''0x4'')],
     StartElement ''node'' [(''id'', ''low''), (''mask'', ''0xff'')], EndElement, EndElement, EndElement]" by simp
  from base_address_lost_without_blocks [where os_Open = demo_blockless and fn = "''m.xml''" and k = 0
      and path = "''m''" and fb = "0x100" and regs = Map.empty, OF demo_blockless_def this]
  show ?thesis by simp
qed

end
