(* ===== verification/Connections.thy ===== *)
theory Connections
  imports Parser_Properties Hw Target
begin

text \<open>
  Creating targets (\<open>connectionmanager.go\<close>, and \<open>New\<close> of \<open>target.go\<close>): a connection manager
  reads a connection file; \<open>Target\<close> looks a connection up by its name, opens it, and \<open>New\<close>
  parses its address table and sets up the hardware interface.

  Name resolution and sockets are parameters.  The struct \<open>Target\<close> is the record \<open>target\<close>: the
  state of its goroutine \<open>preparepackets\<close> and that of its hardware interface stand for the
  channels through which the code reaches them.
\<close>

definition DefaultTimeout :: int where
  "DefaultTimeout = 3000000000"

definition DefaultAutoDispatch :: bool where
  "DefaultAutoDispatch = False"

record target =
  tg_Name :: string
  tg_TimeoutPeriod :: int
  tg_Regs :: regmap
  tg_AutoDispatch :: bool
  tg_dest :: string
  tg_preparer :: "preparer option"
  tg_hw :: "hw option"

definition zero_target :: target where
  "zero_target =
    \<lparr>tg_Name = [], tg_TimeoutPeriod = 0, tg_Regs = Map.empty, tg_AutoDispatch = False,
     tg_dest = [], tg_preparer = None, tg_hw = None\<rparr>"

text \<open>\<open>New\<close>: the goroutines are started before the address table is parsed, and the target is
  returned with the error of the parser, if any.\<close>

definition New ::
    "nat \<Rightarrow> opener \<Rightarrow> bool \<Rightarrow> string \<Rightarrow> string \<Rightarrow> (target \<times> go_error option) outcome option" where
  "New k os_Open verbose name fn =
    (let t = zero_target\<lparr>tg_Name := name, tg_TimeoutPeriod := DefaultTimeout,
               tg_AutoDispatch := DefaultAutoDispatch, tg_preparer := Some init_preparer\<rparr>;
         h = newhw (tg_TimeoutPeriod t);
         t = t\<lparr>tg_hw := Some (if verbose then SetVerbose 1 h else h)\<rparr>
     in lbind (parseregfile k os_Open fn [] 0 (tg_Regs t))
          (\<lambda>(regs, err). Some (Inr (t\<lparr>tg_Regs := regs\<rparr>, err))))"

subsection \<open>The connection manager\<close>

record CM =
  cm_Devices :: "string list"
  cm_connlist :: "connection list"
  cm_fn :: string

definition NewCM :: "opener \<Rightarrow> string \<Rightarrow> CM \<times> go_error option" where
  "NewCM ReadFile fn =
    (case ReadFile fn of
       Inl err \<Rightarrow> (\<lparr>cm_Devices = [], cm_connlist = [], cm_fn = []\<rparr>, Some err)
     | Inr (toks, _) \<Rightarrow>
         let conns = Unmarshal toks in
         (\<lparr>cm_Devices = map c_Id conns, cm_connlist = conns, cm_fn = fn\<rparr>, None))"

text \<open>The loop of \<open>CM.Target\<close>: the last connection of the name counts.\<close>

fun find_connection :: "string \<Rightarrow> string \<Rightarrow> connection list \<Rightarrow> string \<times> string \<Rightarrow> string \<times> string" where
  "find_connection dir name [] da = da"
| "find_connection dir name (conn # conns) da =
    find_connection dir name conns
      (if c_Id conn = name
       then (replace_first (c_URI conn) ''ipbusudp-2.0://'' [],
             filepath_Join dir (replace_first (c_Address conn) ''file://'' []))
       else da)"

definition CM_Target ::
    "nat \<Rightarrow> opener \<Rightarrow> bool \<Rightarrow> (string \<Rightarrow> go_error + 'addr) \<Rightarrow> ('addr \<Rightarrow> go_error option)
       \<Rightarrow> CM \<Rightarrow> string \<Rightarrow> (target \<times> go_error option) outcome option" where
  "CM_Target k os_Open verbose ResolveUDPAddr DialUDP cm name =
    (let (dest, addr) = find_connection (filepath_Dir (cm_fn cm)) name (cm_connlist cm) ([], []) in
     if dest = [] then Some (Inr (zero_target, Some (ConnectionNotFound name)))
     else case ResolveUDPAddr dest of
            Inl err \<Rightarrow> Some (Inr (zero_target, Some err))
          | Inr raddr \<Rightarrow>
              (case DialUDP raddr of
                 Some err \<Rightarrow> Some (Inl (PanicError err))
               | None \<Rightarrow> New k os_Open verbose ''dummy'' addr))"

subsection \<open>Connection files\<close>

text \<open>A connection declared in a connection file, and its XML tokens.\<close>

record conn_decl =
  cd_id :: string
  cd_host :: string
  cd_table :: string

definition conn_tokens :: "conn_decl \<Rightarrow> xtoken list" where
  "conn_tokens c =
    [StartElement ''connection'' [(''id'', cd_id c), (''uri'', ''ipbusudp-2.0://'' @ cd_host c),
       (''address_table'', ''file://'' @ cd_table c)], EndElement]"

definition connections_tokens :: "conn_decl list \<Rightarrow> xtoken list" where
  "connections_tokens cs =
    StartElement ''connections'' [] # concat (map conn_tokens cs) @ [EndElement]"

definition conn_value :: "conn_decl \<Rightarrow> connection" where
  "conn_value c = \<lparr>c_Id = cd_id c, c_URI = ''ipbusudp-2.0://'' @ cd_host c, c_Address = ''file://'' @ cd_table c\<rparr>"

abbreviation significant :: "xtoken list \<Rightarrow> xtoken list" where
  "significant \<equiv> filter (\<lambda>t. t \<noteq> OtherToken)"

lemma skip_element_significant:
  "skip_element d (significant toks) = map_option significant (skip_element d toks)"
  by (induction d toks rule: skip_element.induct) (auto split: nat.split)

lemma read_connections_significant:
  "read_connections (significant toks) = read_connections toks"
  by (induction toks rule: read_connections.induct)
    (auto simp: skip_element_significant split: option.split)

lemma Unmarshal_significant: "Unmarshal (significant toks) = Unmarshal toks"
  by (induction toks rule: Unmarshal.induct) (auto simp: read_connections_significant)

lemma Unmarshal_connections: "Unmarshal (connections_tokens cs) = map conn_value cs"
proof -
  have "read_connections (concat (map conn_tokens cs) @ [EndElement]) = map conn_value cs"
    by (induction cs) (simp_all add: conn_tokens_def conn_value_def last_value_def)
  then show ?thesis by (simp add: connections_tokens_def)
qed

lemma find_not_in: "y \<notin> f ` set xs \<Longrightarrow> find (\<lambda>x. f x = y) xs = None"
  by (induction xs) auto

lemma find_connection_value:
  "distinct (map cd_id cs) \<Longrightarrow>
    find_connection dir name (map conn_value cs) da =
      (case find (\<lambda>c. cd_id c = name) cs of
         None \<Rightarrow> da
       | Some c \<Rightarrow> (cd_host c, filepath_Join dir (cd_table c)))"
proof (induction cs arbitrary: da)
  case (Cons c cs)
  have u: "replace_first (''ipbusudp-2.0://'' @ s) ''ipbusudp-2.0://'' [] = s"
      "replace_first (''file://'' @ s) ''file://'' [] = s" for s
    by (subst replace_first_prefix; simp)+
  have "cd_id c = name \<Longrightarrow> find (\<lambda>c. cd_id c = name) cs = None"
    using Cons.prems by (intro find_not_in) auto
  then show ?case using Cons u by (simp add: conn_value_def)
qed simp

lemma find_distinct:
  "distinct (map f xs) \<Longrightarrow> x \<in> set xs \<Longrightarrow> find (\<lambda>y. f y = f x) xs = Some x"
  by (induction xs) (auto simp: image_iff)

subsection \<open>Properties\<close>

text \<open>C14: From a connection file to a target's registers: when the file declares connections
  with distinct names, the host of one of them resolves and connects, and its address table
  (whose path is relative to the connection file) is well-formed, then \<open>NewCM\<close> lists the
  names and \<open>Target\<close> returns a target with a fresh hardware interface and exactly the declared
  registers.  The target is called ``dummy'' whatever the name of the connection.\<close>

theorem CM_Target_registers:
  assumes conns: "ReadFile fn = Inr (toks, e)" "significant toks = connections_tokens cs"
      "distinct (map cd_id cs)" "c \<in> set cs" "cd_host c \<noteq> []"
    and net: "ResolveUDPAddr (cd_host c) = Inr raddr" "DialUDP raddr = None"
    and table: "path = filepath_Join (filepath_Dir fn) (cd_table c)" "holds_tables os_Open tabs"
      "wf_tables tabs k path" "distinct (map fst (layout tabs k path [] 0))"
  shows "\<exists>cm t. NewCM ReadFile fn = (cm, None) \<and> cm_Devices cm = map cd_id cs
    \<and> CM_Target k os_Open False ResolveUDPAddr DialUDP cm (cd_id c) = Some (Inr (t, None))
    \<and> tg_Name t = ''dummy'' \<and> tg_hw t = Some (newhw 3000000000)
    \<and> (\<forall>n. n \<noteq> [] \<longrightarrow> tg_Regs t n = map_of (layout tabs k path [] 0) n)"
proof -
  have um: "Unmarshal toks = map conn_value cs"
    using Unmarshal_significant [of toks] by (simp add: conns(2) Unmarshal_connections)
  obtain cm where cm: "NewCM ReadFile fn = (cm, None)" "cm_Devices cm = map cd_id cs"
      "cm_connlist cm = map conn_value cs" "cm_fn cm = fn"
    by (simp add: NewCM_def conns(1) um comp_def) (simp add: conn_value_def)
  have "find_connection (filepath_Dir fn) (cd_id c) (map conn_value cs) ([], []) = (cd_host c, path)"
    by (simp add: find_connection_value [OF conns(3)] find_distinct [OF conns(3,4)] table(1))
  then have T: "CM_Target k os_Open False ResolveUDPAddr DialUDP cm (cd_id c) = New k os_Open False ''dummy'' path"
    using conns(5) net by (simp add: CM_Target_def cm(3,4))
  obtain regs where "parseregfile k os_Open path [] 0 Map.empty = Some (Inr (regs, None))"
      "\<forall>n. n \<noteq> [] \<longrightarrow> regs n = (Map.empty ++ map_of (rev (layout tabs k path [] 0))) n"
    using parse_tables [OF table(2-4)] unfolding parses_to_def by blast
  with T cm(1,2) show ?thesis
    by (simp add: New_def zero_target_def DefaultTimeout_def map_of_rev_distinct [OF table(4)])
qed

definition demo_cs :: "conn_decl list" where
  "demo_cs = [\<lparr>cd_id = ''A'', cd_host = ''h:1'', cd_table = ''x.xml''\<rparr>,
              \<lparr>cd_id = ''B'', cd_host = ''h:2'', cd_table = ''d/top.xml''\<rparr>]"

theorem CM_Target_registers_witness:
  "\<exists>cm t. cm_Devices cm = [''A'', ''B'']
    \<and> CM_Target 2 demo_open False (\<lambda>h. Inr h) (\<lambda>a. None) cm ''B'' = Some (Inr (t, None))
    \<and> map_option r_Addr (tg_Regs t ''io.csr.stat'') = Some 0x25"
proof -
  have p: "''d/top.xml'' = filepath_Join (filepath_Dir ''conn.xml'') (cd_table (demo_cs ! 1))" by code_simp
  have s: "significant (connections_tokens demo_cs) = connections_tokens demo_cs"
    by (simp add: demo_cs_def connections_tokens_def conn_tokens_def)
  have d: "distinct (map cd_id demo_cs)" "demo_cs ! 1 \<in> set demo_cs" "cd_host (demo_cs ! 1) \<noteq> []"
    by (simp_all add: demo_cs_def)
  obtain cm t where t: "cm_Devices cm = map cd_id demo_cs"
      "CM_Target 2 demo_open False (\<lambda>h. Inr h) (\<lambda>a. None) cm (cd_id (demo_cs ! 1)) = Some (Inr (t, None))"
      "\<And>n. n \<noteq> [] \<Longrightarrow> tg_Regs t n = map_of (layout demo_tables 2 ''d/top.xml'' [] 0) n"
    using CM_Target_registers [where ReadFile = "\<lambda>fn. Inr (connections_tokens demo_cs, None)" and fn = "''conn.xml''"
        and ResolveUDPAddr = "\<lambda>h. Inr h" and DialUDP = "\<lambda>a. None",
        OF refl s d refl refl p demo_holds demo_wf demo_distinct] by blast
  have "map_option r_Addr (tg_Regs t ''io.csr.stat'') = Some 0x25"
    using t(3) [of "''io.csr.stat''"] demo_lookup [of "''io.csr.stat''"] by auto
  with t(1,2) show ?thesis by (auto simp: demo_cs_def)
qed

lemma find_connection_none: "name \<notin> c_Id ` set cs \<Longrightarrow> find_connection dir name cs da = da"
  by (induction cs arbitrary: da) auto

text \<open>\<open>Target\<close> returns the error that a connection is not found for a name that the
  connection file does not have; in particular, a file that is not XML at all gives a manager
  without devices and no error.\<close>

theorem CM_Target_not_found:
  assumes "NewCM ReadFile fn = (cm, None)" "name \<notin> set (cm_Devices cm)"
  shows "CM_Target k os_Open verbose ResolveUDPAddr DialUDP cm name
    = Some (Inr (zero_target, Some (ConnectionNotFound name)))"
proof -
  have "name \<notin> c_Id ` set (cm_connlist cm)"
    using assms by (auto simp: NewCM_def Let_def split: sum.split_asm prod.split_asm)
  then show ?thesis by (simp add: CM_Target_def find_connection_none)
qed

theorem CM_Target_not_found_witness:
  "CM_Target 2 demo_open False (\<lambda>h. Inr h) (\<lambda>a. None)
     (fst (NewCM (\<lambda>fn. Inr ([OtherToken], Some (XMLError 0))) ''conn.xml'')) ''B''
   = Some (Inr (zero_target, Some (ConnectionNotFound ''B'')))"
proof -
  have "NewCM (\<lambda>fn. Inr ([OtherToken], Some (XMLError 0))) ''conn.xml''
      = (\<lparr>cm_Devices = [], cm_connlist = [], cm_fn = ''conn.xml''\<rparr>, None)"
    by (simp add: NewCM_def)
  from CM_Target_not_found [OF this] this show ?thesis by simp
qed

end
