(* ===== verification/Dummy.thy ===== *)
theory Dummy
  imports Ipbus_Prelude
begin

text \<open>
  The dummy hardware (\<open>dummy.go\<close>): it starts an external program that plays the target, and
  stops it on request or after a time.

  The command is a pointer that all copies of the struct share: it is a state of its own, the
  process.  \<open>Run\<close> has a value receiver: it changes its own copy of \<open>running\<close>.  The results of
  the operating system are parameters; copying the program's output to the log is left out.
\<close>

datatype process = NotStarted | Alive | Ended

text \<open>The methods of \<open>exec.Cmd\<close> that the code calls: \<open>Start\<close> with the result of the system, and
  \<open>Process.Kill\<close>, which dereferences nil unless the program was started.\<close>

definition cmd_Start :: "go_error option \<Rightarrow> process \<Rightarrow> process \<times> go_error option" where
  "cmd_Start res cmd =
    (if cmd \<noteq> NotStarted then (cmd, Some (ProcessError 0))
     else if res = None then (Alive, None) else (NotStarted, res))"

definition cmd_Kill :: "process \<Rightarrow> (process \<times> go_error option) outcome" where
  "cmd_Kill cmd =
    (case cmd of
       NotStarted \<Rightarrow> Inl NilDereference
     | Alive \<Rightarrow> Inr (Ended, None)
     | Ended \<Rightarrow> Inr (Ended, Some (ProcessError 1)))"

record dummyHardware =
  d_running :: bool

definition newDummy :: "dummyHardware \<times> process" where
  "newDummy = (\<lparr>d_running = False\<rparr>, NotStarted)"

definition dummy_Start ::
    "go_error option \<Rightarrow> dummyHardware \<Rightarrow> process \<Rightarrow> dummyHardware \<times> process \<times> go_error option" where
  "dummy_Start res d cmd =
    (if \<not> d_running d then
       let (cmd, err) = cmd_Start res cmd in (d\<lparr>d_running := True\<rparr>, cmd, err)
     else (d, cmd, None))"

definition dummy_Stop ::
    "dummyHardware \<Rightarrow> process \<Rightarrow> (dummyHardware \<times> process \<times> go_error option) outcome" where
  "dummy_Stop d cmd =
    (if d_running d
     then obind (cmd_Kill cmd) (\<lambda>(cmd, err). Inr (d\<lparr>d_running := False\<rparr>, cmd, err))
     else Inr (d, cmd, None))"

text \<open>\<open>wait\<close> sends on the channel \<open>stopped\<close> once the process has ended: receiving from it
  before blocks.\<close>

definition receive_stopped :: "process \<Rightarrow> process option" where
  "receive_stopped cmd = (if cmd = Ended then Some cmd else None)"

text \<open>What happens first in the \<open>select\<close> of \<open>Run\<close>: the timeout, the end of the process, or a
  request on \<open>Kill\<close>.\<close>

datatype dummy_event = TimedOut | Stopped | KillRequested

definition dummy_select :: "dummy_event \<Rightarrow> dummyHardware \<Rightarrow> process \<Rightarrow> process outcome option" where
  "dummy_select ev d cmd =
    (case ev of
       TimedOut \<Rightarrow>
         (case dummy_Stop (d\<lparr>d_running := False\<rparr>) cmd of
            Inl e \<Rightarrow> Some (Inl e)
          | Inr (d, cmd, _) \<Rightarrow> map_option Inr (receive_stopped cmd))
     | Stopped \<Rightarrow> Some (Inr Ended)
     | KillRequested \<Rightarrow>
         (case dummy_Stop d cmd of
            Inl e \<Rightarrow> Some (Inl e)
          | Inr (d, cmd, Some err) \<Rightarrow> Some (Inl (PanicError err))
          | Inr (d, cmd, None) \<Rightarrow> map_option Inr (receive_stopped cmd)))"

text \<open>\<open>Run\<close>: the process after it, or \<open>None\<close> while it blocks.\<close>

definition dummy_Run ::
    "go_error option \<Rightarrow> dummy_event \<Rightarrow> dummyHardware \<Rightarrow> process \<Rightarrow> process outcome option" where
  "dummy_Run res ev d cmd =
    (if d_running d then Some (Inr cmd)
     else case dummy_Start res d cmd of
            (d, cmd, Some err) \<Rightarrow> Some (Inl (PanicError err))
          | (d, cmd, None) \<Rightarrow> dummy_select ev d cmd)"

subsection \<open>Properties\<close>

text \<open>A request on \<open>Kill\<close> ends the program, but the timeout does not: \<open>Run\<close> clears its flag
  before it calls \<open>Stop\<close>, which then does nothing, and waits for a program that goes on.\<close>

theorem dummy_timeout_does_not_stop:
  "dummy_Run None KillRequested (fst newDummy) (snd newDummy) = Some (Inr Ended)
   \<and> dummy_Run None TimedOut (fst newDummy) (snd newDummy) = None"
  by (simp add: dummy_Run_def newDummy_def dummy_Start_def cmd_Start_def dummy_select_def
      dummy_Stop_def cmd_Kill_def receive_stopped_def)

end
