(* ===== verification/Spec2Isabelle.thy ===== *)
theory Spec2Isabelle
  imports Wire Registers Idlog Packets Target Status Packetlog Hw_Properties Hw_Delivery
    Exchange Parser_Properties Connections Dummy
begin

text \<open>
  A client of the IPbus protocol in Go, verified.  IPbus reads and writes the registers of
  hardware devices over UDP.  The library turns the requests of its clients into
  transactions, packs them into packets, keeps several packets in flight, matches the
  replies, recovers lost packets, and delivers the responses.  Registers are named: an XML
  address table gives their addresses and masks.

  The parts of the program and their theories.  Names of definitions are those of the code,
  with the receiver in front where a method's name is not unique.

  \<^item> \<open>Ipbus_Prelude\<close>: machine integers, errors and panics, lemmas on words and lists.  A Go
    error is a value of \<open>go_error\<close>, a panic is \<open>Inl\<close> of an \<open>outcome\<close>, and a call that may not
    return gives an \<open>option\<close>.  Rules: collections \<open>masks\<close> and \<open>packing\<close>.
  \<^item> \<open>Wire\<close> (\<open>ipbus.go\<close>, and \<open>byteorder\<close> of \<open>transaction.go\<close>): constants, 32-bit words in both
    byte orders, packet and transaction headers.  Locale \<open>word_codec\<close>, interpreted for the
    headers and words; the decoders accept exactly the encodings of well-formed headers.
  \<^item> \<open>Registers\<close> (\<open>register.go\<close>): masks with their shifts, \<open>ReadMask\<close> and \<open>WriteMask\<close>.
  \<^item> \<open>Idlog\<close> (\<open>hw_stuff.go\<close>): the tracker of the last identifiers, and the ring buffer \<open>idlog\<close>,
    which refines a bounded list.  Locale \<open>id_queue\<close>, interpreted on \<open>idlog\<close>.
  \<^item> \<open>Packets\<close> (\<open>transaction.go\<close>): building a packet (\<open>packet_add\<close> and the sizes it keeps),
    parsing its reply, and delivering the responses.  The slices of a packet are lists; the
    channel of a transaction is a number, and what is sent on channels a list of events.
  \<^item> \<open>Target\<close> (\<open>target.go\<close>): the requests of the interface, \<open>preparepackets\<close> as a machine over
    the cases of its \<open>select\<close>, and what the blocking calls compute from the responses.
  \<^item> \<open>Status\<close> (\<open>hw_stuff.go\<close>): the status and resend requests, and the parsing of a status.
  \<^item> \<open>Packetlog\<close> (\<open>hw_stuff.go\<close>): the map of packets behind a goroutine.  Locale
    \<open>packet_store\<close>, interpreted on the operations that exchange messages with it.
  \<^item> \<open>Hw\<close>, \<open>Hw_System\<close> (\<open>hw.go\<close>): the hardware interface, one definition for each method and for
    each case of \<open>Run\<close>; then the step relation of its goroutines, which allows every
    interleaving of them.  \<open>Hw_Invariant\<close> proves invariants by rule induction: the shape of the
    state in every reachable state, the pipeline of identifiers when writes succeed
    (\<open>calm_reachable\<close>), and the place of every packet when the configuration arrives before the
    first packet (\<open>steady_reachable\<close>).  \<open>Hw_Properties\<close> holds the properties.
    \<open>Hw_Delivery\<close> follows the packets through the logs to the connection: what flies was
    written, lost packets are written again, responses come from a client's own packet, and
    with a truthful target (locale \<open>truthful_target\<close>) the responses returned are those to the
    packets in the order in which they came in.
  \<^item> \<open>Gostrings\<close>: the functions of Go's \<open>strings\<close>, \<open>strconv\<close> and \<open>filepath\<close> that the code calls.
  \<^item> \<open>Parser\<close> (\<open>parser.go\<close>): the register file parser over the tokens of its files.
    \<open>Address_Table\<close> describes address tables, writes them as tokens and lists the registers
    they declare; parsing what is written gives the list.  \<open>Parser_Properties\<close> adds
    well-formedness of the registers of any files (locale \<open>wf_module_parser\<close>, interpreted on
    \<open>parseregfile\<close>), termination, and failures.
  \<^item> \<open>Connections\<close> (\<open>connectionmanager.go\<close>, and \<open>New\<close> of \<open>target.go\<close>): from a connection file to
    a target.
  \<^item> \<open>Dummy\<close> (\<open>dummy.go\<close>): the program that plays a target in tests.
  \<^item> \<open>Serving\<close>, \<open>Exchange\<close>: the target's side, as the specification that the properties across
    components refer to.  A target decodes the requests from the datagram it gets and answers
    each (\<open>target_requests\<close>, \<open>target_answer\<close>); what it decodes from a packet's request are the
    packet's transactions.  \<open>truthful_target\<close> is interpreted on a target that answers
    each request as it likes (\<open>protocol_target\<close>) and on one with a memory (\<open>memory_target\<close>).
  \<^item> this theory: reads, then all requests, from the request to the response, through the
    packets and replies alone and through the hardware interface.

  The abstract specifications: a bounded list for \<open>idlog\<close>; the list of words at consecutive
  addresses for \<open>preparepackets\<close>; the sequence of accepted identifiers, which is always that
  of the returned ones, those in flight and those queued, for the hardware interface; the
  layout of address tables for the parser.

  Loops and fuel.  Loops that may run for ever give \<open>None\<close>: \<open>parse_loop\<close> of packets and the
  loops of \<open>preparepackets\<close> are partial functions.  \<open>sendnext_loop\<close> is given
  \<open>maxflight - inflight\<close> rounds, since each raises \<open>inflight\<close>; \<open>returnreply_loop\<close> as many as
  \<open>flyingids\<close> has identifiers, since each removes one; \<open>resend_loop\<close> 65537, more than there are
  identifiers (at most four are needed, as \<open>lost_packets_written_again\<close> shows);
  \<open>parseregfile\<close> the depth to which files include others, which suffices when it exceeds a
  rank of the files (\<open>parse_returns_without_cycles\<close>).

  Parameters: the results of writes to the connection (a function of what was written
  before), the time at which a handler runs, the order in which \<open>range\<close> walks a map, the
  files with the tokens of their XML, name resolution, and the operating system's results for
  the dummy program.

  Not modelled.  Handlers are atomic: \<open>handlelost\<close> and \<open>ConfigDevice\<close> run beside \<open>Run\<close> without
  locks, and the races of single statements on the fields they share are left out; they are
  split where they wait for a status.  The time is read once in a handler.  The counters of
  bytes and packets are natural numbers (floats in the code, exact at these sizes).  Printing,
  the \<open>String\<close> methods, \<open>license.go\<close> (a text), the method \<open>closeall\<close> (an empty body) and the
  unused types of \<open>parser.go\<close> are left out.  The decoder of XML is not modelled: a file is the
  sequence of tokens that \<open>Token\<close> returns.
\<close>

subsection \<open>The packets of a read\<close>

lemma ReadNow_packets:
  assumes size: "48 \<le> maxsize" "maxsize \<le> 32768" and n: "n \<noteq> 0"
  obtains s ts where
    "preparepackets maxsize init_preparer [Requested (Target_Read reg n c), Requested Target_Dispatch]
       = Some (Inr s)"
    "\<forall>p \<in> set (pr_sent s). readable c p"
    "concat (map (read_events mem) (pr_sent s)) = map (Deliver c) (map (read_response mem) ts) @ [CloseChan c]"
    "ReadNow_receive [] (map (read_response mem) ts)
       = (map mem (span (\<not> r_noninc reg) (r_Addr reg) (unat n)), None)"
proof -
  let ?req = "Target_Read reg n c"
  have rd: "is_read (ur_typeid ?req)" "ur_resp ?req = c" "\<not> ur_byteslice ?req" "ur_nwords ?req = n"
      "ur_addr ?req = r_Addr reg" "ur_typeid ?req = tid_read \<longleftrightarrow> \<not> r_noninc reg" "\<not> ur_dispatch ?req"
      "ur_Input ?req = []"
    by (simp_all add: Target_Read_def tid_defs is_read_def)
  then have "\<forall>e \<in> set [Requested ?req]. client_event e" by (simp add: api_request_def)
  then obtain s tss where s:
    "preparepackets maxsize init_preparer ([Requested ?req] @ [Requested Target_Dispatch]) = Some (Inr s)"
    "queue_ok maxsize (pr_sent s)" "list_all2 request_parts (requests_of [Requested ?req]) tss"
    "all_trans (pr_sent s) = concat tss"
    by (rule dispatched_run [OF size(1)])
  then obtain ts where ts: "all_trans (pr_sent s) = ts" "request_parts ?req ts"
    using rd(7) by (auto simp: list_all2_Cons1)
  then have parts: "concat (map addresses ts) = span (\<not> r_noninc reg) (r_Addr reg) (unat n)"
      "\<forall>t \<in> set ts. part_of ?req t" "close_last ts"
    using rd by (simp_all add: request_parts_def read_parts_def)
  have "length (concat (map addresses ts)) = unat n" unfolding parts(1) by simp
  then have ne: "ts \<noteq> []" using n by (auto simp: unat_eq_0)
  have resp: "\<forall>t \<in> set ts. t_resp t = c" using parts(2) rd(2) by (auto simp: part_of_def)
  have "concat (map (read_events mem) (pr_sent s)) = map (Deliver c) (map (read_response mem) ts) @ [CloseChan c]"
    unfolding concat_read_events ts(1) using send_events_close_last [OF _ parts(3) resp] ne by simp
  moreover have "plain_reads c (all_trans (pr_sent s))"
    using parts(2) rd(1-3) by (auto simp: ts(1) plain_reads_def part_of_def)
  then have "plain_reads c (pk_transactions p)" if "p \<in> set (pr_sent s)" for p
    using that by (auto simp: plain_reads_def all_trans_def)
  with prepared_sendable [OF s(2) order_trans [OF _ size(1)] size(2) s(3,4)]
  have "\<forall>p \<in> set (pr_sent s). readable c p" by (simp add: readable_def)
  ultimately show thesis
    using that s(1) by (simp add: ReadNow_receive_reads parts(1))
qed

subsection \<open>Properties that span components\<close>

text \<open>C4: A read from end to end.  \<open>ReadNow\<close> enqueues a read of \<open>n\<close> words and dispatches it;
  \<open>preparepackets\<close> cuts it into packets; the target answers each packet with its memory's
  words, in either byte order; \<open>parse\<close> and \<open>send\<close> handle the answers in the order of the
  packets.  Then the channel of the call carries deliveries only, followed by one close, and
  \<open>ReadNow\<close> returns the \<open>n\<close> words at the register's address (the same address \<open>n\<close> times for
  a non-incrementing register), whatever the packet size from 48 bytes to 32 KiB.\<close>

theorem ReadNow_end_to_end:
  assumes size: "48 \<le> maxsize" "maxsize \<le> 32768" and order: "order \<noteq> NilOrder" and n: "n \<noteq> 0"
  shows "\<exists>s evss rs.
    preparepackets maxsize init_preparer
        [Requested (Target_Read reg n c), Requested Target_Dispatch] = Some (Inr s)
    \<and> list_all2 (\<lambda>p evs. exchange p (read_answer mem order (pk_id p) p) = Some (Inr evs))
        (pr_sent s) evss
    \<and> concat evss = map (Deliver c) rs @ [CloseChan c]
    \<and> ReadNow_receive [] rs =
        (map mem (span (\<not> r_noninc reg) (r_Addr reg) (unat n)), None)"
proof -
  obtain s ts where s:
    "preparepackets maxsize init_preparer [Requested (Target_Read reg n c), Requested Target_Dispatch]
       = Some (Inr s)"
    "\<forall>p \<in> set (pr_sent s). readable c p"
    "concat (map (read_events mem) (pr_sent s)) = map (Deliver c) (map (read_response mem) ts) @ [CloseChan c]"
    "ReadNow_receive [] (map (read_response mem) ts)
       = (map mem (span (\<not> r_noninc reg) (r_Addr reg) (unat n)), None)"
    by (rule ReadNow_packets [OF size n])
  with exchange_all [OF order s(2)] show ?thesis by blast
qed

theorem ReadNow_end_to_end_witness:
  "\<exists>s rs. preparepackets 100 init_preparer
        [Requested (Target_Read demo_reg 40 1), Requested Target_Dispatch] = Some (Inr s)
    \<and> ReadNow_receive [] rs = (map (\<lambda>a. a + 1) (span True 0x200 40), None)"
  using ReadNow_end_to_end [of 100 BigEndian 40 demo_reg 1 "\<lambda>a. a + 1"]
  by (auto simp: demo_reg_def)

text \<open>C2: The same read through the hardware interface.  The packets that \<open>preparepackets\<close> made
  go to \<open>Run\<close> in a steady run: writes to the connection succeed, the configuration is complete
  before the first packet, and four slots of \<open>flyingids\<close> are free before each step.  The target
  sees only what is written: a datagram that arrives with an identifier other than 0 is its
  answer, with the words of its memory, to the last request written under that identifier.
  Within this the handlers of \<open>Run\<close>, the timeouts, the recovery of lost packets and the
  configuration interleave in any order, and datagrams are delayed, reordered, repeated or
  lost.  Once as many replies have been returned as packets were sent, the channel of the call
  has carried its responses in order and one close, and \<open>ReadNow\<close> returns the words.\<close>

theorem ReadNow_through_hardware:
  assumes size: "48 \<le> maxsize" "maxsize \<le> 32768" and n: "n \<noteq> 0"
    and prepared: "preparepackets maxsize init_preparer
        [Requested (Target_Read reg n c), Requested Target_Dispatch] = Some (Inr s)"
    and run: "honest_run cw dt (readable c) (memory_serves mem (word_order big)) (pr_sent s) sys"
    and network: "reliable cw" "0 < dt"
    and complete: "length (returned_ids (h_log (s_hw sys))) = length (pr_sent s)"
  shows "\<exists>rs. concat (returned_events (h_log (s_hw sys))) = map (Deliver c) rs @ [CloseChan c]
    \<and> ReadNow_receive [] rs =
        (map mem (span (\<not> r_noninc reg) (r_Addr reg) (unat n)), None)"
proof -
  obtain s' ts where s':
    "preparepackets maxsize init_preparer [Requested (Target_Read reg n c), Requested Target_Dispatch]
       = Some (Inr s')"
    "concat (map (read_events mem) (pr_sent s')) = map (Deliver c) (map (read_response mem) ts) @ [CloseChan c]"
    "ReadNow_receive [] (map (read_response mem) ts)
       = (map mem (span (\<not> r_noninc reg) (r_Addr reg) (unat n)), None)"
    by (rule ReadNow_packets [OF size n])
  have "s' = s" using s'(1) prepared by simp
  moreover have "list_all2 (\<lambda>p evs. evs = read_events mem p) (pr_sent s) (returned_events (h_log (s_hw sys)))"
    using memory_target.returned_run [OF run network] complete by simp
  then have "returned_events (h_log (s_hw sys)) = map (read_events mem) (pr_sent s)"
    by (simp add: list_all2_conv_all_nth list_eq_iff_nth_eq)
  ultimately have "concat (returned_events (h_log (s_hw sys))) = concat (map (read_events mem) (pr_sent s'))"
    by simp
  with s'(2,3) show ?thesis by metis
qed

theorem ReadNow_through_hardware_witness:
  "\<exists>(sys :: system) rs. concat (returned_events (h_log (s_hw sys))) = map (Deliver 1) rs @ [CloseChan 1]
    \<and> ReadNow_receive [] rs = (map demo_memory (span True 0x200 10), None)"
proof -
  obtain s sys where s:
    "preparepackets 56 init_preparer [Requested (Target_Read demo_reg 10 1), Requested Target_Dispatch]
       = Some (Inr s)"
    "honest_run perfect_write 3 (readable 1) (memory_serves demo_memory (word_order True)) (pr_sent s) sys"
    "length (returned_ids (h_log (s_hw sys))) = length (pr_sent s)"
    by (rule demo_read_run)
  from ReadNow_through_hardware [OF _ _ _ s(1,2) reliable_perfect _ s(3)] obtain rs where
    events: "concat (returned_events (h_log (s_hw sys))) = map (Deliver 1) rs @ [CloseChan 1]"
    and "ReadNow_receive [] rs
      = (map demo_memory (span (\<not> r_noninc demo_reg) (r_Addr demo_reg) (unat (10 :: u64))), None)"
    by auto
  then have "ReadNow_receive [] rs = (map demo_memory (span True 0x200 10), None)"
    by (simp add: demo_reg_def)
  with events show ?thesis by blast
qed



end
